(* ===== verification/Kernel_Prelude.thy ===== *)
theory Kernel_Prelude
  imports Main "HOL-Library.Word" "HOL-Library.Monad_Syntax"
begin

text \<open>
  Shared vocabulary of the development: the types that stand for C pointers and machine integers,
  the error numbers, the outcome of the kernel's allocator and random number generator, and the
  generic facts on lists and options that the component proofs use.

  Conventions.  A C function that can fault (a NULL or dangling dereference, an array index out of
  range, a double free, a failed \<^verbatim>\<open>BUG_ON\<close>) or that can run forever is a function into \<open>'a option\<close>;
  \<open>None\<close> stands for the fault, so a theorem that states \<open>f x = Some y\<close> states at the same time
  that \<open>f\<close> returns, that it touches only live memory, and what it returns.  A C pointer is an
  \<open>addr option\<close> in which \<open>None\<close> is \<^verbatim>\<open>NULL\<close>.
\<close>

unbundle bit_operations_syntax

section \<open>Pointers and error numbers\<close>

type_synonym addr = nat
type_synonym paddr = nat
type_synonym nsaddr = nat
type_synonym taddr = nat

text \<open>The error numbers of the kernel ABI that the sources use.\<close>

abbreviation (input) EPERM :: int where "EPERM \<equiv> 1"
abbreviation (input) ESRCH :: int where "ESRCH \<equiv> 3"
abbreviation (input) ECHILD :: int where "ECHILD \<equiv> 10"
abbreviation (input) EAGAIN :: int where "EAGAIN \<equiv> 11"
abbreviation (input) ENOMEM :: int where "ENOMEM \<equiv> 12"
abbreviation (input) ERESTARTSYS :: int where "ERESTARTSYS \<equiv> 512"
abbreviation (input) EINVAL :: int where "EINVAL \<equiv> 22"
abbreviation (input) ENOSPC :: int where "ENOSPC \<equiv> 28"

abbreviation (input) INT_MIN :: int where "INT_MIN \<equiv> - 2147483648"
abbreviation (input) INT_MAX :: int where "INT_MAX \<equiv> 2147483647"

text \<open>
  A pointer returned by a function that may encode an error in it: \<^verbatim>\<open>ERR_PTR(0)\<close> is the NULL
  pointer, and \<^verbatim>\<open>IS_ERR\<close> recognises only the encoded errors.
\<close>

datatype 'a errptr = NullPtr | ValidPtr 'a | ErrPtr int

definition ERR_PTR :: "int \<Rightarrow> 'a errptr" where
  "ERR_PTR e = (if e = 0 then NullPtr else ErrPtr e)"

fun IS_ERR :: "'a errptr \<Rightarrow> bool" where
  "IS_ERR (ErrPtr e) = True"
| "IS_ERR _ = False"

section \<open>Allocator and random number generator\<close>

datatype gfp_bit = GFP_KERNEL_BITS | GFP_ATOMIC_BITS | GFP_NOFAIL_BIT

type_synonym gfp_t = "gfp_bit set"

abbreviation GFP_KERNEL :: gfp_t where "GFP_KERNEL \<equiv> {GFP_KERNEL_BITS}"
abbreviation GFP_ATOMIC :: gfp_t where "GFP_ATOMIC \<equiv> {GFP_ATOMIC_BITS}"
abbreviation GFP_NOFAIL :: gfp_t where "GFP_NOFAIL \<equiv> {GFP_NOFAIL_BIT}"

text \<open>
  What one call of an insertion draws from code outside the repository: the value of
  \<^verbatim>\<open>prandom_u32()\<close>, and whether the two allocations of a node succeed under given flags.
\<close>

record draw =
  prandom_u32 :: "32 word"
  kzalloc_ok :: "gfp_t \<Rightarrow> bool"
  kcalloc_ok :: "gfp_t \<Rightarrow> bool"

text \<open>The documented promise of \<^verbatim>\<open>__GFP_NOFAIL\<close>: such an allocation does not fail.\<close>

definition nofail_promise :: "draw \<Rightarrow> bool" where
  "nofail_promise d \<longleftrightarrow>
     (\<forall>g. GFP_NOFAIL_BIT \<in> g \<longrightarrow> kzalloc_ok d g \<and> kcalloc_ok d g)"

section \<open>Generic facts\<close>

named_theorems heap_simps \<open>reads and writes of heap cells\<close>
named_theorems chain_intros \<open>level chains after an update\<close>

text \<open>A list sorted by keys splits at a bound into the small and the large elements.\<close>

lemma filter_split_sorted:
  fixes f :: "'a \<Rightarrow> int"
  assumes "sorted_wrt (<) (map f xs)"
  shows "xs = filter (\<lambda>a. f a < k) xs @ filter (\<lambda>a. \<not> f a < k) xs"
  using assms
proof (induction xs)
  case (Cons a xs)
  show ?case
  proof (cases "f a < k")
    case True
    with Cons show ?thesis by simp
  next
    case False
    with Cons.prems have "\<forall>b \<in> set xs. \<not> f b < k" by auto
    then have "filter (\<lambda>a. f a < k) xs = []" "filter (\<lambda>a. \<not> f a < k) xs = xs"
      by (simp_all add: filter_empty_conv)
    with False show ?thesis by simp
  qed
qed simp

lemma sorted_wrt_filter_map:
  "sorted_wrt P (map f xs) \<Longrightarrow> sorted_wrt P (map f (filter Q xs))"
  by (induction xs) auto

lemma last_Cons_mem: "last (x # xs) \<in> set (x # xs)"
  by (rule last_in_set) simp

lemma find_filter: "List.find P xs = (case filter P xs of [] \<Rightarrow> None | x # _ \<Rightarrow> Some x)"
  by (induction xs) auto

end
