(* ===== verification/Pid_Index.thy ===== *)
theory Pid_Index
  imports Kernel_Prelude
begin

text \<open>
  The interface between \<^verbatim>\<open>pid.c\<close> / \<^verbatim>\<open>pid_namespace.c\<close> and the structure that indexes the pids of a
  namespace.  The two source trees call the same six operations of two different structures
  (\<^verbatim>\<open>pid_skiplist_*\<close> and \<^verbatim>\<open>pid_rb_skiplist_*\<close>); the model of the callers takes them as a record.  The
  locale \<open>pid_index\<close> states what the callers rely on, against the abstract map from numbers to pid
  pointers, and holds what follows for any provider.
\<close>

section \<open>Operations\<close>

record 'sl index_ops =
  op_init :: "draw \<Rightarrow> gfp_t \<Rightarrow> 'sl \<Rightarrow> 'sl option"
  op_destroy :: "'sl \<Rightarrow> 'sl option"
  op_insert :: "draw \<Rightarrow> 'sl \<Rightarrow> int \<Rightarrow> paddr option \<Rightarrow> gfp_t \<Rightarrow> (int \<times> 'sl) option"
  op_lookup :: "'sl \<Rightarrow> int \<Rightarrow> paddr option option"
  op_remove :: "'sl \<Rightarrow> int \<Rightarrow> 'sl option"
  op_iter_next :: "'sl \<Rightarrow> addr option \<Rightarrow> int \<Rightarrow> (paddr option \<times> addr option) option"
  op_find_ge :: "'sl \<Rightarrow> int \<Rightarrow> paddr option option"
  op_header :: "'sl \<Rightarrow> addr option"

text \<open>
  The loop \<^verbatim>\<open>while ((pid = iter_next(&sl, &cursor, nr)) != NULL)\<close>, as the list of the pids it
  visits.
\<close>

partial_function (option) iter_collect ::
  "'sl index_ops \<Rightarrow> 'sl \<Rightarrow> addr option \<Rightarrow> int \<Rightarrow> paddr list option" where
  "iter_collect ops s cursor start =
     (case op_iter_next ops s cursor start of None \<Rightarrow> None
      | Some r \<Rightarrow> (case r of (p, cursor') \<Rightarrow> (case p of None \<Rightarrow> Some []
          | Some q \<Rightarrow> Option.bind (iter_collect ops s cursor' start) (\<lambda>qs. Some (q # qs)))))"

section \<open>Abstract specification\<close>

type_synonym idx = "int \<Rightarrow> paddr option option"

text \<open>A lookup cannot tell an absent number from one bound to \<^verbatim>\<open>NULL\<close>.\<close>

definition idx_get :: "idx \<Rightarrow> int \<Rightarrow> paddr option" where
  "idx_get m k = (case m k of None \<Rightarrow> None | Some p \<Rightarrow> p)"

definition idx_keys_ge :: "idx \<Rightarrow> int \<Rightarrow> int list" where
  "idx_keys_ge m k = sorted_list_of_set {j \<in> dom m. k \<le> j}"

definition idx_find_ge :: "idx \<Rightarrow> int \<Rightarrow> paddr option" where
  "idx_find_ge m k = (case idx_keys_ge m k of [] \<Rightarrow> None | j # _ \<Rightarrow> idx_get m j)"

text \<open>The pids an iteration visits: in ascending order of their numbers, up to the first \<^verbatim>\<open>NULL\<close>.\<close>

fun until_null :: "'a option list \<Rightarrow> 'a list" where
  "until_null [] = []"
| "until_null (None # ps) = []"
| "until_null (Some p # ps) = p # until_null ps"

definition idx_iter :: "idx \<Rightarrow> int \<Rightarrow> paddr list" where
  "idx_iter m k = until_null (map (idx_get m) (idx_keys_ge m k))"

section \<open>The contract\<close>

locale pid_index =
  fixes ops :: "'sl index_ops"
    and inv :: "'sl \<Rightarrow> bool"
    and abs :: "'sl \<Rightarrow> idx"
    and good :: "draw \<Rightarrow> bool"
  assumes header: "inv s \<Longrightarrow> op_header ops s \<noteq> None"
    and finite_keys: "inv s \<Longrightarrow> finite (dom (abs s))"
    and lookup: "inv s \<Longrightarrow> op_lookup ops s k = Some (idx_get (abs s) k)"
    and insert: "inv s \<Longrightarrow> good d \<Longrightarrow>
      \<exists>r s'. op_insert ops d s k p g = Some (r, s') \<and> inv s' \<and>
        (r = 0 \<and> abs s' = (abs s)(k \<mapsto> p)
         \<or> r = - ENOMEM \<and> k \<notin> dom (abs s) \<and> abs s' = abs s)"
    and insert_enough: "inv s \<Longrightarrow> good d \<Longrightarrow> (\<And>g. kzalloc_ok d g \<and> kcalloc_ok d g) \<Longrightarrow>
      op_insert ops d s k p g = Some (r, s') \<Longrightarrow> r = 0"
    and remove: "inv s \<Longrightarrow> \<exists>s'. op_remove ops s k = Some s' \<and> inv s' \<and> abs s' = (abs s)(k := None)"
    and find_ge: "inv s \<Longrightarrow> op_find_ge ops s k = Some (idx_find_ge (abs s) k)"
    and iter: "inv s \<Longrightarrow> iter_collect ops s None k = Some (idx_iter (abs s) k)"

text \<open>
  A run of insertions and removals with the values they return, and what it does to the map.
\<close>

datatype idx_cmd = IInsert draw int "paddr option" gfp_t | IRemove int

fun op_step :: "'sl index_ops \<Rightarrow> 'sl \<Rightarrow> idx_cmd \<Rightarrow> (int \<times> 'sl) option" where
  "op_step ops s (IInsert d k p g) = op_insert ops d s k p g"
| "op_step ops s (IRemove k) = map_option (Pair 0) (op_remove ops s k)"

primrec op_run :: "'sl index_ops \<Rightarrow> 'sl \<Rightarrow> idx_cmd list \<Rightarrow> (int list \<times> 'sl) option" where
  "op_run ops s [] = Some ([], s)"
| "op_run ops s (c # cs) = do {
     (r, s') \<leftarrow> op_step ops s c;
     (rs, s'') \<leftarrow> op_run ops s' cs;
     Some (r # rs, s'') }"

fun idx_apply :: "idx \<Rightarrow> idx_cmd \<times> int \<Rightarrow> idx" where
  "idx_apply m (IInsert d k p g, r) = (if r = 0 then m(k \<mapsto> p) else m)"
| "idx_apply m (IRemove k, r) = m(k := None)"

fun cmd_draw :: "(draw \<Rightarrow> bool) \<Rightarrow> idx_cmd \<Rightarrow> bool" where
  "cmd_draw good (IInsert d k p g) = good d"
| "cmd_draw good (IRemove k) = True"

context pid_index
begin

lemma step_refines:
  assumes "inv s" and "cmd_draw good c"
  shows "\<exists>r s'. op_step ops s c = Some (r, s') \<and> inv s' \<and> r \<in> {0, - ENOMEM} \<and>
     abs s' = idx_apply (abs s) (c, r)"
proof (cases c)
  case (IInsert d k p g)
  from assms(2) have "good d" by (simp add: IInsert)
  from insert [OF assms(1) this, of k p g] obtain r s' where
    "op_insert ops d s k p g = Some (r, s')" "inv s'"
    "r = 0 \<and> abs s' = (abs s)(k \<mapsto> p) \<or> r = - ENOMEM \<and> k \<notin> dom (abs s) \<and> abs s' = abs s" by blast
  then show ?thesis by (intro exI [of _ r] exI [of _ s']) (auto simp: IInsert)
next
  case (IRemove k)
  with remove [OF assms(1), of k] show ?thesis by auto
qed

lemma run_refines:
  "inv s \<Longrightarrow> list_all (cmd_draw good) cs \<Longrightarrow>
   \<exists>rs s'. op_run ops s cs = Some (rs, s') \<and> inv s' \<and> length rs = length cs \<and> set rs \<subseteq> {0, - ENOMEM} \<and>
     abs s' = foldl idx_apply (abs s) (zip cs rs)"
proof (induction cs arbitrary: s)
  case (Cons c cs)
  obtain r s1 where 1: "op_step ops s c = Some (r, s1)" "inv s1" "r \<in> {0, - ENOMEM}"
      "abs s1 = idx_apply (abs s) (c, r)"
    using step_refines [OF Cons.prems(1), of c] Cons.prems(2) by auto
  obtain rs s2 where 2: "op_run ops s1 cs = Some (rs, s2)" "inv s2" "length rs = length cs"
      "set rs \<subseteq> {0, - ENOMEM}" "abs s2 = foldl idx_apply (abs s1) (zip cs rs)"
    using Cons.IH [OF 1(2)] Cons.prems(2) by auto
  from 1 2 show ?case by (intro exI [of _ "r # rs"] exI [of _ s2]) auto
qed simp

end

text \<open>Generic facts on the specification.\<close>

lemma idx_get_upd [simp]: "idx_get (m(k \<mapsto> p)) j = (if j = k then p else idx_get m j)"
  by (simp add: idx_get_def)

lemma idx_get_del [simp]: "idx_get (m(k := None)) j = (if j = k then None else idx_get m j)"
  by (simp add: idx_get_def)

lemma set_idx_keys_ge: "finite (dom m) \<Longrightarrow> set (idx_keys_ge m k) = {j \<in> dom m. k \<le> j}"
  by (simp add: idx_keys_ge_def)

lemma until_null_Some: "until_null (map Some xs) = xs"
  by (induction xs) auto

lemma until_null_full: "None \<notin> set ps \<Longrightarrow> map Some (until_null ps) = ps"
  by (induction ps rule: until_null.induct) auto

text \<open>If no number is bound to \<^verbatim>\<open>NULL\<close>, an iteration visits every pid at or above the start.\<close>

lemma idx_iter_all:
  assumes "finite (dom m)" and "\<forall>j \<in> dom m. k \<le> j \<longrightarrow> m j \<noteq> Some None"
  shows "Some p = idx_get m j \<Longrightarrow> k \<le> j \<Longrightarrow> p \<in> set (idx_iter m k)"
proof -
  assume p: "Some p = idx_get m j" and j: "k \<le> j"
  let ?ps = "map (idx_get m) (idx_keys_ge m k)"
  have "idx_get m i \<noteq> None" if "i \<in> set (idx_keys_ge m k)" for i
    using that assms by (auto simp: set_idx_keys_ge idx_get_def split: option.splits)
  then have "None \<notin> set ?ps" by (metis (no_types, lifting) imageE set_map)
  then have "map Some (idx_iter m k) = ?ps" unfolding idx_iter_def by (rule until_null_full)
  moreover from p j assms(1) have "Some p \<in> set ?ps"
    by (auto simp: set_idx_keys_ge idx_get_def split: option.splits intro!: image_eqI [of _ _ j])
  ultimately have "Some p \<in> set (map Some (idx_iter m k))" by simp
  then show ?thesis by auto
qed

lemma idx_find_ge_hit:
  assumes "finite (dom m)" and "m k = Some p"
  shows "idx_find_ge m k = p"
proof -
  have fin: "finite {j \<in> dom m. k \<le> j}" using assms(1) by simp
  have mem: "k \<in> {j \<in> dom m. k \<le> j}" using assms(2) by auto
  have min: "Min {j \<in> dom m. k \<le> j} = k" by (rule Min_eqI [OF fin _ mem]) simp
  have "idx_keys_ge m k = k # sorted_list_of_set ({j \<in> dom m. k \<le> j} - {k})"
    unfolding idx_keys_ge_def using sorted_list_of_set_nonempty [OF fin] mem min by auto
  with assms(2) show ?thesis by (simp add: idx_find_ge_def idx_get_def)
qed

end
