(* ===== verification/Kernel_State.thy ===== *)
theory Kernel_State
  imports Pid_Index
begin

text \<open>
  The state that \<^verbatim>\<open>pid.c\<close> and \<^verbatim>\<open>pid_namespace.c\<close> work on: the structures of \<^verbatim>\<open>pid.h\<close> and
  \<^verbatim>\<open>pid_namespace.h\<close> in heaps of their own, the globals of the two files, and the parameters that stand
  for kernel code outside the repository.

  Every critical section under \<^verbatim>\<open>pidmap_lock\<close> is one step on the state, so locking operations do not
  appear.  Calls into the rest of the kernel whose effect is not part of this state (waking a task,
  scheduling work, sending a signal) are appended to a log, \<open>k_events\<close>.  A structure passed to
  \<^verbatim>\<open>call_rcu\<close> is queued in \<open>k_rcu\<close>.  Reference counts are natural numbers; an increment from zero or
  a decrement of zero, which the kernel reports as a use after free, is a fault.  Fields that no
  modelled code reads (wait queues, mounts, accounting) are left out.
\<close>

section \<open>Structures\<close>

datatype pid_type = PIDTYPE_PID | PIDTYPE_TGID | PIDTYPE_PGID | PIDTYPE_SID

definition pid_types :: "pid_type list" where
  "pid_types = [PIDTYPE_PID, PIDTYPE_TGID, PIDTYPE_PGID, PIDTYPE_SID]"

record upid =
  u_nr :: int
  u_ns :: nsaddr

text \<open>\<^verbatim>\<open>numbers\<close> has an element for each level; an element is \<open>None\<close> until it is written.\<close>

record pid =
  p_count :: nat
  p_level :: nat
  p_tasks :: "pid_type \<Rightarrow> taddr list"
  p_numbers :: "upid option list"

record 'sl pid_namespace =
  kref :: nat
  pid_sl :: 'sl
  last_pid :: int
  pid_allocated :: "32 word"
  child_reaper :: "taddr option"
  pid_cachep :: "nat option"
  ns_level :: nat
  ns_parent :: "nsaddr option"
  user_ns :: nat
  ucounts :: nat
  reboot :: int

text \<open>
  The part of \<^verbatim>\<open>struct task_struct\<close> that the files touch.  \<open>pid_links\<close> tells for each type on the list of
  which pid the task's link is.  The \<^verbatim>\<open>signal\<close> structure is shared by the threads of a process and has
  its own heap.
\<close>

record task =
  thread_pid :: "paddr option"
  signal :: nat
  pid_links :: "pid_type \<Rightarrow> paddr option"
  usage :: nat
  nsproxy :: "nat option"

datatype rcu_work = DelayedPutPid paddr | DelayedFreePidns nsaddr

datatype event =
    WakeUpProcess "taddr option"
  | ScheduleProcWork nsaddr
  | WarnOn
  | SendSigkill "taddr option"
  | ReleaseProc nsaddr
  | IgnoreSigchld
  | GroupExitCode int
  | AcctExitNs nsaddr
  | FreeInum nsaddr
  | DecUcount nat
  | PutUserNs nat
  | GetUserNs nat
  | DoExit

record 'sl kernel =
  k_ns :: "nsaddr \<Rightarrow> 'sl pid_namespace option"
  k_pids :: "paddr \<Rightarrow> pid option"
  k_tasks :: "taddr \<Rightarrow> task option"
  k_signals :: "nat \<Rightarrow> (pid_type \<Rightarrow> paddr option) option"
  k_nsproxies :: "nat \<Rightarrow> nsaddr option"
  k_brk :: nat
  k_tick :: nat
  k_current :: taddr
  pid_max :: int
  pid_max_min :: int
  pid_max_max :: int
  pid_cache :: "nat \<Rightarrow> nat option"
  k_rcu :: "rcu_work list"
  k_events :: "event list"

section \<open>Constants\<close>

definition init_pid_ns :: nsaddr where
  "init_pid_ns = 0"

definition PIDNS_ADDING :: "32 word" where
  "PIDNS_ADDING = push_bit 31 1"

definition RESERVED_PIDS :: int where
  "RESERVED_PIDS = 300"

definition MAX_PID_NS_LEVEL :: nat where
  "MAX_PID_NS_LEVEL = 32"

section \<open>The rest of the kernel\<close>

text \<open>
  Results of code outside the repository.  Those that may differ from call to call take the number of
  the call, \<open>k_tick\<close>.  \<open>task_pid\<close> and \<open>pid_alive\<close> are inline functions of \<^verbatim>\<open>sched.h\<close>.
\<close>

record kenv =
  e_draw :: "nat \<Rightarrow> draw"
  kmem_cache_alloc_ok :: "nat \<Rightarrow> bool"
  pid_ns_prepare_proc :: "nat \<Rightarrow> nsaddr \<Rightarrow> int"
  anon_inode_getfd :: "nat \<Rightarrow> int"
  task_pid :: "task \<Rightarrow> paddr option"
  pid_alive :: "task \<Rightarrow> bool"
  in_userns :: "nat \<Rightarrow> nat \<Rightarrow> bool"
  inc_ucount :: "nat \<Rightarrow> nat \<Rightarrow> nat option"
  kmem_cache_create :: "nat \<Rightarrow> nat \<Rightarrow> nat option"
  ns_alloc_inum :: "nat \<Rightarrow> int"
  ns_capable :: "nat \<Rightarrow> bool"
  proc_dointvec_minmax :: "bool \<Rightarrow> int \<Rightarrow> int \<Rightarrow> int \<Rightarrow> int \<times> int"
  current_user_ns :: nat
  fatal_signal_pending :: "taddr \<Rightarrow> bool"
  thread_group_leader :: "taddr \<Rightarrow> bool"
  num_possible_cpus :: int
  PID_MAX_LIMIT :: int
  PIDS_PER_CPU_DEFAULT :: int
  PIDS_PER_CPU_MIN :: int

definition task_api_ok :: "kenv \<Rightarrow> bool" where
  "task_api_ok e \<longleftrightarrow> (\<forall>t. task_pid e t = thread_pid t \<and> pid_alive e t = (thread_pid t \<noteq> None))"

section \<open>Accesses\<close>

definition ns_upd :: "'sl kernel \<Rightarrow> nsaddr \<Rightarrow> ('sl pid_namespace \<Rightarrow> 'sl pid_namespace) \<Rightarrow> 'sl kernel option" where
  "ns_upd k a f = (case k_ns k a of None \<Rightarrow> None | Some n \<Rightarrow> Some (k\<lparr>k_ns := (k_ns k)(a \<mapsto> f n)\<rparr>))"

definition pid_upd :: "'sl kernel \<Rightarrow> paddr \<Rightarrow> (pid \<Rightarrow> pid) \<Rightarrow> 'sl kernel option" where
  "pid_upd k p f = (case k_pids k p of None \<Rightarrow> None | Some P \<Rightarrow> Some (k\<lparr>k_pids := (k_pids k)(p \<mapsto> f P)\<rparr>))"

definition task_upd :: "'sl kernel \<Rightarrow> taddr \<Rightarrow> (task \<Rightarrow> task) \<Rightarrow> 'sl kernel option" where
  "task_upd k t f = (case k_tasks k t of None \<Rightarrow> None | Some T \<Rightarrow> Some (k\<lparr>k_tasks := (k_tasks k)(t \<mapsto> f T)\<rparr>))"

definition log_event :: "event \<Rightarrow> 'sl kernel \<Rightarrow> 'sl kernel" where
  "log_event e k = k\<lparr>k_events := k_events k @ [e]\<rparr>"

definition tick :: "'sl kernel \<Rightarrow> 'sl kernel" where
  "tick k = k\<lparr>k_tick := Suc (k_tick k)\<rparr>"

definition call_rcu :: "rcu_work \<Rightarrow> 'sl kernel \<Rightarrow> 'sl kernel" where
  "call_rcu w k = k\<lparr>k_rcu := k_rcu k @ [w]\<rparr>"

text \<open>\<^verbatim>\<open>pid->numbers[i]\<close>, a fault when it is out of range or not yet written.\<close>

definition pid_number :: "pid \<Rightarrow> nat \<Rightarrow> upid option" where
  "pid_number P i = (if i < length (p_numbers P) then p_numbers P ! i else None)"

text \<open>Reference counts: \<^verbatim>\<open>refcount_inc\<close>, and \<^verbatim>\<open>refcount_dec_and_test\<close> with the new count.\<close>

definition refcount_inc :: "nat \<Rightarrow> nat option" where
  "refcount_inc c = (if c = 0 then None else Some (Suc c))"

definition refcount_dec :: "nat \<Rightarrow> nat option" where
  "refcount_dec c = (if c = 0 then None else Some (c - 1))"

end
