(* ===== verification/Pid_Ns_Ref.thy ===== *)
theory Pid_Ns_Ref
  imports Kernel_State
begin

text \<open>
  Reference counting of PID namespaces: \<^verbatim>\<open>get_pid_ns\<close> of \<^verbatim>\<open>pid_namespace.h\<close> and the release path of
  \<^verbatim>\<open>pid_namespace.c\<close>.  The last reference to a namespace destroys it and drops its reference to the
  parent, in a loop up the hierarchy.
\<close>

definition get_pid_ns :: "nsaddr \<Rightarrow> 'sl kernel \<Rightarrow> 'sl kernel option" where
  "get_pid_ns ns k =
     (if ns = init_pid_ns then Some k
      else do {
        n \<leftarrow> k_ns k ns;
        c \<leftarrow> refcount_inc (kref n);
        ns_upd k ns (\<lambda>n. n\<lparr>kref := c\<rparr>) })"

definition dec_pid_namespaces :: "nat \<Rightarrow> 'sl kernel \<Rightarrow> 'sl kernel" where
  "dec_pid_namespaces uc k = log_event (DecUcount uc) k"

definition delayed_free_pidns :: "nsaddr \<Rightarrow> 'sl kernel \<Rightarrow> 'sl kernel option" where
  "delayed_free_pidns ns k = do {
     n \<leftarrow> k_ns k ns;
     let k1 = dec_pid_namespaces (ucounts n) k;
     let k2 = log_event (PutUserNs (user_ns n)) k1;
     Some (k2\<lparr>k_ns := (k_ns k2)(ns := None)\<rparr>) }"

definition destroy_pid_namespace :: "'sl index_ops \<Rightarrow> nsaddr \<Rightarrow> 'sl kernel \<Rightarrow> 'sl kernel option" where
  "destroy_pid_namespace ops ns k = do {
     let k1 = log_event (FreeInum ns) k;
     n \<leftarrow> k_ns k1 ns;
     sl' \<leftarrow> op_destroy ops (pid_sl n);
     k2 \<leftarrow> ns_upd k1 ns (\<lambda>n. n\<lparr>pid_sl := sl'\<rparr>);
     Some (call_rcu (DelayedFreePidns ns) k2) }"

definition free_pid_ns :: "'sl index_ops \<Rightarrow> nsaddr \<Rightarrow> 'sl kernel \<Rightarrow> 'sl kernel option" where
  "free_pid_ns ops ns k = destroy_pid_namespace ops ns k"

text \<open>\<^verbatim>\<open>kref_put\<close>: the new count and the state in which the release function ran if it is zero.\<close>

definition kref_put :: "'sl index_ops \<Rightarrow> nsaddr \<Rightarrow> 'sl kernel \<Rightarrow> (bool \<times> 'sl kernel) option" where
  "kref_put ops ns k = do {
     n \<leftarrow> k_ns k ns;
     c \<leftarrow> refcount_dec (kref n);
     k1 \<leftarrow> ns_upd k ns (\<lambda>n. n\<lparr>kref := c\<rparr>);
     if c = 0 then do { k2 \<leftarrow> free_pid_ns ops ns k1; Some (True, k2) } else Some (False, k1) }"

partial_function (option) put_pid_ns :: "'sl index_ops \<Rightarrow> nsaddr option \<Rightarrow> 'sl kernel \<Rightarrow> 'sl kernel option" where
  "put_pid_ns ops ns k =
     (if ns = Some init_pid_ns then Some k
      else (case ns of None \<Rightarrow> None
        | Some a \<Rightarrow> (case k_ns k a of None \<Rightarrow> None
            | Some n \<Rightarrow> (case kref_put ops a k of None \<Rightarrow> None
                | Some r \<Rightarrow> if \<not> fst r then Some (snd r) else put_pid_ns ops (ns_parent n) (snd r)))))"

end
