(* ===== verification/Pid_Core.thy ===== *)
theory Pid_Core
  imports Pid_Ns_Ref
begin

text \<open>
  Model of \<^verbatim>\<open>pid.c\<close> and of the inline functions of \<^verbatim>\<open>pid.h\<close>.  The text is the same in both source trees
  but for the names of the index operations, which are the parameter \<open>ops\<close>.
\<close>

section \<open>Accessors of pid.h and pid\_namespace.h\<close>

definition get_pid :: "paddr option \<Rightarrow> 'sl kernel \<Rightarrow> (paddr option \<times> 'sl kernel) option" where
  "get_pid pid k =
     (case pid of None \<Rightarrow> Some (None, k)
      | Some p \<Rightarrow> do {
          P \<leftarrow> k_pids k p;
          c \<leftarrow> refcount_inc (p_count P);
          k' \<leftarrow> pid_upd k p (\<lambda>P. P\<lparr>p_count := c\<rparr>);
          Some (pid, k') })"

definition ns_of_pid :: "paddr option \<Rightarrow> 'sl kernel \<Rightarrow> nsaddr option option" where
  "ns_of_pid pid k =
     (case pid of None \<Rightarrow> Some None
      | Some p \<Rightarrow> do {
          P \<leftarrow> k_pids k p;
          u \<leftarrow> pid_number P (p_level P);
          Some (Some (u_ns u)) })"

definition is_child_reaper :: "paddr \<Rightarrow> 'sl kernel \<Rightarrow> bool option" where
  "is_child_reaper p k = do {
     P \<leftarrow> k_pids k p;
     u \<leftarrow> pid_number P (p_level P);
     Some (u_nr u = 1) }"

definition pid_nr :: "paddr option \<Rightarrow> 'sl kernel \<Rightarrow> int option" where
  "pid_nr pid k =
     (case pid of None \<Rightarrow> Some 0
      | Some p \<Rightarrow> do { P \<leftarrow> k_pids k p; u \<leftarrow> pid_number P 0; Some (u_nr u) })"

definition pid_ns_get_cursor :: "nsaddr \<Rightarrow> 'sl kernel \<Rightarrow> int option" where
  "pid_ns_get_cursor ns k = map_option last_pid (k_ns k ns)"

definition pid_ns_set_cursor :: "nsaddr \<Rightarrow> int \<Rightarrow> 'sl kernel \<Rightarrow> 'sl kernel option" where
  "pid_ns_set_cursor ns cursor k = ns_upd k ns (\<lambda>n. n\<lparr>last_pid := cursor\<rparr>)"

definition task_active_pid_ns :: "kenv \<Rightarrow> taddr \<Rightarrow> 'sl kernel \<Rightarrow> nsaddr option option" where
  "task_active_pid_ns e tsk k = do { T \<leftarrow> k_tasks k tsk; ns_of_pid (task_pid e T) k }"

section \<open>Releasing pids\<close>

definition put_pid :: "'sl index_ops \<Rightarrow> paddr option \<Rightarrow> 'sl kernel \<Rightarrow> 'sl kernel option" where
  "put_pid ops pid k =
     (case pid of None \<Rightarrow> Some k
      | Some p \<Rightarrow> do {
          P \<leftarrow> k_pids k p;
          u \<leftarrow> pid_number P (p_level P);
          c \<leftarrow> refcount_dec (p_count P);
          k1 \<leftarrow> pid_upd k p (\<lambda>P. P\<lparr>p_count := c\<rparr>);
          if c = 0 then put_pid_ns ops (Some (u_ns u)) (k1\<lparr>k_pids := (k_pids k1)(p := None)\<rparr>)
          else Some k1 })"

definition delayed_put_pid :: "'sl index_ops \<Rightarrow> paddr \<Rightarrow> 'sl kernel \<Rightarrow> 'sl kernel option" where
  "delayed_put_pid ops p k = put_pid ops (Some p) k"

text \<open>The \<^verbatim>\<open>switch\<close> on the decremented counter of a namespace.\<close>

definition free_pid_account :: "nsaddr \<Rightarrow> 'sl kernel \<Rightarrow> 'sl kernel option" where
  "free_pid_account ns k = do {
     n \<leftarrow> k_ns k ns;
     let c = pid_allocated n - 1;
     k1 \<leftarrow> ns_upd k ns (\<lambda>n. n\<lparr>pid_allocated := c\<rparr>);
     if c = 2 \<or> c = 1 then Some (log_event (WakeUpProcess (child_reaper n)) k1)
     else if c = PIDNS_ADDING then do {
       let k2 = (if child_reaper n \<noteq> None then log_event WarnOn k1 else k1);
       k3 \<leftarrow> ns_upd k2 ns (\<lambda>n. n\<lparr>pid_allocated := 0\<rparr>);
       Some (log_event (ScheduleProcWork ns) k3) }
     else if c = 0 then Some (log_event (ScheduleProcWork ns) k1)
     else Some k1 }"

text \<open>\<^verbatim>\<open>for (i = 0; i <= pid->level; i++)\<close> from \<open>i\<close> on, for \<open>m\<close> levels.\<close>

primrec free_pid_levels :: "'sl index_ops \<Rightarrow> paddr \<Rightarrow> nat \<Rightarrow> nat \<Rightarrow> 'sl kernel \<Rightarrow> 'sl kernel option" where
  "free_pid_levels ops p i 0 k = Some k"
| "free_pid_levels ops p i (Suc m) k = do {
     P \<leftarrow> k_pids k p;
     u \<leftarrow> pid_number P i;
     k1 \<leftarrow> free_pid_account (u_ns u) k;
     n \<leftarrow> k_ns k1 (u_ns u);
     sl' \<leftarrow> op_remove ops (pid_sl n) (u_nr u);
     k2 \<leftarrow> ns_upd k1 (u_ns u) (\<lambda>n. n\<lparr>pid_sl := sl'\<rparr>);
     free_pid_levels ops p (Suc i) m k2 }"

definition free_pid :: "'sl index_ops \<Rightarrow> paddr \<Rightarrow> 'sl kernel \<Rightarrow> 'sl kernel option" where
  "free_pid ops p k = do {
     P \<leftarrow> k_pids k p;
     k' \<leftarrow> free_pid_levels ops p 0 (Suc (p_level P)) k;
     Some (call_rcu (DelayedPutPid p) k') }"

section \<open>Allocating pids\<close>

text \<open>
  A scan of the numbers from \<open>scan\<close> up to \<open>hi\<close>: the number that was reserved or -1, the value of
  \<^verbatim>\<open>retval\<close>, and the new state.
\<close>

function alloc_scan :: "'sl index_ops \<Rightarrow> kenv \<Rightarrow> nsaddr \<Rightarrow> int \<Rightarrow> int \<Rightarrow> int \<Rightarrow> 'sl kernel
    \<Rightarrow> (int \<times> int \<times> 'sl kernel) option" where
  "alloc_scan ops e ns hi scan retval k =
     (if scan < hi then
        (case k_ns k ns of None \<Rightarrow> None
         | Some n \<Rightarrow> (case op_lookup ops (pid_sl n) scan of None \<Rightarrow> None
             | Some (Some existing) \<Rightarrow> alloc_scan ops e ns hi (scan + 1) retval k
             | Some None \<Rightarrow>
                 (case op_insert ops (e_draw e (k_tick k)) (pid_sl n) scan None GFP_ATOMIC of None \<Rightarrow> None
                  | Some (r, sl') \<Rightarrow>
                      if r = 0
                      then Some (scan, r, tick (k\<lparr>k_ns := (k_ns k)(ns \<mapsto> n\<lparr>pid_sl := sl', last_pid := scan\<rparr>)\<rparr>))
                      else alloc_scan ops e ns hi (scan + 1) r
                             (tick (k\<lparr>k_ns := (k_ns k)(ns \<mapsto> n\<lparr>pid_sl := sl'\<rparr>)\<rparr>)))))
      else Some (-1, retval, k))"
  by pat_completeness auto
termination
  by (relation "measure (\<lambda>(ops, e, ns, hi, scan, retval, k). nat (hi - scan))") auto

declare alloc_scan.simps [simp del]

text \<open>The critical section that reserves a number in one namespace.\<close>

definition alloc_nr :: "'sl index_ops \<Rightarrow> kenv \<Rightarrow> nsaddr \<Rightarrow> int \<Rightarrow> 'sl kernel
    \<Rightarrow> (int \<times> int \<times> 'sl kernel) option" where
  "alloc_nr ops e ns retval k = do {
     n \<leftarrow> k_ns k ns;
     let pid_min = 1;
     let start_pid = (if last_pid n + 1 < pid_min \<or> last_pid n + 1 \<ge> pid_max k then pid_min
                      else last_pid n + 1);
     (nr, retval1, k1) \<leftarrow> alloc_scan ops e ns (pid_max k) start_pid retval k;
     if nr < 0 then alloc_scan ops e ns start_pid pid_min retval1 k1
     else Some (nr, retval1, k1) }"

text \<open>
  \<^verbatim>\<open>for (i = ns->level; i >= 0; i--)\<close>: the value of \<open>i\<close> on exit, which is -1 when a number was reserved
  on every level, \<^verbatim>\<open>retval\<close>, and the state.
\<close>

primrec alloc_levels :: "'sl index_ops \<Rightarrow> kenv \<Rightarrow> paddr \<Rightarrow> nat \<Rightarrow> nsaddr option \<Rightarrow> int \<Rightarrow> 'sl kernel
    \<Rightarrow> (int \<times> int \<times> 'sl kernel) option" where
  "alloc_levels ops e p 0 tmp retval k = Some (-1, retval, k)"
| "alloc_levels ops e p (Suc i) tmp retval k = do {
     ns \<leftarrow> tmp;
     (nr, retval1, k1) \<leftarrow> alloc_nr ops e ns retval k;
     if nr < 0 then Some (int i, (if nr = - ENOSPC then - EAGAIN else nr), k1)
     else do {
       P \<leftarrow> k_pids k1 p;
       k2 \<leftarrow> (if i < length (p_numbers P)
              then pid_upd k1 p (\<lambda>P. P\<lparr>p_numbers := (p_numbers P)[i := Some \<lparr>u_nr = nr, u_ns = ns\<rparr>]\<rparr>)
              else None);
       n \<leftarrow> k_ns k2 ns;
       alloc_levels ops e p i (ns_parent n) retval1 k2 } }"

text \<open>\<^verbatim>\<open>for ( ; upid >= pid->numbers; --upid)\<close>: replace the reserved entries by the pid.\<close>

primrec alloc_publish :: "'sl index_ops \<Rightarrow> kenv \<Rightarrow> paddr \<Rightarrow> nat \<Rightarrow> 'sl kernel \<Rightarrow> 'sl kernel option" where
  "alloc_publish ops e p 0 k = Some k"
| "alloc_publish ops e p (Suc i) k = do {
     P \<leftarrow> k_pids k p;
     u \<leftarrow> pid_number P i;
     n \<leftarrow> k_ns k (u_ns u);
     (r, sl') \<leftarrow> op_insert ops (e_draw e (k_tick k)) (pid_sl n) (u_nr u) (Some p) GFP_ATOMIC;
     k1 \<leftarrow> ns_upd k (u_ns u) (\<lambda>n. n\<lparr>pid_sl := sl', pid_allocated := pid_allocated n + 1\<rparr>);
     alloc_publish ops e p i (tick k1) }"

text \<open>\<^verbatim>\<open>while (++i <= ns->level)\<close>: take the reserved entries out again, from level \<open>j\<close> on.\<close>

primrec alloc_unreserve :: "'sl index_ops \<Rightarrow> paddr \<Rightarrow> nat \<Rightarrow> nat \<Rightarrow> 'sl kernel \<Rightarrow> 'sl kernel option" where
  "alloc_unreserve ops p j 0 k = Some k"
| "alloc_unreserve ops p j (Suc m) k = do {
     P \<leftarrow> k_pids k p;
     u \<leftarrow> pid_number P j;
     n \<leftarrow> k_ns k (u_ns u);
     sl' \<leftarrow> op_remove ops (pid_sl n) (u_nr u);
     k1 \<leftarrow> ns_upd k (u_ns u) (\<lambda>n. n\<lparr>pid_sl := sl'\<rparr>);
     alloc_unreserve ops p (Suc j) m k1 }"

definition alloc_out_free :: "'sl index_ops \<Rightarrow> nsaddr \<Rightarrow> paddr \<Rightarrow> int \<Rightarrow> int \<Rightarrow> 'sl kernel
    \<Rightarrow> (paddr errptr \<times> 'sl kernel) option" where
  "alloc_out_free ops ns p i retval k = do {
     n \<leftarrow> k_ns k ns;
     k1 \<leftarrow> alloc_unreserve ops p (nat (i + 1)) (nat (int (ns_level n) - i)) k;
     n1 \<leftarrow> k_ns k1 ns;
     k2 \<leftarrow> (if pid_allocated n1 = PIDNS_ADDING then ns_upd k1 ns (\<lambda>n. n\<lparr>last_pid := 0\<rparr>) else Some k1);
     Some (ERR_PTR retval, k2\<lparr>k_pids := (k_pids k2)(p := None)\<rparr>) }"

text \<open>\<^verbatim>\<open>kmem_cache_alloc\<close> of a pid with room for \<open>level + 1\<close> numbers, not initialised.\<close>

definition new_pid :: "nat \<Rightarrow> 'sl kernel \<Rightarrow> paddr \<times> 'sl kernel" where
  "new_pid level k = (k_brk k, k\<lparr>k_brk := Suc (k_brk k), k_pids := (k_pids k)(k_brk k \<mapsto>
     \<lparr>p_count = 0, p_level = level, p_tasks = (\<lambda>_. []), p_numbers = replicate (Suc level) None\<rparr>)\<rparr>)"

text \<open>From \<^verbatim>\<open>get_pid_ns(ns)\<close> to the end.\<close>

definition alloc_commit :: "'sl index_ops \<Rightarrow> kenv \<Rightarrow> nsaddr \<Rightarrow> paddr \<Rightarrow> int \<Rightarrow> 'sl kernel
    \<Rightarrow> (paddr errptr \<times> 'sl kernel) option" where
  "alloc_commit ops e ns p retval k = do {
     k1 \<leftarrow> get_pid_ns ns k;
     k2 \<leftarrow> pid_upd k1 p (\<lambda>P. P\<lparr>p_count := 1, p_tasks := (\<lambda>_. [])\<rparr>);
     n \<leftarrow> k_ns k2 ns;
     if pid_allocated n AND PIDNS_ADDING = 0
     then do {
       k3 \<leftarrow> put_pid_ns ops (Some ns) k2;
       alloc_out_free ops ns p (-1) retval k3 }
     else do {
       k3 \<leftarrow> alloc_publish ops e p (Suc (ns_level n)) k2;
       Some (ValidPtr p, k3) } }"

definition alloc_pid :: "'sl index_ops \<Rightarrow> kenv \<Rightarrow> nsaddr \<Rightarrow> 'sl kernel \<Rightarrow> (paddr errptr \<times> 'sl kernel) option" where
  "alloc_pid ops e ns k = do {
     n \<leftarrow> k_ns k ns;
     if op_header ops (pid_sl n) = None then Some (ERR_PTR (- EINVAL), k)
     else if \<not> kmem_cache_alloc_ok e (k_tick k) then Some (ERR_PTR (- ENOMEM), tick k)
     else do {
       let (p, k1) = new_pid (ns_level n) (tick k);
       (i, retval, k2) \<leftarrow> alloc_levels ops e p (Suc (ns_level n)) (Some ns) (- ENOMEM) k1;
       if 0 \<le> i then alloc_out_free ops ns p i retval k2
       else do {
         reaper \<leftarrow> is_child_reaper p k2;
         if reaper \<and> pid_ns_prepare_proc e (k_tick k2) ns \<noteq> 0
         then alloc_out_free ops ns p (-1) retval (tick k2)
         else alloc_commit ops e ns p retval (if reaper then tick k2 else k2) } } }"

definition disable_pid_allocation :: "nsaddr \<Rightarrow> 'sl kernel \<Rightarrow> 'sl kernel option" where
  "disable_pid_allocation ns k = ns_upd k ns (\<lambda>n. n\<lparr>pid_allocated := pid_allocated n AND NOT PIDNS_ADDING\<rparr>)"

end
