(* ===== verification/Kernel_Steps.thy ===== *)
theory Kernel_Steps
  imports Pid_Core
begin

text \<open>
  How a critical section changes the namespaces.  \<open>ns_step I A F C k k'\<close> says that \<open>k'\<close> is \<open>k\<close> but for
  the index, the cursor and the counter of the namespaces, that the indexes which satisfied the
  invariant still do, that the abstract map of the namespace at \<open>a\<close> has changed by \<open>F a\<close>, and its
  counter by \<open>C a\<close>.  The steps compose, so a loop over the levels of a pid is a list of numbers with
  the change that each of them makes.
\<close>

section \<open>Steps\<close>

definition ns_chg :: "('sl \<Rightarrow> bool) \<Rightarrow> ('sl \<Rightarrow> idx) \<Rightarrow> (idx \<Rightarrow> idx) \<Rightarrow> (32 word \<Rightarrow> 32 word)
    \<Rightarrow> 'sl pid_namespace \<Rightarrow> 'sl pid_namespace \<Rightarrow> bool" where
  "ns_chg I A f c n n' \<longleftrightarrow>
     n' = n\<lparr>pid_sl := pid_sl n', last_pid := last_pid n', pid_allocated := c (pid_allocated n)\<rparr> \<and>
     (I (pid_sl n) \<longrightarrow> I (pid_sl n') \<and> A (pid_sl n') = f (A (pid_sl n)))"

definition ns_step :: "('sl \<Rightarrow> bool) \<Rightarrow> ('sl \<Rightarrow> idx) \<Rightarrow> (nsaddr \<Rightarrow> idx \<Rightarrow> idx) \<Rightarrow> (nsaddr \<Rightarrow> 32 word \<Rightarrow> 32 word)
    \<Rightarrow> 'sl kernel \<Rightarrow> 'sl kernel \<Rightarrow> bool" where
  "ns_step I A F C k k' \<longleftrightarrow>
     (\<forall>a. rel_option (ns_chg I A (F a) (C a)) (k_ns k a) (k_ns k' a)) \<and>
     k' = k\<lparr>k_ns := k_ns k', k_tick := k_tick k'\<rparr>"

lemma ns_chg_id: "ns_chg I A (\<lambda>m. m) (\<lambda>c. c) n n"
  by (simp add: ns_chg_def)

lemma ns_chg_trans:
  assumes "ns_chg I A f c n1 n2" and "ns_chg I A g d n2 n3"
  shows "ns_chg I A (\<lambda>m. g (f m)) (\<lambda>x. d (c x)) n1 n3"
proof -
  have 1: "n2 = n1\<lparr>pid_sl := pid_sl n2, last_pid := last_pid n2, pid_allocated := c (pid_allocated n1)\<rparr>"
    and 2: "n3 = n2\<lparr>pid_sl := pid_sl n3, last_pid := last_pid n3, pid_allocated := d (pid_allocated n2)\<rparr>"
    using assms by (simp_all add: ns_chg_def)
  from 1 have "pid_allocated n2 = c (pid_allocated n1)" by (metis pid_namespace.select_convs(4) pid_namespace.surjective pid_namespace.update_convs(4))
  with 1 2 have "n3 = n1\<lparr>pid_sl := pid_sl n3, last_pid := last_pid n3, pid_allocated := d (c (pid_allocated n1))\<rparr>"
    by (cases n1; cases n2; cases n3) simp
  with assms show ?thesis by (simp add: ns_chg_def)
qed

lemma ns_step_refl: "ns_step I A (\<lambda>a m. m) (\<lambda>a c. c) k k"
  by (simp add: ns_step_def option.rel_refl ns_chg_id)

lemma ns_step_trans:
  assumes "ns_step I A F C k1 k2" and "ns_step I A G D k2 k3"
  shows "ns_step I A (\<lambda>a m. G a (F a m)) (\<lambda>a x. D a (C a x)) k1 k3"
proof -
  have "rel_option (ns_chg I A (\<lambda>m. G a (F a m)) (\<lambda>x. D a (C a x))) (k_ns k1 a) (k_ns k3 a)" for a
  proof -
    have 1: "rel_option (ns_chg I A (F a) (C a)) (k_ns k1 a) (k_ns k2 a)"
      and 2: "rel_option (ns_chg I A (G a) (D a)) (k_ns k2 a) (k_ns k3 a)"
      using assms by (simp_all add: ns_step_def)
    show ?thesis
      using 1 2 by (cases "k_ns k1 a"; cases "k_ns k2 a"; cases "k_ns k3 a") (auto intro: ns_chg_trans)
  qed
  moreover have "k3 = k1\<lparr>k_ns := k_ns k3, k_tick := k_tick k3\<rparr>"
    using assms by (cases k1; cases k2; cases k3) (simp add: ns_step_def)
  ultimately show ?thesis by (simp add: ns_step_def)
qed

text \<open>A step that writes one namespace.\<close>

lemma ns_step_one:
  assumes "k_ns k a = Some n"
    and "n' = n\<lparr>pid_sl := sl', last_pid := lp, pid_allocated := c (pid_allocated n)\<rparr>"
    and "I (pid_sl n) \<Longrightarrow> I sl' \<and> A sl' = f (A (pid_sl n))"
  shows "ns_step I A (\<lambda>b. if b = a then f else (\<lambda>m. m)) (\<lambda>b. if b = a then c else (\<lambda>x. x)) k
     (k\<lparr>k_ns := (k_ns k)(a \<mapsto> n'), k_tick := t\<rparr>)"
  using assms by (auto simp: ns_step_def ns_chg_def option.rel_refl)

text \<open>What is the same before and after a step.\<close>

lemma ns_step_at:
  assumes "ns_step I A F C k k'" and "k_ns k a = Some n"
  obtains n' where "k_ns k' a = Some n'" "ns_chg I A (F a) (C a) n n'"
proof -
  have "rel_option (ns_chg I A (F a) (C a)) (k_ns k a) (k_ns k' a)"
    using assms(1) by (simp add: ns_step_def)
  with assms(2) that show ?thesis by (cases "k_ns k' a") auto
qed

lemma ns_step_back:
  assumes "ns_step I A F C k k'" and "k_ns k' a = Some n'"
  obtains n where "k_ns k a = Some n" "ns_chg I A (F a) (C a) n n'"
proof -
  have "rel_option (ns_chg I A (F a) (C a)) (k_ns k a) (k_ns k' a)"
    using assms(1) by (simp add: ns_step_def)
  with assms(2) that show ?thesis by (cases "k_ns k a") auto
qed

lemma ns_chg_fields:
  assumes "ns_chg I A f c n n'"
  shows "kref n' = kref n" "ns_level n' = ns_level n" "ns_parent n' = ns_parent n"
    "child_reaper n' = child_reaper n" "pid_allocated n' = c (pid_allocated n)"
  using assms by (cases n; cases n'; simp add: ns_chg_def)+

lemma ns_step_counts:
  assumes "ns_step I A F C k k'" and "k_ns k a = Some n"
  shows "\<exists>n'. k_ns k' a = Some n' \<and> pid_allocated n' = C a (pid_allocated n) \<and> kref n' = kref n"
  using assms by (rule ns_step_at) (simp add: ns_chg_fields)

lemma ns_step_fields:
  assumes "ns_step I A F C k k'"
  shows "k_pids k' = k_pids k" "k_tasks k' = k_tasks k" "k_brk k' = k_brk k" "pid_max k' = pid_max k"
    "k_rcu k' = k_rcu k" "k_events k' = k_events k" "k_signals k' = k_signals k"
  using assms by (cases k; cases k'; simp add: ns_step_def)+

lemma ns_step_pids:
  assumes "ns_step I A F C k k'"
  shows "ns_step I A F C (k\<lparr>k_pids := X\<rparr>) (k'\<lparr>k_pids := X\<rparr>)"
  using assms by (cases k; cases k') (simp add: ns_step_def)

section \<open>Changes made number by number\<close>

text \<open>
  \<open>chg_all f us\<close> applies \<open>f u\<close> to the map of the namespace of \<open>u\<close>, for each \<open>u\<close> of the list in turn;
  \<open>cnt_all\<close> does the same to the counters.
\<close>

primrec chg_all :: "(int \<Rightarrow> idx \<Rightarrow> idx) \<Rightarrow> upid list \<Rightarrow> nsaddr \<Rightarrow> idx \<Rightarrow> idx" where
  "chg_all f [] a m = m"
| "chg_all f (u # us) a m = chg_all f us a (if u_ns u = a then f (u_nr u) m else m)"

primrec cnt_all :: "(32 word \<Rightarrow> 32 word) \<Rightarrow> upid list \<Rightarrow> nsaddr \<Rightarrow> 32 word \<Rightarrow> 32 word" where
  "cnt_all c [] a x = x"
| "cnt_all c (u # us) a x = cnt_all c us a (if u_ns u = a then c x else x)"

lemma chg_all_Cons: "chg_all f (u # us) = (\<lambda>a m. chg_all f us a ((if a = u_ns u then f (u_nr u) else (\<lambda>m. m)) m))"
  by (auto simp: fun_eq_iff)

lemma cnt_all_Cons: "cnt_all c (u # us) = (\<lambda>a m. cnt_all c us a ((if a = u_ns u then c else (\<lambda>x. x)) m))"
  by (auto simp: fun_eq_iff)

lemma chg_all_notin: "a \<notin> u_ns ` set us \<Longrightarrow> chg_all f us a m = m"
  by (induction us arbitrary: m) auto

lemma cnt_all_notin: "a \<notin> u_ns ` set us \<Longrightarrow> cnt_all c us a x = x"
  by (induction us arbitrary: x) auto

lemma chg_all_in:
  "distinct (map u_ns us) \<Longrightarrow> u \<in> set us \<Longrightarrow> chg_all f us (u_ns u) m = f (u_nr u) m"
proof (induction us arbitrary: m)
  case (Cons v us)
  show ?case
  proof (cases "u_ns v = u_ns u")
    case True
    with Cons.prems have "v = u" "u_ns u \<notin> u_ns ` set us" by force+
    then show ?thesis by (simp add: chg_all_notin)
  next
    case False
    with Cons show ?thesis by auto
  qed
qed simp

lemma cnt_all_in:
  "distinct (map u_ns us) \<Longrightarrow> u \<in> set us \<Longrightarrow> cnt_all c us (u_ns u) x = c x"
proof (induction us arbitrary: x)
  case (Cons v us)
  show ?case
  proof (cases "u_ns v = u_ns u")
    case True
    with Cons.prems have "v = u" "u_ns u \<notin> u_ns ` set us" by force+
    then show ?thesis by (simp add: cnt_all_notin)
  next
    case False
    with Cons show ?thesis by auto
  qed
qed simp

section \<open>The numbers of a pid\<close>

definition live :: "'sl kernel \<Rightarrow> nsaddr \<Rightarrow> 'sl pid_namespace \<Rightarrow> bool" where
  "live k a n \<longleftrightarrow> k_ns k a = Some n \<and> 0 < kref n"

text \<open>
  \<open>upath k a i us\<close>: the numbers \<open>us\<close> belong to the namespaces from \<open>a\<close> of level \<open>i\<close> upwards.
\<close>

fun upath :: "'sl kernel \<Rightarrow> nsaddr option \<Rightarrow> nat \<Rightarrow> upid list \<Rightarrow> bool" where
  "upath k a i [] = True"
| "upath k a i (u # us) = (a = Some (u_ns u) \<and> (\<exists>n. live k (u_ns u) n \<and> ns_level n = i \<and>
     (us \<noteq> [] \<longrightarrow> 0 < i) \<and> upath k (ns_parent n) (i - 1) us))"

lemma upath_level:
  "upath k a i us \<Longrightarrow> u \<in> set us \<Longrightarrow> \<exists>n. live k (u_ns u) n \<and> ns_level n \<le> i"
proof (induction us arbitrary: a i)
  case (Cons v us)
  from Cons.prems(1) obtain n where n: "live k (u_ns v) n" "ns_level n = i" "upath k (ns_parent n) (i - 1) us"
    by auto
  show ?case
  proof (cases "u = v")
    case False
    with Cons.prems(2) have "u \<in> set us" by simp
    from Cons.IH [OF n(3) this] show ?thesis by (meson diff_le_self order_trans)
  qed (use n in auto)
qed simp

lemma upath_distinct: "upath k a i us \<Longrightarrow> distinct (map u_ns us)"
proof (induction us arbitrary: a i)
  case (Cons v us)
  from Cons.prems obtain n where n: "live k (u_ns v) n" "ns_level n = i" "us \<noteq> [] \<longrightarrow> 0 < i"
    "upath k (ns_parent n) (i - 1) us" by auto
  have "u_ns u \<noteq> u_ns v" if "u \<in> set us" for u
  proof
    assume "u_ns u = u_ns v"
    with upath_level [OF n(4) that] n(1,2) have "i \<le> i - 1" by (auto simp: live_def)
    with n(3) that show False by auto
  qed
  with Cons.IH [OF n(4)] show ?case by force
qed simp

lemma upath_cong:
  assumes "\<And>a n. live k a n \<Longrightarrow> \<exists>n'. live k' a n' \<and> ns_level n' = ns_level n \<and> ns_parent n' = ns_parent n"
  shows "upath k a i us \<Longrightarrow> upath k' a i us"
proof (induction us arbitrary: a i)
  case (Cons v us)
  from Cons.prems obtain n where n: "live k (u_ns v) n" "ns_level n = i" "us \<noteq> [] \<longrightarrow> 0 < i"
    "upath k (ns_parent n) (i - 1) us" "a = Some (u_ns v)" by auto
  from assms [OF n(1)] n Cons.IH [OF n(4)] show ?case by auto
qed simp

lemma ns_step_live:
  assumes "ns_step I A F C k k'" and "live k a n"
  obtains n' where "live k' a n'" "ns_chg I A (F a) (C a) n n'"
proof -
  from assms(2) have "k_ns k a = Some n" "0 < kref n" by (simp_all add: live_def)
  from ns_step_at [OF assms(1) this(1)] obtain n' where "k_ns k' a = Some n'" "ns_chg I A (F a) (C a) n n'" .
  with \<open>0 < kref n\<close> that show ?thesis by (auto simp: live_def ns_chg_fields)
qed

lemma ns_step_upath: "ns_step I A F C k k' \<Longrightarrow> upath k a i us \<Longrightarrow> upath k' a i us"
  by (rule upath_cong) (auto elim!: ns_step_live simp: ns_chg_fields)

lemma ns_step_live_back:
  assumes "ns_step I A F C k k'" and "live k' a n'"
  obtains n where "live k a n" "ns_chg I A (F a) (C a) n n'"
proof -
  from assms(2) have "k_ns k' a = Some n'" "0 < kref n'" by (simp_all add: live_def)
  from ns_step_back [OF assms(1) this(1)] obtain n where "k_ns k a = Some n" "ns_chg I A (F a) (C a) n n'" .
  with \<open>0 < kref n'\<close> that show ?thesis by (auto simp: live_def ns_chg_fields)
qed

lemma ns_step_upath_back: "ns_step I A F C k k' \<Longrightarrow> upath k' a i us \<Longrightarrow> upath k a i us"
  by (rule upath_cong) (auto elim!: ns_step_live_back simp: ns_chg_fields)

text \<open>Well-formed namespaces: the index of a live one is sound, and its parent is live and one level up.\<close>

definition ns_wf :: "('sl \<Rightarrow> bool) \<Rightarrow> 'sl kernel \<Rightarrow> bool" where
  "ns_wf I k \<longleftrightarrow> (\<forall>a n. live k a n \<longrightarrow> I (pid_sl n) \<and>
     (case ns_parent n of None \<Rightarrow> ns_level n = 0
      | Some b \<Rightarrow> \<exists>m. live k b m \<and> ns_level n = Suc (ns_level m)))"

lemma ns_step_wf:
  assumes st: "ns_step I A F C k k'" and wf: "ns_wf I k"
  shows "ns_wf I k'"
  unfolding ns_wf_def
proof (intro allI impI)
  fix a n' assume "live k' a n'"
  with st obtain n where n: "live k a n" "ns_chg I A (F a) (C a) n n'" by (rule ns_step_live_back)
  have "I (pid_sl n')" using n wf by (auto simp: ns_wf_def ns_chg_def)
  moreover have "case ns_parent n of None \<Rightarrow> ns_level n = 0
      | Some b \<Rightarrow> \<exists>m. live k' b m \<and> ns_level n = Suc (ns_level m)"
  proof (cases "ns_parent n")
    case (Some b)
    then obtain m where "live k b m" "ns_level n = Suc (ns_level m)" using n(1) wf by (fastforce simp: ns_wf_def)
    with Some st show ?thesis by (auto elim!: ns_step_live simp: ns_chg_fields)
  qed (use n(1) wf in \<open>fastforce simp: ns_wf_def\<close>)
  ultimately show "I (pid_sl n') \<and> (case ns_parent n' of None \<Rightarrow> ns_level n' = 0
      | Some b \<Rightarrow> \<exists>m. live k' b m \<and> ns_level n' = Suc (ns_level m))"
    by (simp add: ns_chg_fields [OF n(2)] cong: option.case_cong)
qed

lemma live_pids [simp]: "live (k\<lparr>k_pids := X\<rparr>) = live k"
  by (simp add: live_def fun_eq_iff)

lemma ns_wf_pids [simp]: "ns_wf I (k\<lparr>k_pids := X\<rparr>) = ns_wf I k"
  by (simp add: ns_wf_def cong: option.case_cong)

lemma upath_pids [simp]: "upath (k\<lparr>k_pids := X\<rparr>) a i us = upath k a i us"
  by (induction us arbitrary: a i) auto

lemma ns_step_level:
  assumes "ns_step I A F C k k'" and "live k a n"
  shows "\<exists>n'. live k' a n' \<and> ns_level n' = ns_level n \<and> ns_parent n' = ns_parent n"
  using ns_step_live [OF assms] ns_chg_fields(2,3) by metis

text \<open>The map of a live namespace after a step.\<close>

lemma ns_step_map:
  assumes "ns_step I A F C k k'" and "ns_wf I k" and "live k a n"
  shows "\<exists>n'. live k' a n' \<and> A (pid_sl n') = F a (A (pid_sl n)) \<and> pid_allocated n' = C a (pid_allocated n)"
proof -
  obtain n' where n': "live k' a n'" "ns_chg I A (F a) (C a) n n'" using ns_step_live [OF assms(1,3)] .
  moreover have "I (pid_sl n)" using assms(2,3) by (simp add: ns_wf_def)
  ultimately have "A (pid_sl n') = F a (A (pid_sl n))" by (simp add: ns_chg_def)
  with n'(1) ns_chg_fields(5) [OF n'(2)] show ?thesis by blast
qed

lemma ns_step_events:
  assumes "ns_step I A F C k k'"
  shows "ns_step I A F C (k\<lparr>k_events := X\<rparr>) (k'\<lparr>k_events := X\<rparr>)"
  using assms by (cases k; cases k') (simp add: ns_step_def)

lemma live_events [simp]: "live (k\<lparr>k_events := X\<rparr>) = live k"
  by (simp add: live_def fun_eq_iff)

lemma ns_wf_events [simp]: "ns_wf I (k\<lparr>k_events := X\<rparr>) = ns_wf I k"
  by (simp add: ns_wf_def cong: option.case_cong)

end
