(* ===== verification/Pid_Alloc.thy ===== *)
theory Pid_Alloc
  imports Kernel_Steps
begin

text \<open>
  Correctness of the phases of \<^verbatim>\<open>alloc_pid\<close> and of \<^verbatim>\<open>free_pid\<close> for any index that meets the contract
  \<open>pid_index\<close>: the scan for a free number, the reservation on every level, the publication of the
  pid, and the two loops that take the numbers out again.
\<close>

section \<open>Reserving a number\<close>

text \<open>The first number from \<open>lo\<close> on below \<open>hi\<close> at which a lookup finds nothing.\<close>

definition first_free :: "idx \<Rightarrow> int \<Rightarrow> int \<Rightarrow> int option" where
  "first_free m lo hi = List.find (\<lambda>j. idx_get m j = None) [lo..hi - 1]"

lemma first_free_rec:
  "first_free m lo hi = (if lo < hi then if idx_get m lo = None then Some lo else first_free m (lo + 1) hi else None)"
  by (simp add: first_free_def upto.simps [of lo])

lemma first_free_Some:
  "first_free m lo hi = Some nr \<longleftrightarrow> lo \<le> nr \<and> nr < hi \<and> idx_get m nr = None \<and> (\<forall>j. lo \<le> j \<and> j < nr \<longrightarrow> idx_get m j \<noteq> None)"
proof (induction "nat (hi - lo)" arbitrary: lo)
  case 0
  then show ?case by (subst first_free_rec) auto
next
  case (Suc x)
  then have "first_free m (lo + 1) hi = Some nr \<longleftrightarrow> lo + 1 \<le> nr \<and> nr < hi \<and> idx_get m nr = None \<and>
      (\<forall>j. lo + 1 \<le> j \<and> j < nr \<longrightarrow> idx_get m j \<noteq> None)" by simp
  moreover have "lo < hi" using Suc.hyps(2) by simp
  moreover have "(lo \<le> j \<and> j < nr) = (lo + 1 \<le> j \<and> j < nr \<or> j = lo \<and> lo < nr)" for j by auto
  ultimately show ?case
    by (subst first_free_rec) (cases "idx_get m lo = None"; cases "nr = lo"; auto)
qed

lemma first_free_None: "first_free m lo hi = None \<longleftrightarrow> (\<forall>j. lo \<le> j \<and> j < hi \<longrightarrow> idx_get m j \<noteq> None)"
  by (auto simp: first_free_def find_None_iff)

text \<open>Enough memory: every allocation of a node succeeds.\<close>

definition mem_ok :: "kenv \<Rightarrow> bool" where
  "mem_ok e \<longleftrightarrow> (\<forall>t g. kzalloc_ok (e_draw e t) g \<and> kcalloc_ok (e_draw e t) g)"

text \<open>The state after a namespace has got a new index and cursor.\<close>

definition set_index :: "nsaddr \<Rightarrow> 'sl pid_namespace \<Rightarrow> 'sl \<Rightarrow> int \<Rightarrow> nat \<Rightarrow> 'sl kernel \<Rightarrow> 'sl kernel" where
  "set_index a n sl lp t k = k\<lparr>k_ns := (k_ns k)(a \<mapsto> n\<lparr>pid_sl := sl, last_pid := lp\<rparr>), k_tick := t\<rparr>"

lemma set_index_self: "k_ns k a = Some n \<Longrightarrow> set_index a n (pid_sl n) (last_pid n) (k_tick k) k = k"
  by (simp add: set_index_def map_upd_triv)

lemma set_index_twice [simp]:
  "set_index a n sl' lp' t' (set_index a m sl lp t k) = set_index a n sl' lp' t' k"
  "set_index a (n\<lparr>pid_sl := sl\<rparr>) = set_index a n" "set_index a (n\<lparr>last_pid := lp\<rparr>) = set_index a n"
  by (simp_all add: set_index_def fun_eq_iff)

lemma set_index_ns: "k_ns (set_index a n sl lp t k) a = Some (n\<lparr>pid_sl := sl, last_pid := lp\<rparr>)"
  by (simp add: set_index_def)

text \<open>What a scan may return, for the map \<open>m\<close> of the namespace before it.\<close>

definition scan_result :: "idx \<Rightarrow> int \<Rightarrow> int \<Rightarrow> int \<Rightarrow> int \<Rightarrow> int \<Rightarrow> idx \<Rightarrow> int \<Rightarrow> bool" where
  "scan_result m lo hi lp nr rv m' lp' \<longleftrightarrow>
     nr = -1 \<and> m' = m \<and> lp' = lp \<or>
     lo \<le> nr \<and> nr < hi \<and> idx_get m nr = None \<and> rv = 0 \<and> m' = m(nr \<mapsto> None) \<and> lp' = nr"

definition scan_exact :: "idx \<Rightarrow> int \<Rightarrow> int \<Rightarrow> int \<Rightarrow> bool" where
  "scan_exact m lo hi nr \<longleftrightarrow> nr = (case first_free m lo hi of None \<Rightarrow> -1 | Some j \<Rightarrow> j)"

lemma scan_result_mono:
  "scan_result m lo hi lp nr rv m' lp' \<Longrightarrow> lo' \<le> lo \<Longrightarrow> hi \<le> hi' \<Longrightarrow> scan_result m lo' hi' lp nr rv m' lp'"
  by (auto simp: scan_result_def)

text \<open>The number that a namespace hands out next: the scan wraps around at the maximum.\<close>

definition start_pid :: "int \<Rightarrow> int \<Rightarrow> int" where
  "start_pid lp pmax = (if lp + 1 < 1 \<or> lp + 1 \<ge> pmax then 1 else lp + 1)"

definition next_nr :: "idx \<Rightarrow> int \<Rightarrow> int \<Rightarrow> int option" where
  "next_nr m lp pmax = (case first_free m (start_pid lp pmax) pmax of Some j \<Rightarrow> Some j
     | None \<Rightarrow> first_free m 1 (start_pid lp pmax))"

lemma next_nr_range: "next_nr m lp pmax = Some j \<Longrightarrow> 1 \<le> j \<and> j < pmax \<and> idx_get m j = None"
  by (fastforce simp: next_nr_def start_pid_def first_free_Some split: option.splits if_splits)

lemma next_nr_None: "next_nr m lp pmax = None \<longleftrightarrow> (\<forall>j. 1 \<le> j \<and> j < pmax \<longrightarrow> idx_get m j \<noteq> None)"
proof
  assume l: "next_nr m lp pmax = None"
  have s: "1 \<le> start_pid lp pmax" by (simp add: start_pid_def)
  show "\<forall>j. 1 \<le> j \<and> j < pmax \<longrightarrow> idx_get m j \<noteq> None"
  proof (intro allI impI)
    fix j assume "1 \<le> j \<and> j < pmax"
    with l show "idx_get m j \<noteq> None"
      by (cases "j < start_pid lp pmax") (auto simp: next_nr_def first_free_None split: option.splits)
  qed
next
  assume "\<forall>j. 1 \<le> j \<and> j < pmax \<longrightarrow> idx_get m j \<noteq> None"
  then show "next_nr m lp pmax = None" using next_nr_range [of m lp pmax] by (cases "next_nr m lp pmax") auto
qed

lemma set_index_step:
  assumes "k_ns k a = Some n" and "I sl'" and "A sl' = f (A (pid_sl n))"
  shows "ns_step I A (\<lambda>b. if b = a then f else (\<lambda>m. m)) (\<lambda>_ c. c) k (set_index a n sl' lp' t' k)"
proof -
  have "(\<lambda>b. if b = a then (\<lambda>c. c) else (\<lambda>x. x)) = (\<lambda>(_ :: nsaddr) (c :: 32 word). c)" by auto
  then show ?thesis
    using ns_step_one [where I = I and A = A and k = k and a = a and n = n and sl' = sl' and lp = lp'
        and c = "\<lambda>c. c" and f = f and t = t', OF assms(1) refl] assms(2,3)
    by (simp add: set_index_def)
qed

text \<open>
  The loop over the levels.  It ends at level \<open>j\<close>, -1 if all went well; \<open>us\<close> are the numbers it has
  reserved, from the namespace of the new pid upwards, and they are the upper elements of the array
  \<^verbatim>\<open>numbers\<close>.
\<close>

abbreviation reserve_all :: "upid list \<Rightarrow> nsaddr \<Rightarrow> idx \<Rightarrow> idx" where
  "reserve_all \<equiv> chg_all (\<lambda>nr m. m(nr \<mapsto> None))"

definition level_full :: "('sl \<Rightarrow> idx) \<Rightarrow> 'sl kernel \<Rightarrow> nsaddr \<Rightarrow> nat \<Rightarrow> upid list \<Rightarrow> bool" where
  "level_full A k a i us \<longleftrightarrow> (\<exists>b m. live k b m \<and> upath k (Some a) i (us @ [\<lparr>u_nr = 0, u_ns = b\<rparr>]) \<and>
     (\<forall>nr. 1 \<le> nr \<and> nr < pid_max k \<longrightarrow> idx_get (A (pid_sl m)) nr \<noteq> None))"

definition levels_result :: "kenv \<Rightarrow> ('sl \<Rightarrow> bool) \<Rightarrow> ('sl \<Rightarrow> idx) \<Rightarrow> 'sl kernel \<Rightarrow> nsaddr \<Rightarrow> nat \<Rightarrow> paddr \<Rightarrow> pid
    \<Rightarrow> int \<Rightarrow> int \<Rightarrow> upid list \<Rightarrow> 'sl kernel \<Rightarrow> bool" where
  "levels_result e I A k a i p P j rv us k' \<longleftrightarrow>
     -1 \<le> j \<and> j \<le> int i \<and> int (length us) = int i - j \<and> rv = (if j = -1 then 0 else -1) \<and>
     upath k (Some a) i us \<and> (mem_ok e \<and> j \<noteq> -1 \<longrightarrow> level_full A k a i us) \<and>
     (\<forall>u \<in> set us. 1 \<le> u_nr u \<and> u_nr u < pid_max k \<and>
        (\<exists>m. live k (u_ns u) m \<and> idx_get (A (pid_sl m)) (u_nr u) = None)) \<and>
     ns_step I A (reserve_all us) (\<lambda>_ c. c)
       (k\<lparr>k_pids := (k_pids k)(p \<mapsto> P\<lparr>p_numbers :=
          take (nat (j + 1)) (p_numbers P) @ map Some (rev us) @ drop (Suc i) (p_numbers P)\<rparr>)\<rparr>) k'"

lemma levels_result_fail:
  assumes "ns_step I A (\<lambda>_ m. m) (\<lambda>_ c. c) k k'" and "k_pids k p = Some P" and "i < length (p_numbers P)"
    and "mem_ok e \<longrightarrow> level_full A k a i []"
  shows "levels_result e I A k a i p P (int i) (-1) [] k'"
proof -
  have "take (Suc i) (p_numbers P) @ drop (Suc i) (p_numbers P) = p_numbers P" by simp
  moreover have "k\<lparr>k_pids := (k_pids k)(p \<mapsto> P)\<rparr> = k" using assms(2) by (simp add: map_upd_triv)
  moreover have "chg_all f [] = (\<lambda>_ m. m)" for f by (simp add: fun_eq_iff)
  ultimately show ?thesis using assms(1,4) by (simp add: levels_result_def nat_add_distrib)
qed

lemma levels_result_Cons:
  assumes r: "levels_result e I A k2 b i p (P\<lparr>p_numbers := (p_numbers P)[Suc i := Some u]\<rparr>) j rv us k'"
    and st: "ns_step I A (reserve_all [u]) (\<lambda>_ c. c)
         (k\<lparr>k_pids := (k_pids k)(p \<mapsto> P\<lparr>p_numbers := (p_numbers P)[Suc i := Some u]\<rparr>)\<rparr>) k2"
    and n: "live k (u_ns u) n" "ns_level n = Suc i" "ns_parent n = Some b" "ns_wf I k"
    and u: "1 \<le> u_nr u" "u_nr u < pid_max k" "idx_get (A (pid_sl n)) (u_nr u) = None"
    and len: "Suc i < length (p_numbers P)"
  shows "levels_result e I A k (u_ns u) (Suc i) p P j rv (u # us) k'"
proof -
  let ?P = "P\<lparr>p_numbers := (p_numbers P)[Suc i := Some u]\<rparr>"
  let ?Q = "P\<lparr>p_numbers := take (nat (j + 1)) (p_numbers P) @ map Some (rev (u # us)) @ drop (Suc (Suc i)) (p_numbers P)\<rparr>"
  have j: "-1 \<le> j" "j \<le> int i" "int (length us) = int i - j" "rv = (if j = -1 then 0 else -1)"
    and up: "upath k2 (Some b) i us"
    and fr: "\<forall>v \<in> set us. 1 \<le> u_nr v \<and> u_nr v < pid_max k2 \<and>
        (\<exists>m. live k2 (u_ns v) m \<and> idx_get (A (pid_sl m)) (u_nr v) = None)"
    using r by (simp_all add: levels_result_def)
  have pm: "pid_max k2 = pid_max k" and kp: "k_pids k2 = (k_pids k)(p \<mapsto> ?P)"
    using ns_step_fields(1,4) [OF st] by simp_all
  have anc: "upath k (Some b) i vs" if "upath k2 (Some b) i vs" for vs
    using ns_step_upath_back [OF st that] by simp
  note up' = anc [OF up]
  have keep: "\<exists>m0. live k a m0 \<and> A (pid_sl m0) = A (pid_sl m)" if "live k2 a m" "a \<noteq> u_ns u" for a m
  proof -
    from ns_step_live_back [OF st that(1)] obtain m0 where
      "live k a m0" "ns_chg I A (reserve_all [u] a) (\<lambda>c. c) m0 m" by auto
    moreover from this(1) n(4) have "I (pid_sl m0)" by (simp add: ns_wf_def)
    ultimately show ?thesis using that(2) by (auto simp: ns_chg_def)
  qed
  have lower: "u_ns v \<noteq> u_ns u" if "upath k (Some b) i vs" "v \<in> set vs" for v vs
    using upath_level [OF that] n(1,2) by (auto simp: live_def)
  have free: "\<exists>m. live k (u_ns v) m \<and> idx_get (A (pid_sl m)) (u_nr v) = None" if v: "v \<in> set us" for v
  proof -
    obtain m where m: "live k2 (u_ns v) m" "idx_get (A (pid_sl m)) (u_nr v) = None" using fr v by blast
    from keep [OF m(1) lower [OF up' v]] m(2) show ?thesis by auto
  qed
  have full: "level_full A k (u_ns u) (Suc i) (u # us)" if "level_full A k2 b i us"
  proof -
    from that obtain c m where m: "live k2 c m" "upath k2 (Some b) i (us @ [\<lparr>u_nr = 0, u_ns = c\<rparr>])"
      "\<forall>nr. 1 \<le> nr \<and> nr < pid_max k \<longrightarrow> idx_get (A (pid_sl m)) nr \<noteq> None"
      by (auto simp: level_full_def pm)
    note up2 = anc [OF m(2)]
    have "c \<noteq> u_ns u" using lower [OF up2, of "\<lparr>u_nr = 0, u_ns = c\<rparr>"] by simp
    from keep [OF m(1) this] obtain m0 where m0: "live k c m0" "A (pid_sl m0) = A (pid_sl m)" by blast
    have "upath k (Some (u_ns u)) (Suc i) ((u # us) @ [\<lparr>u_nr = 0, u_ns = c\<rparr>])" using n(1-3) up2 by auto
    with m0 m(3) show ?thesis unfolding level_full_def by metis
  qed
  have "(p_numbers P)[Suc i := Some u] = take (Suc i) (p_numbers P) @ Some u # drop (Suc (Suc i)) (p_numbers P)"
    using len by (simp add: upd_conv_take_nth_drop)
  moreover have "nat (j + 1) \<le> Suc i" using j by simp
  ultimately have Q: "?P\<lparr>p_numbers := take (nat (j + 1)) (p_numbers ?P) @ map Some (rev us) @ drop (Suc i) (p_numbers ?P)\<rparr> = ?Q"
    using len by (simp add: min_def)
  have "ns_step I A (reserve_all us) (\<lambda>_ c. c) (k2\<lparr>k_pids := (k_pids k2)(p \<mapsto> ?Q)\<rparr>) k'"
    using r unfolding levels_result_def Q by simp
  then have "ns_step I A (reserve_all us) (\<lambda>_ c. c) (k2\<lparr>k_pids := (k_pids k)(p \<mapsto> ?Q)\<rparr>) k'"
    by (simp add: kp)
  moreover have "ns_step I A (reserve_all [u]) (\<lambda>_ c. c)
      (k\<lparr>k_pids := (k_pids k)(p \<mapsto> ?Q)\<rparr>) (k2\<lparr>k_pids := (k_pids k)(p \<mapsto> ?Q)\<rparr>)"
    using ns_step_pids [OF st, of "(k_pids k)(p \<mapsto> ?Q)"] by simp
  ultimately have "ns_step I A (\<lambda>a m. reserve_all us a (reserve_all [u] a m)) (\<lambda>_ c. c)
      (k\<lparr>k_pids := (k_pids k)(p \<mapsto> ?Q)\<rparr>) k'" using ns_step_trans by blast
  moreover have "(\<lambda>a m. reserve_all us a (reserve_all [u] a m)) = reserve_all (u # us)" by (simp add: fun_eq_iff)
  ultimately have "ns_step I A (reserve_all (u # us)) (\<lambda>_ c. c) (k\<lparr>k_pids := (k_pids k)(p \<mapsto> ?Q)\<rparr>) k'" by simp
  moreover have "upath k (Some (u_ns u)) (Suc i) (u # us)" using n up' by auto
  moreover have "mem_ok e \<and> j \<noteq> -1 \<longrightarrow> level_full A k (u_ns u) (Suc i) (u # us)"
    using r full by (auto simp: levels_result_def)
  ultimately show ?thesis using j u n(1) fr pm free by (simp add: levels_result_def) blast
qed

text \<open>The counter after \<^verbatim>\<open>free_pid\<close> and what it tells the rest of the kernel.\<close>

definition free_count :: "32 word \<Rightarrow> 32 word" where
  "free_count c = (if c - 1 = PIDNS_ADDING then 0 else c - 1)"

definition free_events :: "'sl kernel \<Rightarrow> upid \<Rightarrow> event list" where
  "free_events k u = (case k_ns k (u_ns u) of None \<Rightarrow> []
     | Some n \<Rightarrow> (let c = pid_allocated n - 1 in
         if c = 2 \<or> c = 1 then [WakeUpProcess (child_reaper n)]
         else if c = PIDNS_ADDING then (if child_reaper n \<noteq> None then [WarnOn] else []) @ [ScheduleProcWork (u_ns u)]
         else if c = 0 then [ScheduleProcWork (u_ns u)] else []))"

lemma PIDNS_ADDING_neq [simp]: "PIDNS_ADDING \<noteq> 0" "PIDNS_ADDING \<noteq> 1" "PIDNS_ADDING \<noteq> 2"
  by (simp_all add: PIDNS_ADDING_def)

lemma free_account_ok:
  assumes "k_ns k (u_ns u) = Some n"
  shows "free_pid_account (u_ns u) k = Some (k\<lparr>k_ns := (k_ns k)(u_ns u \<mapsto> n\<lparr>pid_allocated := free_count (pid_allocated n)\<rparr>),
     k_events := k_events k @ free_events k u\<rparr>)"
  using assms
  by (simp add: free_pid_account_def free_count_def free_events_def ns_upd_def log_event_def Let_def)

lemma drop_number: "drop j (p_numbers P) = x # xs \<Longrightarrow> pid_number P j = x \<and> drop (Suc j) (p_numbers P) = xs"
  by (cases "j < length (p_numbers P)") (auto simp: pid_number_def Cons_nth_drop_Suc [symmetric])

lemma take_number:
  assumes "take (length (u # us)) (p_numbers P) = map Some (rev (u # us))"
  shows "take (length us) (p_numbers P) = map Some (rev us)" and "pid_number P (length us) = Some u"
proof -
  have len: "length us < length (p_numbers P)" using assms [THEN arg_cong, of length] by simp
  then have "take (length us) (p_numbers P) @ [p_numbers P ! length us] = map Some (rev us) @ [Some u]"
    using assms by (simp add: take_Suc_conv_app_nth)
  then show "take (length us) (p_numbers P) = map Some (rev us)" and "pid_number P (length us) = Some u"
    using len by (simp_all add: pid_number_def)
qed

text \<open>The client of the interface: what follows holds for every index.\<close>

locale pid_kernel = pid_index

context pid_kernel
begin

lemma alloc_scan_ok:
  assumes good: "\<forall>t. good (e_draw e t)" and n: "k_ns k a = Some n" "inv (pid_sl n)" "0 \<le> lo"
  shows "\<exists>nr rv sl' lp' t'. alloc_scan ops e a hi lo rv0 k = Some (nr, rv, set_index a n sl' lp' t' k) \<and>
     inv sl' \<and> scan_result (abs (pid_sl n)) lo hi (last_pid n) nr rv (abs sl') lp' \<and>
     (mem_ok e \<longrightarrow> scan_exact (abs (pid_sl n)) lo hi nr \<and> (nr = -1 \<longrightarrow> rv = rv0))"
  using n
proof (induction "nat (hi - lo)" arbitrary: lo rv0 k n)
  case 0
  then have "\<not> lo < hi" by simp
  then have "alloc_scan ops e a hi lo rv0 k = Some (-1, rv0, set_index a n (pid_sl n) (last_pid n) (k_tick k) k)"
    using 0 by (subst alloc_scan.simps) (simp add: set_index_self)
  with \<open>\<not> lo < hi\<close> 0 show ?case
    by (auto simp: scan_result_def scan_exact_def first_free_rec [of _ lo] intro!: exI)
next
  case (Suc x)
  then have lh: "lo < hi" "x = nat (hi - (lo + 1))" by auto
  have look: "op_lookup ops (pid_sl n) lo = Some (idx_get (abs (pid_sl n)) lo)"
    by (rule lookup [OF Suc.prems(2)])
  show ?case
  proof (cases "idx_get (abs (pid_sl n)) lo")
    case (Some p)
    then have eq: "alloc_scan ops e a hi lo rv0 k = alloc_scan ops e a hi (lo + 1) rv0 k"
      using lh Suc.prems look by (subst alloc_scan.simps) simp
    have "first_free (abs (pid_sl n)) lo hi = first_free (abs (pid_sl n)) (lo + 1) hi"
      using Some lh by (subst first_free_rec) simp
    then have "scan_exact (abs (pid_sl n)) lo hi = scan_exact (abs (pid_sl n)) (lo + 1) hi"
      by (simp add: scan_exact_def fun_eq_iff)
    with Suc.hyps(1) [OF lh(2) Suc.prems(1,2), of rv0] Suc.prems(3) show ?thesis
      unfolding eq by (fastforce elim: scan_result_mono)
  next
    case None
    let ?d = "e_draw e (k_tick k)"
    obtain r s' where ins: "op_insert ops ?d (pid_sl n) lo None GFP_ATOMIC = Some (r, s')" "inv s'"
        "r = 0 \<and> abs s' = (abs (pid_sl n))(lo \<mapsto> None)
         \<or> r = - ENOMEM \<and> lo \<notin> dom (abs (pid_sl n)) \<and> abs s' = abs (pid_sl n)"
      using insert [OF Suc.prems(2), of ?d lo None GFP_ATOMIC] good by blast
    show ?thesis
    proof (cases "r = 0")
      case True
      then have "alloc_scan ops e a hi lo rv0 k = Some (lo, 0, set_index a n s' lo (Suc (k_tick k)) k)"
        using lh Suc.prems look None ins by (subst alloc_scan.simps) (simp add: set_index_def tick_def)
      moreover have "scan_exact (abs (pid_sl n)) lo hi lo"
        using None lh by (simp add: scan_exact_def first_free_rec [of _ lo])
      moreover have "scan_result (abs (pid_sl n)) lo hi (last_pid n) lo 0 (abs s') lo"
        using None lh ins True by (auto simp: scan_result_def)
      moreover have "lo \<noteq> -1" using Suc.prems(3) by simp
      ultimately show ?thesis using ins(2) by blast
    next
      case False
      let ?n = "n\<lparr>pid_sl := s', last_pid := last_pid n\<rparr>" and ?k = "set_index a n s' (last_pid n) (Suc (k_tick k)) k"
      have eq: "alloc_scan ops e a hi lo rv0 k = alloc_scan ops e a hi (lo + 1) r ?k"
        using lh Suc.prems look None ins False
        by (subst alloc_scan.simps) (simp add: set_index_def tick_def)
      have abs: "abs s' = abs (pid_sl n)" using ins False by simp
      have "\<not> mem_ok e"
        using insert_enough [OF Suc.prems(2), of ?d lo None GFP_ATOMIC r s'] good ins(1) False
        by (auto simp: mem_ok_def)
      moreover obtain nr rv sl' lp' t' where "alloc_scan ops e a hi (lo + 1) r ?k = Some (nr, rv, set_index a ?n sl' lp' t' ?k)"
         "inv sl'" "scan_result (abs s') (lo + 1) hi (last_pid n) nr rv (abs sl') lp'"
        using Suc.hyps(1) [OF lh(2), of ?k ?n r] ins(2) Suc.prems(3) by (auto simp: set_index_ns)
      ultimately show ?thesis unfolding eq abs set_index_twice
        by (fastforce elim: scan_result_mono)
    qed
  qed
qed

lemma alloc_nr_ok:
  assumes good: "\<forall>t. good (e_draw e t)" and n: "k_ns k a = Some n" "inv (pid_sl n)"
  shows "\<exists>nr rv sl' lp' t'. alloc_nr ops e a rv0 k = Some (nr, rv, set_index a n sl' lp' t' k) \<and>
     inv sl' \<and> scan_result (abs (pid_sl n)) 1 (pid_max k) (last_pid n) nr rv (abs sl') lp' \<and>
     (mem_ok e \<longrightarrow> nr = (case next_nr (abs (pid_sl n)) (last_pid n) (pid_max k) of None \<Rightarrow> -1 | Some j \<Rightarrow> j))"
proof -
  define st where "st = start_pid (last_pid n) (pid_max k)"
  have st: "1 \<le> st" "st < pid_max k \<or> st = 1" by (auto simp: st_def start_pid_def)
  obtain nr rv sl1 lp1 t1 where 1: "alloc_scan ops e a (pid_max k) st rv0 k = Some (nr, rv, set_index a n sl1 lp1 t1 k)"
     "inv sl1" "scan_result (abs (pid_sl n)) st (pid_max k) (last_pid n) nr rv (abs sl1) lp1"
     "mem_ok e \<longrightarrow> scan_exact (abs (pid_sl n)) st (pid_max k) nr"
    using alloc_scan_ok [OF good n, of st "pid_max k" rv0] st by auto
  have an: "alloc_nr ops e a rv0 k = (if nr < 0 then alloc_scan ops e a st 1 rv (set_index a n sl1 lp1 t1 k)
      else Some (nr, rv, set_index a n sl1 lp1 t1 k))"
    using 1(1) n(1) by (simp add: alloc_nr_def st_def start_pid_def)
  show ?thesis
  proof (cases "nr < 0")
    case False
    then have "scan_result (abs (pid_sl n)) 1 (pid_max k) (last_pid n) nr rv (abs sl1) lp1"
      using 1(3) st(1) by (auto elim: scan_result_mono)
    moreover have "mem_ok e \<longrightarrow> next_nr (abs (pid_sl n)) (last_pid n) (pid_max k) = Some nr"
      using 1(4) False by (auto simp: scan_exact_def next_nr_def st_def split: option.splits)
    ultimately show ?thesis using an False 1(2) by (auto intro!: exI)
  next
    case True
    with 1(3) st have 2: "abs sl1 = abs (pid_sl n)" "lp1 = last_pid n" "nr = -1" by (auto simp: scan_result_def)
    let ?n = "n\<lparr>pid_sl := sl1, last_pid := lp1\<rparr>"
    obtain nr' rv' sl' lp' t' where 3: "alloc_scan ops e a st 1 rv (set_index a n sl1 lp1 t1 k)
        = Some (nr', rv', set_index a n sl' lp' t' k)" "inv sl'"
       "scan_result (abs (pid_sl n)) 1 st (last_pid n) nr' rv' (abs sl') lp'"
       "mem_ok e \<longrightarrow> scan_exact (abs (pid_sl n)) 1 st nr'"
      using alloc_scan_ok [OF good, of "set_index a n sl1 lp1 t1 k" a ?n 1 st rv] 1(2) 2
      by (auto simp: set_index_ns set_index_twice)
    have "scan_result (abs (pid_sl n)) 1 (pid_max k) (last_pid n) nr' rv' (abs sl') lp'"
      using 3(3) st by (auto simp: scan_result_def)
    moreover have "mem_ok e \<longrightarrow> nr' = (case next_nr (abs (pid_sl n)) (last_pid n) (pid_max k) of None \<Rightarrow> -1 | Some j \<Rightarrow> j)"
    proof
      assume m: "mem_ok e"
      with 1(4) 2(3) have "first_free (abs (pid_sl n)) st (pid_max k) = None"
        using st(1) first_free_Some [of "abs (pid_sl n)" st "pid_max k" "-1"]
        by (auto simp: scan_exact_def split: option.splits)
      with m 3(4) show "nr' = (case next_nr (abs (pid_sl n)) (last_pid n) (pid_max k) of None \<Rightarrow> -1 | Some j \<Rightarrow> j)"
        by (simp add: scan_exact_def next_nr_def st_def)
    qed
    ultimately show ?thesis using an True 3(1,2) by auto
  qed
qed

text \<open>One round of the loop over the levels: it fails, or it reserves a number and goes on.\<close>

lemma alloc_levels_round:
  assumes good: "\<forall>t. good (e_draw e t)" and wf: "ns_wf inv k" and n: "live k a n"
    and P: "k_pids k p = Some P" "i < length (p_numbers P)"
  shows "(\<exists>k'. alloc_levels ops e p (Suc i) (Some a) rv0 k = Some (int i, -1, k') \<and>
       ns_step inv abs (\<lambda>_ m. m) (\<lambda>_ c. c) k k' \<and>
       (mem_ok e \<longrightarrow> (\<forall>nr. 1 \<le> nr \<and> nr < pid_max k \<longrightarrow> idx_get (abs (pid_sl n)) nr \<noteq> None))) \<or>
     (\<exists>u k'. alloc_levels ops e p (Suc i) (Some a) rv0 k = alloc_levels ops e p i (ns_parent n) 0 k' \<and>
       u_ns u = a \<and> 1 \<le> u_nr u \<and> u_nr u < pid_max k \<and> idx_get (abs (pid_sl n)) (u_nr u) = None \<and>
       ns_step inv abs (reserve_all [u]) (\<lambda>_ c. c)
         (k\<lparr>k_pids := (k_pids k)(p \<mapsto> P\<lparr>p_numbers := (p_numbers P)[i := Some u]\<rparr>)\<rparr>) k')"
proof -
  have na: "k_ns k a = Some n" and inv: "inv (pid_sl n)" using n wf by (auto simp: live_def ns_wf_def)
  obtain nr rv sl' lp' t' where nr: "alloc_nr ops e a rv0 k = Some (nr, rv, set_index a n sl' lp' t' k)"
     "inv sl'" "scan_result (abs (pid_sl n)) 1 (pid_max k) (last_pid n) nr rv (abs sl') lp'"
     "mem_ok e \<longrightarrow> nr = (case next_nr (abs (pid_sl n)) (last_pid n) (pid_max k) of None \<Rightarrow> -1 | Some j \<Rightarrow> j)"
    using alloc_nr_ok [OF good na inv] by blast
  let ?k = "set_index a n sl' lp' t' k"
  have kp: "k_pids ?k = k_pids k" by (simp add: set_index_def)
  from nr(3) consider "nr = -1" "abs sl' = abs (pid_sl n)"
    | "1 \<le> nr" "nr < pid_max k" "idx_get (abs (pid_sl n)) nr = None" "rv = 0" "abs sl' = (abs (pid_sl n))(nr \<mapsto> None)"
    by (auto simp: scan_result_def)
  then show ?thesis
  proof cases
    case 1
    then have "alloc_levels ops e p (Suc i) (Some a) rv0 k = Some (int i, -1, ?k)" using nr(1) by simp
    moreover have "(\<lambda>b. if b = a then (\<lambda>m. m) else (\<lambda>m. m)) = (\<lambda>(_ :: nsaddr) (m :: idx). m)" by auto
    then have "ns_step inv abs (\<lambda>_ m. m) (\<lambda>_ c. c) k ?k"
      using set_index_step [of k a n inv sl' abs "\<lambda>m. m" lp' t'] na nr(2) 1 by simp
    moreover have "mem_ok e \<longrightarrow> (\<forall>nr. 1 \<le> nr \<and> nr < pid_max k \<longrightarrow> idx_get (abs (pid_sl n)) nr \<noteq> None)"
      using nr(4) 1(1) next_nr_None next_nr_range by (metis option.exhaust option.simps(4,5) zero_less_one_class.zero_le_one neg_0_le_iff_le not_one_le_zero order_trans)
    ultimately show ?thesis by blast
  next
    case 2
    let ?u = "\<lparr>u_nr = nr, u_ns = a\<rparr>"
    let ?X = "(k_pids k)(p \<mapsto> P\<lparr>p_numbers := (p_numbers P)[i := Some ?u]\<rparr>)"
    have "alloc_levels ops e p (Suc i) (Some a) rv0 k = alloc_levels ops e p i (ns_parent n) 0 (?k\<lparr>k_pids := ?X\<rparr>)"
      using nr(1) 2 P kp by (simp add: pid_upd_def set_index_def)
    moreover have "(\<lambda>b. if b = a then (\<lambda>m. m(nr \<mapsto> None)) else (\<lambda>m. m)) = reserve_all [?u]" by (auto simp: fun_eq_iff)
    then have "ns_step inv abs (reserve_all [?u]) (\<lambda>_ c. c) (k\<lparr>k_pids := ?X\<rparr>) (?k\<lparr>k_pids := ?X\<rparr>)"
      using set_index_step [of k a n inv sl' abs "\<lambda>m. m(nr \<mapsto> None)" lp' t'] na nr(2) 2
      by (simp add: ns_step_pids)
    ultimately show ?thesis using 2(1-3)
      by (intro disjI2 exI [of _ ?u] exI [of _ "?k\<lparr>k_pids := ?X\<rparr>"]) (simp del: alloc_levels.simps chg_all.simps)
  qed
qed

lemma alloc_levels_ok:
  assumes good: "\<forall>t. good (e_draw e t)" and wf: "ns_wf inv k" and n: "live k a n" "ns_level n = i"
    and P: "k_pids k p = Some P" "i < length (p_numbers P)"
  shows "\<exists>j rv us k'. alloc_levels ops e p (Suc i) (Some a) rv0 k = Some (j, rv, k') \<and>
     levels_result e inv abs k a i p P j rv us k'"
  using wf n P
proof (induction i arbitrary: a n rv0 k P)
  case 0
  have f: "levels_result e inv abs k a 0 p P 0 (-1) [] k'" if "ns_step inv abs (\<lambda>_ m. m) (\<lambda>_ c. c) k k'"
      "mem_ok e \<longrightarrow> (\<forall>nr. 1 \<le> nr \<and> nr < pid_max k \<longrightarrow> idx_get (abs (pid_sl n)) nr \<noteq> None)" for k'
    using levels_result_fail [OF that(1) 0(4,5)] that(2) 0(2,3) by (auto simp: level_full_def)
  from alloc_levels_round [OF good 0(1,2,4,5), of rv0]
  show ?case
  proof (elim disjE exE conjE)
    fix k' assume "alloc_levels ops e p (Suc 0) (Some a) rv0 k = Some (int 0, -1, k')"
      "ns_step inv abs (\<lambda>_ m. m) (\<lambda>_ c. c) k k'"
      "mem_ok e \<longrightarrow> (\<forall>nr. 1 \<le> nr \<and> nr < pid_max k \<longrightarrow> idx_get (abs (pid_sl n)) nr \<noteq> None)"
    with f [of k'] show ?thesis by (intro exI [of _ 0] exI [of _ "-1"] exI [of _ "[]"] exI [of _ k']) simp
  next
    fix u k' assume u: "alloc_levels ops e p (Suc 0) (Some a) rv0 k = alloc_levels ops e p 0 (ns_parent n) 0 k'"
      "u_ns u = a" "1 \<le> u_nr u" "u_nr u < pid_max k" "idx_get (abs (pid_sl n)) (u_nr u) = None"
      "ns_step inv abs (reserve_all [u]) (\<lambda>_ c. c)
         (k\<lparr>k_pids := (k_pids k)(p \<mapsto> P\<lparr>p_numbers := (p_numbers P)[0 := Some u]\<rparr>)\<rparr>) k'"
    have "(p_numbers P)[0 := Some u] = Some u # drop (Suc 0) (p_numbers P)"
      using 0(5) by (cases "p_numbers P") auto
    with u 0 have "levels_result e inv abs k a 0 p P (-1) 0 [u] k'" by (auto simp: levels_result_def)
    with u(1) show ?thesis by auto
  qed
next
  case (Suc i)
  from alloc_levels_round [OF good Suc.prems(1,2,4,5), of rv0]
  show ?case
  proof (elim disjE exE conjE)
    fix k' assume "alloc_levels ops e p (Suc (Suc i)) (Some a) rv0 k = Some (int (Suc i), -1, k')"
      "ns_step inv abs (\<lambda>_ m. m) (\<lambda>_ c. c) k k'"
      "mem_ok e \<longrightarrow> (\<forall>nr. 1 \<le> nr \<and> nr < pid_max k \<longrightarrow> idx_get (abs (pid_sl n)) nr \<noteq> None)"
    moreover from this have "levels_result e inv abs k a (Suc i) p P (int (Suc i)) (-1) [] k'"
      using Suc.prems by (intro levels_result_fail) (auto simp: level_full_def)
    ultimately show ?thesis by blast
  next
    fix u k2 assume u: "alloc_levels ops e p (Suc (Suc i)) (Some a) rv0 k = alloc_levels ops e p (Suc i) (ns_parent n) 0 k2"
      "u_ns u = a" "1 \<le> u_nr u" "u_nr u < pid_max k" "idx_get (abs (pid_sl n)) (u_nr u) = None"
      "ns_step inv abs (reserve_all [u]) (\<lambda>_ c. c)
         (k\<lparr>k_pids := (k_pids k)(p \<mapsto> P\<lparr>p_numbers := (p_numbers P)[Suc i := Some u]\<rparr>)\<rparr>) k2"
    let ?P = "P\<lparr>p_numbers := (p_numbers P)[Suc i := Some u]\<rparr>"
    obtain b m where b: "ns_parent n = Some b" "live k b m" "ns_level m = i"
      using Suc.prems(1,2,3) by (fastforce simp: ns_wf_def split: option.splits)
    obtain m2 where m2: "live k2 b m2" "ns_level m2 = i"
      using ns_step_level [OF u(6), of b m] b(2,3) by auto
    have wf2: "ns_wf inv k2" using ns_step_wf [OF u(6)] Suc.prems(1) by simp
    have P2: "k_pids k2 p = Some ?P" using ns_step_fields(1) [OF u(6)] by simp
    obtain j rv us k' where r: "alloc_levels ops e p (Suc i) (Some b) 0 k2 = Some (j, rv, k')"
       "levels_result e inv abs k2 b i p ?P j rv us k'"
      using Suc.IH [OF wf2 m2 P2, of 0] Suc.prems(5) by auto
    have "levels_result e inv abs k a (Suc i) p P j rv (u # us) k'"
      using levels_result_Cons [OF r(2) u(6)] Suc.prems u(2-5) b by auto
    with u(1) b(1) r(1) show ?thesis by auto
  qed
qed

section \<open>Publishing and removing\<close>

lemma alloc_publish_ok:
  assumes "\<forall>t. good (e_draw e t)" and "ns_wf inv k" and "k_pids k p = Some P"
    and "take (length us) (p_numbers P) = map Some (rev us)"
    and "\<forall>u \<in> set us. \<exists>m. live k (u_ns u) m \<and> u_nr u \<in> dom (abs (pid_sl m))"
  shows "\<exists>k'. alloc_publish ops e p (length us) k = Some k' \<and>
     ns_step inv abs (chg_all (\<lambda>nr m. m(nr \<mapsto> Some p)) us) (cnt_all (\<lambda>c. c + 1) us) k k'"
  using assms(2-5)
proof (induction us arbitrary: k)
  case Nil
  have "chg_all f [] = (\<lambda>_ m. m)" "cnt_all c [] = (\<lambda>_ m. m)" for f c by (simp_all add: fun_eq_iff)
  then show ?case by (simp add: ns_step_refl)
next
  case (Cons u us)
  let ?f = "\<lambda>m. m(u_nr u \<mapsto> Some p)"
  note tk = take_number(1) [OF Cons.prems(3)] and pn = take_number(2) [OF Cons.prems(3)]
  obtain n where n: "live k (u_ns u) n" "u_nr u \<in> dom (abs (pid_sl n))" using Cons.prems(4) by auto
  then have na: "k_ns k (u_ns u) = Some n" and inv: "inv (pid_sl n)"
    using Cons.prems(1) by (auto simp: live_def ns_wf_def)
  obtain r sl' where ins: "op_insert ops (e_draw e (k_tick k)) (pid_sl n) (u_nr u) (Some p) GFP_ATOMIC = Some (r, sl')"
      "inv sl'" "abs sl' = ?f (abs (pid_sl n))"
    using insert [OF inv, of "e_draw e (k_tick k)" "u_nr u" "Some p" GFP_ATOMIC] assms(1) n(2) by blast
  let ?n = "n\<lparr>pid_sl := sl', pid_allocated := pid_allocated n + 1\<rparr>"
  let ?k = "k\<lparr>k_ns := (k_ns k)(u_ns u \<mapsto> ?n), k_tick := Suc (k_tick k)\<rparr>"
  have st: "ns_step inv abs (\<lambda>b. if b = u_ns u then ?f else (\<lambda>m. m)) (\<lambda>b. if b = u_ns u then (\<lambda>c. c + 1) else (\<lambda>x. x)) k ?k"
    by (rule ns_step_one [OF na, where sl' = sl' and lp = "last_pid n"]) (use ins in auto)
  have lv: "\<forall>v \<in> set us. \<exists>m. live ?k (u_ns v) m \<and> u_nr v \<in> dom (abs (pid_sl m))"
  proof
    fix v assume "v \<in> set us"
    then obtain m where "live k (u_ns v) m" "u_nr v \<in> dom (abs (pid_sl m))"
      using Cons.prems(4) by (meson list.set_intros(2))
    with ns_step_map [OF st Cons.prems(1)] show "\<exists>m. live ?k (u_ns v) m \<and> u_nr v \<in> dom (abs (pid_sl m))"
      by fastforce
  qed
  have kp: "k_pids ?k p = Some P" using Cons.prems(2) by simp
  obtain k' where k': "alloc_publish ops e p (length us) ?k = Some k'"
     "ns_step inv abs (chg_all (\<lambda>nr m. m(nr \<mapsto> Some p)) us) (cnt_all (\<lambda>c. c + 1) us) ?k k'"
    using Cons.IH [OF ns_step_wf [OF st Cons.prems(1)] kp tk lv] by blast
  have "alloc_publish ops e p (length (u # us)) k = alloc_publish ops e p (length us) ?k"
    using Cons.prems(2) pn na ins(1) by (simp add: ns_upd_def tick_def)
  moreover have "ns_step inv abs (chg_all (\<lambda>nr m. m(nr \<mapsto> Some p)) (u # us)) (cnt_all (\<lambda>c. c + 1) (u # us)) k k'"
    using ns_step_trans [OF st k'(2)] by (simp only: chg_all_Cons cnt_all_Cons)
  ultimately show ?case by (intro exI [of _ k'] conjI) (simp_all only: k'(1))
qed

text \<open>Taking the numbers \<open>vs\<close>, those of the levels from \<open>j\<close> on, out of the indexes.\<close>

lemma alloc_unreserve_ok:
  assumes "ns_wf inv k" and "k_pids k p = Some P" and "drop j (p_numbers P) = map Some vs @ ws"
    and "\<forall>u \<in> set vs. \<exists>m. live k (u_ns u) m"
  shows "\<exists>k'. alloc_unreserve ops p j (length vs) k = Some k' \<and>
     ns_step inv abs (chg_all (\<lambda>nr m. m(nr := None)) vs) (\<lambda>_ c. c) k k'"
  using assms
proof (induction vs arbitrary: k j)
  case Nil
  have "chg_all f [] = (\<lambda>_ m. m)" for f by (simp add: fun_eq_iff)
  then show ?case by (simp add: ns_step_refl)
next
  case (Cons u vs)
  let ?f = "\<lambda>m. m(u_nr u := None)"
  have pn: "pid_number P j = Some u" and dr: "drop (Suc j) (p_numbers P) = map Some vs @ ws"
    using Cons.prems(3) drop_number [of j P "Some u"] by auto
  obtain n where n: "live k (u_ns u) n" using Cons.prems(4) by auto
  then have na: "k_ns k (u_ns u) = Some n" and inv: "inv (pid_sl n)"
    using Cons.prems(1) by (auto simp: live_def ns_wf_def)
  obtain sl' where rem: "op_remove ops (pid_sl n) (u_nr u) = Some sl'" "inv sl'" "abs sl' = ?f (abs (pid_sl n))"
    using remove [OF inv, of "u_nr u"] by blast
  let ?k = "set_index (u_ns u) n sl' (last_pid n) (k_tick k) k"
  have st: "ns_step inv abs (\<lambda>b. if b = u_ns u then ?f else (\<lambda>m. m)) (\<lambda>_ c. c) k ?k"
    by (rule set_index_step [where f = ?f]) (use na rem in auto)
  have lv: "\<forall>v \<in> set vs. \<exists>m. live ?k (u_ns v) m"
    using ns_step_level [OF st] Cons.prems(4) by (meson list.set_intros(2))
  have kp: "k_pids ?k p = Some P" using ns_step_fields(1) [OF st] Cons.prems(2) by simp
  obtain k' where k': "alloc_unreserve ops p (Suc j) (length vs) ?k = Some k'"
     "ns_step inv abs (chg_all (\<lambda>nr m. m(nr := None)) vs) (\<lambda>_ c. c) ?k k'"
    using Cons.IH [OF ns_step_wf [OF st Cons.prems(1)] kp dr lv] by blast
  have "alloc_unreserve ops p j (length (u # vs)) k = alloc_unreserve ops p (Suc j) (length vs) ?k"
    using Cons.prems(2) pn na rem(1) by (simp add: ns_upd_def set_index_def)
  moreover have "ns_step inv abs (chg_all (\<lambda>nr m. m(nr := None)) (u # vs)) (\<lambda>_ c. c) k k'"
    using ns_step_trans [OF st k'(2)] by (simp only: chg_all_Cons cnt_all_Cons)
  ultimately show ?case by (intro exI [of _ k'] conjI) (simp_all only: k'(1))
qed

text \<open>\<^verbatim>\<open>free_pid\<close>: the same with the counters and the notifications.\<close>

lemma free_pid_levels_ok:
  assumes "ns_wf inv k" and "k_pids k p = Some P" and "drop j (p_numbers P) = map Some vs @ ws"
    and "\<forall>u \<in> set vs. \<exists>m. live k (u_ns u) m" and "distinct (map u_ns vs)"
  shows "\<exists>k'. free_pid_levels ops p j (length vs) k = Some k' \<and>
     k_events k' = k_events k @ concat (map (free_events k) vs) \<and>
     ns_step inv abs (chg_all (\<lambda>nr m. m(nr := None)) vs) (cnt_all free_count vs) (k\<lparr>k_events := k_events k'\<rparr>) k'"
  using assms
proof (induction vs arbitrary: k j)
  case Nil
  have "chg_all f [] = (\<lambda>_ m. m)" "cnt_all c [] = (\<lambda>_ m. m)" for f c by (simp_all add: fun_eq_iff)
  then show ?case by (simp add: ns_step_refl)
next
  case (Cons u vs)
  let ?f = "\<lambda>m. m(u_nr u := None)"
  have pn: "pid_number P j = Some u" and dr: "drop (Suc j) (p_numbers P) = map Some vs @ ws"
    using Cons.prems(3) drop_number [of j P "Some u"] by auto
  obtain n where n: "live k (u_ns u) n" using Cons.prems(4) by auto
  then have na: "k_ns k (u_ns u) = Some n" and inv: "inv (pid_sl n)"
    using Cons.prems(1) by (auto simp: live_def ns_wf_def)
  obtain sl' where rem: "op_remove ops (pid_sl n) (u_nr u) = Some sl'" "inv sl'" "abs sl' = ?f (abs (pid_sl n))"
    using remove [OF inv, of "u_nr u"] by blast
  let ?n = "n\<lparr>pid_sl := sl', pid_allocated := free_count (pid_allocated n)\<rparr>"
  let ?E = "k_events k @ free_events k u"
  let ?kz = "k\<lparr>k_ns := (k_ns k)(u_ns u \<mapsto> ?n), k_tick := k_tick k\<rparr>"
  let ?k = "?kz\<lparr>k_events := ?E\<rparr>"
  have st0: "ns_step inv abs (\<lambda>b. if b = u_ns u then ?f else (\<lambda>m. m)) (\<lambda>b. if b = u_ns u then free_count else (\<lambda>x. x)) k ?kz"
    by (rule ns_step_one [OF na, where sl' = sl' and lp = "last_pid n"]) (use rem in auto)
  note st = ns_step_events [OF st0]
  have wf: "ns_wf inv ?k" using ns_step_wf [OF st] Cons.prems(1) by simp
  have lv: "\<forall>v \<in> set vs. \<exists>m. live ?k (u_ns v) m"
    using ns_step_level [OF st0] Cons.prems(4) unfolding live_events by (meson list.set_intros(2))
  have d: "distinct (map u_ns vs)" using Cons.prems(5) by simp
  have fe: "map (free_events ?k) vs = map (free_events k) vs"
  proof (rule map_cong [OF refl])
    fix v assume "v \<in> set vs"
    then have "u_ns v \<noteq> u_ns u" using Cons.prems(5) by (metis distinct.simps(2) image_eqI list.map(2) set_map)
    then show "free_events ?k v = free_events k v" by (simp add: free_events_def)
  qed
  have kp: "k_pids ?k p = Some P" using Cons.prems(2) by simp
  have ev: "k_events ?k @ concat (map (free_events ?k) vs) = ?E @ concat (map (free_events k) vs)"
    by (simp only: fe) simp
  obtain k' where k': "free_pid_levels ops p (Suc j) (length vs) ?k = Some k'"
     "k_events k' = ?E @ concat (map (free_events k) vs)"
     "ns_step inv abs (chg_all (\<lambda>nr m. m(nr := None)) vs) (cnt_all free_count vs) (?k\<lparr>k_events := k_events k'\<rparr>) k'"
    using Cons.IH [OF wf kp dr lv d] unfolding ev by blast
  have eq: "k\<lparr>k_events := ?E, k_ns := (k_ns k)(u_ns u \<mapsto>
      n\<lparr>pid_allocated := free_count (pid_allocated n), pid_sl := sl'\<rparr>)\<rparr> = ?k"
    by (rule kernel.equality) (simp_all add: fun_eq_iff)
  have "free_pid_levels ops p j (length (u # vs)) k = free_pid_levels ops p (Suc j) (length vs) ?k"
    using Cons.prems(2) pn na rem(1) eq by (simp add: free_account_ok [OF na] ns_upd_def)
  moreover have "ns_step inv abs (chg_all (\<lambda>nr m. m(nr := None)) (u # vs)) (cnt_all free_count (u # vs))
      (k\<lparr>k_events := k_events k'\<rparr>) k'"
  proof -
    have "?k\<lparr>k_events := k_events k'\<rparr> = ?kz\<lparr>k_events := k_events k'\<rparr>" by simp
    with k'(3) ns_step_trans [OF st [of "k_events k'"]] show ?thesis by (simp only: chg_all_Cons cnt_all_Cons)
  qed
  moreover have "k_events k' = k_events k @ concat (map (free_events k) (u # vs))" using k'(2) by simp
  ultimately show ?case by (intro exI [of _ k'] conjI) (simp_all only: k'(1))
qed

end

end
