(* ===== verification/Pid_Tasks.thy ===== *)
theory Pid_Tasks
  imports Pid_Core
begin

text \<open>
  The rest of \<^verbatim>\<open>pid.c\<close>: lookups, the lists of tasks that use a pid, the translation of pids to numbers,
  pid file descriptors, and the initialisation.
\<close>

section \<open>Lookup\<close>

definition find_pid_ns :: "'sl index_ops \<Rightarrow> int \<Rightarrow> nsaddr \<Rightarrow> 'sl kernel \<Rightarrow> paddr option option" where
  "find_pid_ns ops nr ns k = do { n \<leftarrow> k_ns k ns; op_lookup ops (pid_sl n) nr }"

definition find_vpid :: "'sl index_ops \<Rightarrow> kenv \<Rightarrow> int \<Rightarrow> 'sl kernel \<Rightarrow> paddr option option" where
  "find_vpid ops e nr k = do {
     a \<leftarrow> task_active_pid_ns e (k_current k) k;
     ns \<leftarrow> a;
     find_pid_ns ops nr ns k }"

definition find_ge_pid :: "'sl index_ops \<Rightarrow> int \<Rightarrow> nsaddr option \<Rightarrow> 'sl kernel \<Rightarrow> paddr option option" where
  "find_ge_pid ops nr ns k =
     (case ns of None \<Rightarrow> Some None
      | Some a \<Rightarrow> do {
          n \<leftarrow> k_ns k a;
          if op_header ops (pid_sl n) = None then Some None else op_find_ge ops (pid_sl n) nr })"

section \<open>Tasks of a pid\<close>

text \<open>\<^verbatim>\<open>*task_pid_ptr(task, type)\<close>, read and written.\<close>

definition task_pid_ptr :: "taddr \<Rightarrow> pid_type \<Rightarrow> 'sl kernel \<Rightarrow> paddr option option" where
  "task_pid_ptr t type k = do {
     T \<leftarrow> k_tasks k t;
     if type = PIDTYPE_PID then Some (thread_pid T)
     else do { s \<leftarrow> k_signals k (signal T); Some (s type) } }"

definition set_task_pid_ptr :: "taddr \<Rightarrow> pid_type \<Rightarrow> paddr option \<Rightarrow> 'sl kernel \<Rightarrow> 'sl kernel option" where
  "set_task_pid_ptr t type new k = do {
     T \<leftarrow> k_tasks k t;
     if type = PIDTYPE_PID then task_upd k t (\<lambda>T. T\<lparr>thread_pid := new\<rparr>)
     else do {
       s \<leftarrow> k_signals k (signal T);
       Some (k\<lparr>k_signals := (k_signals k)(signal T \<mapsto> s(type := new))\<rparr>) } }"

text \<open>The list operations on \<^verbatim>\<open>pid_links[type]\<close>; deleting a link that is on no list is a fault.\<close>

definition hlist_add_head :: "taddr \<Rightarrow> pid_type \<Rightarrow> paddr \<Rightarrow> 'sl kernel \<Rightarrow> 'sl kernel option" where
  "hlist_add_head t type p k = do {
     k1 \<leftarrow> pid_upd k p (\<lambda>P. P\<lparr>p_tasks := (p_tasks P)(type := t # p_tasks P type)\<rparr>);
     task_upd k1 t (\<lambda>T. T\<lparr>pid_links := (pid_links T)(type := Some p)\<rparr>) }"

definition hlist_del :: "taddr \<Rightarrow> pid_type \<Rightarrow> 'sl kernel \<Rightarrow> 'sl kernel option" where
  "hlist_del t type k = do {
     T \<leftarrow> k_tasks k t;
     p \<leftarrow> pid_links T type;
     k1 \<leftarrow> pid_upd k p (\<lambda>P. P\<lparr>p_tasks := (p_tasks P)(type := remove1 t (p_tasks P type))\<rparr>);
     task_upd k1 t (\<lambda>T. T\<lparr>pid_links := (pid_links T)(type := None)\<rparr>) }"

definition hlist_replace :: "taddr \<Rightarrow> taddr \<Rightarrow> pid_type \<Rightarrow> 'sl kernel \<Rightarrow> 'sl kernel option" where
  "hlist_replace old new type k = do {
     T \<leftarrow> k_tasks k old;
     p \<leftarrow> pid_links T type;
     k1 \<leftarrow> pid_upd k p (\<lambda>P. P\<lparr>p_tasks := (p_tasks P)(type :=
             map (\<lambda>t. if t = old then new else t) (p_tasks P type))\<rparr>);
     k2 \<leftarrow> task_upd k1 old (\<lambda>T. T\<lparr>pid_links := (pid_links T)(type := None)\<rparr>);
     task_upd k2 new (\<lambda>T. T\<lparr>pid_links := (pid_links T)(type := Some p)\<rparr>) }"

definition attach_pid :: "taddr \<Rightarrow> pid_type \<Rightarrow> 'sl kernel \<Rightarrow> 'sl kernel option" where
  "attach_pid task type k = do {
     pid \<leftarrow> task_pid_ptr task type k;
     p \<leftarrow> pid;
     hlist_add_head task type p k }"

definition change_pid_internal :: "'sl index_ops \<Rightarrow> taddr \<Rightarrow> pid_type \<Rightarrow> paddr option \<Rightarrow> 'sl kernel
    \<Rightarrow> 'sl kernel option" where
  "change_pid_internal ops task type new k = do {
     pid \<leftarrow> task_pid_ptr task type k;
     k1 \<leftarrow> hlist_del task type k;
     k2 \<leftarrow> set_task_pid_ptr task type new k1;
     p \<leftarrow> pid;
     P \<leftarrow> k_pids k2 p;
     if \<exists>t \<in> set pid_types. p_tasks P t \<noteq> [] then Some k2 else free_pid ops p k2 }"

definition detach_pid :: "'sl index_ops \<Rightarrow> taddr \<Rightarrow> pid_type \<Rightarrow> 'sl kernel \<Rightarrow> 'sl kernel option" where
  "detach_pid ops task type k = change_pid_internal ops task type None k"

definition change_pid :: "'sl index_ops \<Rightarrow> taddr \<Rightarrow> pid_type \<Rightarrow> paddr option \<Rightarrow> 'sl kernel
    \<Rightarrow> 'sl kernel option" where
  "change_pid ops task type pid k = do {
     k1 \<leftarrow> change_pid_internal ops task type pid k;
     attach_pid task type k1 }"

definition transfer_pid :: "taddr \<Rightarrow> taddr \<Rightarrow> pid_type \<Rightarrow> 'sl kernel \<Rightarrow> 'sl kernel option" where
  "transfer_pid old new type k = do {
     k1 \<leftarrow> (if type = PIDTYPE_PID
            then do { T \<leftarrow> k_tasks k old; task_upd k new (\<lambda>N. N\<lparr>thread_pid := thread_pid T\<rparr>) }
            else Some k);
     hlist_replace old new type k1 }"

definition pid_task :: "paddr option \<Rightarrow> pid_type \<Rightarrow> 'sl kernel \<Rightarrow> taddr option option" where
  "pid_task pid type k =
     (case pid of None \<Rightarrow> Some None
      | Some p \<Rightarrow> do {
          P \<leftarrow> k_pids k p;
          Some (case p_tasks P type of [] \<Rightarrow> None | t # _ \<Rightarrow> Some t) })"

text \<open>
  The tasks for which the body between \<^verbatim>\<open>do_each_pid_task\<close> and \<^verbatim>\<open>while_each_pid_task\<close> runs, when it leaves the list alone: with
  \<^verbatim>\<open>PIDTYPE_PID\<close> the loop ends after the first one.  \<open>threads\<close> stands for \<^verbatim>\<open>for_each_thread\<close>.
\<close>

definition each_pid_task :: "paddr option \<Rightarrow> pid_type \<Rightarrow> 'sl kernel \<Rightarrow> taddr list option" where
  "each_pid_task pid type k =
     (case pid of None \<Rightarrow> Some []
      | Some p \<Rightarrow> do {
          P \<leftarrow> k_pids k p;
          Some (if type = PIDTYPE_PID then take 1 (p_tasks P type) else p_tasks P type) })"

definition each_pid_thread :: "(taddr \<Rightarrow> taddr list) \<Rightarrow> paddr option \<Rightarrow> pid_type \<Rightarrow> 'sl kernel \<Rightarrow> taddr list option" where
  "each_pid_thread threads pid type k = do {
     tasks \<leftarrow> each_pid_task pid type k;
     Some (concat (map threads tasks)) }"

definition find_task_by_pid_ns :: "'sl index_ops \<Rightarrow> int \<Rightarrow> nsaddr \<Rightarrow> 'sl kernel \<Rightarrow> taddr option option" where
  "find_task_by_pid_ns ops nr ns k = do {
     pid \<leftarrow> find_pid_ns ops nr ns k;
     pid_task pid PIDTYPE_PID k }"

definition find_task_by_vpid :: "'sl index_ops \<Rightarrow> kenv \<Rightarrow> int \<Rightarrow> 'sl kernel \<Rightarrow> taddr option option" where
  "find_task_by_vpid ops e vnr k = do {
     a \<leftarrow> task_active_pid_ns e (k_current k) k;
     ns \<leftarrow> a;
     find_task_by_pid_ns ops vnr ns k }"

text \<open>\<^verbatim>\<open>get_task_struct\<close> on a pointer that was tested.\<close>

definition get_task_ref :: "taddr option \<Rightarrow> 'sl kernel \<Rightarrow> (taddr option \<times> 'sl kernel) option" where
  "get_task_ref task k =
     (case task of None \<Rightarrow> Some (None, k)
      | Some t \<Rightarrow> do {
          T \<leftarrow> k_tasks k t;
          c \<leftarrow> refcount_inc (usage T);
          k' \<leftarrow> task_upd k t (\<lambda>T. T\<lparr>usage := c\<rparr>);
          Some (task, k') })"

definition find_get_task_by_vpid :: "'sl index_ops \<Rightarrow> kenv \<Rightarrow> int \<Rightarrow> 'sl kernel
    \<Rightarrow> (taddr option \<times> 'sl kernel) option" where
  "find_get_task_by_vpid ops e nr k = do {
     task \<leftarrow> find_task_by_vpid ops e nr k;
     get_task_ref task k }"

definition get_task_pid :: "taddr \<Rightarrow> pid_type \<Rightarrow> 'sl kernel \<Rightarrow> (paddr option \<times> 'sl kernel) option" where
  "get_task_pid task type k = do {
     pid \<leftarrow> task_pid_ptr task type k;
     get_pid pid k }"

definition get_pid_task :: "paddr option \<Rightarrow> pid_type \<Rightarrow> 'sl kernel \<Rightarrow> (taddr option \<times> 'sl kernel) option" where
  "get_pid_task pid type k = do {
     result \<leftarrow> pid_task pid type k;
     get_task_ref result k }"

definition find_get_pid :: "'sl index_ops \<Rightarrow> kenv \<Rightarrow> int \<Rightarrow> 'sl kernel \<Rightarrow> (paddr option \<times> 'sl kernel) option" where
  "find_get_pid ops e nr k = do {
     pid \<leftarrow> find_vpid ops e nr k;
     get_pid pid k }"

section \<open>Numbers of a pid\<close>

definition pid_nr_ns :: "paddr option \<Rightarrow> nsaddr \<Rightarrow> 'sl kernel \<Rightarrow> int option" where
  "pid_nr_ns pid ns k =
     (case pid of None \<Rightarrow> Some 0
      | Some p \<Rightarrow> do {
          n \<leftarrow> k_ns k ns;
          P \<leftarrow> k_pids k p;
          if ns_level n \<le> p_level P
          then do { u \<leftarrow> pid_number P (ns_level n); Some (if u_ns u = ns then u_nr u else 0) }
          else Some 0 })"

definition pid_vnr :: "kenv \<Rightarrow> paddr option \<Rightarrow> 'sl kernel \<Rightarrow> int option" where
  "pid_vnr e pid k = do {
     a \<leftarrow> task_active_pid_ns e (k_current k) k;
     ns \<leftarrow> a;
     pid_nr_ns pid ns k }"

definition task_pid_nr_ns :: "kenv \<Rightarrow> taddr \<Rightarrow> pid_type \<Rightarrow> nsaddr option \<Rightarrow> 'sl kernel \<Rightarrow> int option" where
  "task_pid_nr_ns e task type ns k = do {
     a \<leftarrow> (case ns of None \<Rightarrow> task_active_pid_ns e (k_current k) k | Some b \<Rightarrow> Some (Some b));
     T \<leftarrow> k_tasks k task;
     if pid_alive e T
     then do { pid \<leftarrow> task_pid_ptr task type k; b \<leftarrow> a; pid_nr_ns pid b k }
     else Some 0 }"

section \<open>Pid file descriptors\<close>

definition pidfd_create :: "'sl index_ops \<Rightarrow> kenv \<Rightarrow> paddr \<Rightarrow> 'sl kernel \<Rightarrow> (int \<times> 'sl kernel) option" where
  "pidfd_create ops e p k = do {
     (pid, k1) \<leftarrow> get_pid (Some p) k;
     let fd = anon_inode_getfd e (k_tick k1);
     let k2 = tick k1;
     if fd < 0 then do { k3 \<leftarrow> put_pid ops (Some p) k2; Some (fd, k3) } else Some (fd, k2) }"

definition pidfd_open :: "'sl index_ops \<Rightarrow> kenv \<Rightarrow> int \<Rightarrow> 32 word \<Rightarrow> 'sl kernel \<Rightarrow> (int \<times> 'sl kernel) option" where
  "pidfd_open ops e pid flags k =
     (if flags \<noteq> 0 then Some (- EINVAL, k)
      else if pid \<le> 0 then Some (- EINVAL, k)
      else do {
        (p, k1) \<leftarrow> find_get_pid ops e pid k;
        (case p of None \<Rightarrow> Some (- ESRCH, k1)
         | Some q \<Rightarrow> do {
             leader \<leftarrow> pid_task p PIDTYPE_TGID k1;
             (fd, k2) \<leftarrow> (if leader = None then Some (- EINVAL, k1) else pidfd_create ops e q k1);
             k3 \<leftarrow> put_pid ops p k2;
             Some (fd, k3) }) })"

section \<open>Initialisation\<close>

definition init_struct_pid :: pid where
  "init_struct_pid = \<lparr>p_count = 1, p_level = 0, p_tasks = (\<lambda>_. []),
     p_numbers = [Some \<lparr>u_nr = 0, u_ns = init_pid_ns\<rparr>]\<rparr>"

text \<open>The static initialiser of \<^verbatim>\<open>init_pid_ns\<close>; \<open>sl0\<close> is the index with level 0 and no header.\<close>

definition init_pid_ns_struct :: "'sl \<Rightarrow> taddr \<Rightarrow> nat \<Rightarrow> 'sl pid_namespace" where
  "init_pid_ns_struct sl0 init_task init_user_ns =
     \<lparr>kref = 2, pid_sl = sl0, last_pid = 0, pid_allocated = PIDNS_ADDING, child_reaper = Some init_task,
      pid_cachep = None, ns_level = 0, ns_parent = None, user_ns = init_user_ns, ucounts = 0, reboot = 0\<rparr>"

definition pid_idr_init :: "'sl index_ops \<Rightarrow> kenv \<Rightarrow> 'sl kernel \<Rightarrow> 'sl kernel option" where
  "pid_idr_init ops e k = do {
     let k1 = k\<lparr>pid_max := min (pid_max_max k) (max (pid_max k) (PIDS_PER_CPU_DEFAULT e * num_possible_cpus e)),
                pid_max_min := max (pid_max_min k) (PIDS_PER_CPU_MIN e * num_possible_cpus e)\<rparr>;
     n \<leftarrow> k_ns k1 init_pid_ns;
     sl' \<leftarrow> op_init ops (e_draw e (k_tick k1)) GFP_KERNEL (pid_sl n);
     let k2 = tick k1;
     c \<leftarrow> kmem_cache_create e (k_tick k2) 0;
     ns_upd (tick k2) init_pid_ns (\<lambda>n. n\<lparr>pid_sl := sl', last_pid := 0, pid_cachep := Some c\<rparr>) }"

end
