(* ===== verification/Pid_Invariant.thy ===== *)
theory Pid_Invariant
  imports Pid_Alloc Pid_Tasks
begin

text \<open>
  The invariant of the whole state and how it is kept.  \<open>kinv\<close> says that the namespaces are well
  formed, that the pids have a number for each of their levels, that addresses are below the break, and that every pid found in an index
  is a live pid which has that number in that namespace.
\<close>

section \<open>States with the same namespaces\<close>

definition ns_view :: "'sl pid_namespace \<Rightarrow> bool \<times> 'sl \<times> nat \<times> nsaddr option" where
  "ns_view n = (0 < kref n, pid_sl n, ns_level n, ns_parent n)"

definition ns_same :: "'sl kernel \<Rightarrow> 'sl kernel \<Rightarrow> bool" where
  "ns_same k k' \<longleftrightarrow> (\<forall>a. map_option ns_view (k_ns k a) = map_option ns_view (k_ns k' a))"

lemma ns_same_refl [simp]: "ns_same k k"
  by (simp add: ns_same_def)

lemma ns_same_sym: "ns_same k k' \<Longrightarrow> ns_same k' k"
  by (simp add: ns_same_def)

lemma ns_same_trans: "ns_same k1 k2 \<Longrightarrow> ns_same k2 k3 \<Longrightarrow> ns_same k1 k3"
  by (simp add: ns_same_def)

lemma ns_same_ns: "k_ns k = k_ns k' \<Longrightarrow> ns_same k k'"
  by (simp add: ns_same_def)

lemma ns_same_live:
  assumes "ns_same k k'" and "live k a n"
  shows "\<exists>n'. live k' a n' \<and> pid_sl n' = pid_sl n \<and> ns_level n' = ns_level n \<and> ns_parent n' = ns_parent n"
proof -
  from assms have "map_option ns_view (k_ns k' a) = Some (ns_view n)" by (metis live_def ns_same_def option.simps(9))
  then obtain n' where "k_ns k' a = Some n'" "ns_view n' = ns_view n" by auto
  with assms(2) show ?thesis by (auto simp: live_def ns_view_def)
qed

lemma ns_same_wf:
  assumes s: "ns_same k k'" and wf: "ns_wf I k"
  shows "ns_wf I k'"
  unfolding ns_wf_def
proof (intro allI impI)
  fix a n' assume "live k' a n'"
  then obtain n where n: "live k a n" "pid_sl n = pid_sl n'" "ns_level n = ns_level n'" "ns_parent n = ns_parent n'"
    using ns_same_live [OF ns_same_sym [OF s]] by blast
  have "I (pid_sl n) \<and> (case ns_parent n of None \<Rightarrow> ns_level n = 0
      | Some b \<Rightarrow> \<exists>m. live k b m \<and> ns_level n = Suc (ns_level m))"
    using wf n(1) by (simp add: ns_wf_def)
  moreover have "\<exists>m. live k b m \<and> l = Suc (ns_level m) \<Longrightarrow> \<exists>m. live k' b m \<and> l = Suc (ns_level m)" for b l
    using ns_same_live [OF s] by metis
  ultimately show "I (pid_sl n') \<and> (case ns_parent n' of None \<Rightarrow> ns_level n' = 0
      | Some b \<Rightarrow> \<exists>m. live k' b m \<and> ns_level n' = Suc (ns_level m))"
    using n(2-4) by (cases "ns_parent n'") simp_all
qed

lemma ns_same_upath: "ns_same k k' \<Longrightarrow> upath k a i us \<Longrightarrow> upath k' a i us"
  by (erule upath_cong [rotated]) (blast dest: ns_same_live)

lemma ns_same_kref:
  assumes "k_ns k a = Some n" and "0 < kref n" and "0 < c"
  shows "ns_same k (k\<lparr>k_ns := (k_ns k)(a \<mapsto> n\<lparr>kref := c\<rparr>)\<rparr>)"
  using assms by (auto simp: ns_same_def ns_view_def)

text \<open>The hierarchy and the reference counts of the namespaces.\<close>

definition ns_skel :: "'sl kernel \<Rightarrow> nsaddr \<Rightarrow> (nat \<times> nsaddr option) option" where
  "ns_skel k a = map_option (\<lambda>n. (ns_level n, ns_parent n)) (k_ns k a)"

definition ns_krefs :: "'sl kernel \<Rightarrow> nsaddr \<Rightarrow> nat option" where
  "ns_krefs k a = map_option kref (k_ns k a)"

lemma ns_same_skel: "ns_same k k' \<Longrightarrow> ns_skel k' = ns_skel k"
proof (rule ext)
  fix a assume "ns_same k k'"
  then have "map_option ns_view (k_ns k a) = map_option ns_view (k_ns k' a)" by (simp add: ns_same_def)
  then show "ns_skel k' a = ns_skel k a"
    by (cases "k_ns k a"; cases "k_ns k' a") (auto simp: ns_skel_def ns_view_def)
qed

lemma ns_step_skel: "ns_step I A F C k k' \<Longrightarrow> ns_skel k' = ns_skel k \<and> ns_krefs k' = ns_krefs k"
proof -
  assume st: "ns_step I A F C k k'"
  have "ns_skel k' a = ns_skel k a \<and> ns_krefs k' a = ns_krefs k a" for a
  proof -
    have "rel_option (ns_chg I A (F a) (C a)) (k_ns k a) (k_ns k' a)" using st by (simp add: ns_step_def)
    then show ?thesis
      by (cases "k_ns k a"; cases "k_ns k' a") (auto simp: ns_skel_def ns_krefs_def ns_chg_fields)
  qed
  then show ?thesis by (simp add: fun_eq_iff)
qed

section \<open>Taking and dropping a reference that is not the last\<close>

lemma get_pid_ns_ok:
  assumes "live k a n"
  shows "\<exists>k'. get_pid_ns a k = Some k' \<and> ns_same k k' \<and> k' = k\<lparr>k_ns := k_ns k'\<rparr> \<and>
     k_ns k' = (if a = init_pid_ns then k_ns k else (k_ns k)(a \<mapsto> n\<lparr>kref := Suc (kref n)\<rparr>))"
  using assms ns_same_kref [of k a n "Suc (kref n)"]
  by (auto simp: get_pid_ns_def live_def refcount_inc_def ns_upd_def)

lemma put_pid_ns_back:
  assumes "a \<noteq> init_pid_ns \<Longrightarrow> k_ns k a = Some n \<and> 1 < kref n"
  shows "put_pid_ns ops (Some a) k
     = Some (if a = init_pid_ns then k else k\<lparr>k_ns := (k_ns k)(a \<mapsto> n\<lparr>kref := kref n - 1\<rparr>)\<rparr>)"
proof (cases "a = init_pid_ns")
  case False
  with assms have n: "k_ns k a = Some n" "1 < kref n" by auto
  then have "kref_put ops a k = Some (False, k\<lparr>k_ns := (k_ns k)(a \<mapsto> n\<lparr>kref := kref n - 1\<rparr>)\<rparr>)"
    by (simp add: kref_put_def refcount_dec_def ns_upd_def)
  with False n(1) show ?thesis by (subst put_pid_ns.simps) simp
qed (simp add: put_pid_ns.simps)

section \<open>The invariant\<close>

definition pids_wf :: "'sl kernel \<Rightarrow> bool" where
  "pids_wf k \<longleftrightarrow> (\<forall>p P. k_pids k p = Some P \<longrightarrow> p < k_brk k \<and> length (p_numbers P) = Suc (p_level P))"

definition pid_has :: "'sl kernel \<Rightarrow> paddr \<Rightarrow> nat \<Rightarrow> upid \<Rightarrow> bool" where
  "pid_has k p l u \<longleftrightarrow> (\<exists>P. k_pids k p = Some P \<and> 0 < p_count P \<and> pid_number P l = Some u)"

definition index_wf :: "('sl \<Rightarrow> idx) \<Rightarrow> 'sl kernel \<Rightarrow> bool" where
  "index_wf A k \<longleftrightarrow> (\<forall>a n nr p. live k a n \<longrightarrow> idx_get (A (pid_sl n)) nr = Some p \<longrightarrow>
     pid_has k p (ns_level n) \<lparr>u_nr = nr, u_ns = a\<rparr>)"

definition ns_bound :: "'sl kernel \<Rightarrow> bool" where
  "ns_bound k \<longleftrightarrow> (\<forall>a n. k_ns k a = Some n \<longrightarrow> a < k_brk k)"

definition kinv :: "('sl \<Rightarrow> bool) \<Rightarrow> ('sl \<Rightarrow> idx) \<Rightarrow> 'sl kernel \<Rightarrow> bool" where
  "kinv I A k \<longleftrightarrow> ns_wf I k \<and> pids_wf k \<and> index_wf A k \<and> ns_bound k"

lemma ns_same_dom: "ns_same k k' \<Longrightarrow> dom (k_ns k') = dom (k_ns k)"
  unfolding ns_same_def dom_def by (metis map_option_is_None)

lemma ns_step_dom: "ns_step I A F C k k' \<Longrightarrow> dom (k_ns k') = dom (k_ns k)"
  by (auto elim: ns_step_at ns_step_back)

lemma ns_bound_dom: "dom (k_ns k') = dom (k_ns k) \<Longrightarrow> k_brk k \<le> k_brk k' \<Longrightarrow> ns_bound k \<Longrightarrow> ns_bound k'"
  unfolding ns_bound_def by (metis domD domI less_le_trans)

text \<open>What a lookup of a number in a live namespace returns.\<close>

definition lookup_in :: "('sl \<Rightarrow> idx) \<Rightarrow> 'sl kernel \<Rightarrow> nsaddr \<Rightarrow> int \<Rightarrow> paddr option" where
  "lookup_in A k a nr = (case k_ns k a of None \<Rightarrow> None
     | Some n \<Rightarrow> if 0 < kref n then idx_get (A (pid_sl n)) nr else None)"

lemma lookup_in_live: "live k a n \<Longrightarrow> lookup_in A k a nr = idx_get (A (pid_sl n)) nr"
  by (simp add: lookup_in_def live_def)

lemma lookup_in_same: "ns_same k k' \<Longrightarrow> lookup_in A k' = lookup_in A k"
proof (intro ext)
  fix a nr assume s: "ns_same k k'"
  then have "map_option ns_view (k_ns k a) = map_option ns_view (k_ns k' a)" by (simp add: ns_same_def)
  then show "lookup_in A k' a nr = lookup_in A k a nr"
    by (cases "k_ns k a"; cases "k_ns k' a") (auto simp: lookup_in_def ns_view_def)
qed

lemma index_wf_iff:
  "index_wf A k \<longleftrightarrow> (\<forall>a n nr p. live k a n \<longrightarrow> lookup_in A k a nr = Some p \<longrightarrow>
     pid_has k p (ns_level n) \<lparr>u_nr = nr, u_ns = a\<rparr>)"
  by (simp add: index_wf_def lookup_in_live)

lemma lookup_in_step:
  assumes st: "ns_step I A F C k k'" and wf: "ns_wf I k"
  shows "lookup_in A k' a nr = (case k_ns k a of None \<Rightarrow> None
     | Some n \<Rightarrow> if 0 < kref n then idx_get (F a (A (pid_sl n))) nr else None)"
proof (cases "k_ns k a")
  case None
  moreover have "rel_option (ns_chg I A (F a) (C a)) (k_ns k a) (k_ns k' a)" using st by (simp add: ns_step_def)
  ultimately show ?thesis by (simp add: lookup_in_def)
next
  case (Some n)
  with st obtain n' where n': "k_ns k' a = Some n'" "ns_chg I A (F a) (C a) n n'" by (rule ns_step_at)
  show ?thesis
  proof (cases "0 < kref n")
    case True
    with Some wf have "I (pid_sl n)" by (auto simp: ns_wf_def live_def)
    with n' True Some show ?thesis by (simp add: lookup_in_def ns_chg_fields [OF n'(2)]) (simp add: ns_chg_def)
  next
    case False
    with n' Some show ?thesis by (simp add: lookup_in_def ns_chg_fields [OF n'(2)])
  qed
qed

end
