(* ===== verification/Pid_Alloc_Correct.thy ===== *)
theory Pid_Alloc_Correct
  imports Pid_Invariant
begin

text \<open>
  \<^verbatim>\<open>alloc_pid\<close> and \<^verbatim>\<open>free_pid\<close> as a whole: neither faults in a state that satisfies the invariant, both keep
  it, and what they do to the lookups of every number in every namespace.
\<close>

section \<open>The lookups after the loops\<close>

lemma undo_lookup:
  assumes "distinct (map u_ns us)" and "\<forall>u \<in> set us. u_ns u = a \<longrightarrow> idx_get m (u_nr u) = None"
  shows "idx_get (chg_all (\<lambda>nr m. m(nr := None)) (rev us) a (reserve_all us a m)) nr = idx_get m nr"
proof (cases "a \<in> u_ns ` set us")
  case True
  then obtain u where u: "u \<in> set us" "a = u_ns u" by auto
  have "distinct (map u_ns (rev us))" using assms(1) by (simp add: rev_map [symmetric])
  then have "chg_all (\<lambda>nr m. m(nr := None)) (rev us) a (reserve_all us a m) = (m(u_nr u \<mapsto> None))(u_nr u := None)"
    using u assms(1) by (simp add: chg_all_in fun_eq_iff)
  with u assms(2) show ?thesis by simp
qed (simp add: chg_all_notin)

lemma publish_lookup:
  assumes "distinct (map u_ns us)"
  shows "idx_get (chg_all (\<lambda>nr m. m(nr \<mapsto> Some p)) us a (reserve_all us a m)) nr
     = (if \<lparr>u_nr = nr, u_ns = a\<rparr> \<in> set us then Some p else idx_get m nr)"
proof (cases "a \<in> u_ns ` set us")
  case True
  then obtain u where u: "u \<in> set us" "a = u_ns u" by auto
  have "v = u" if "v \<in> set us" "u_ns v = a" for v
    using that u assms by (metis distinct_map inj_onD)
  then have "\<lparr>u_nr = nr, u_ns = a\<rparr> \<in> set us \<longleftrightarrow> nr = u_nr u"
    using u by (metis upid.select_convs upid.surjective old.unit.exhaust)
  moreover have "chg_all (\<lambda>nr m. m(nr \<mapsto> Some p)) us a (reserve_all us a m) = (m(u_nr u \<mapsto> None))(u_nr u \<mapsto> Some p)"
    using chg_all_in [OF assms u(1)] u(2) by metis
  ultimately show ?thesis by (simp only: idx_get_upd) simp
next
  case False
  then have "\<lparr>u_nr = nr, u_ns = a\<rparr> \<notin> set us" by (metis image_eqI upid.select_convs(2))
  with False show ?thesis by (simp add: chg_all_notin)
qed

text \<open>The numbers of a new pid sit at the levels of their namespaces.\<close>

lemma upath_nth:
  "upath k a i us \<Longrightarrow> d < length us \<Longrightarrow> \<exists>n. live k (u_ns (us ! d)) n \<and> ns_level n = i - d \<and> d \<le> i"
proof (induction us arbitrary: a i d)
  case (Cons u us)
  from Cons.prems(1) obtain n where n: "live k (u_ns u) n" "ns_level n = i" "us \<noteq> [] \<longrightarrow> 0 < i"
    "upath k (ns_parent n) (i - 1) us" by auto
  show ?case
  proof (cases d)
    case (Suc d')
    with Cons.prems(2) have "d' < length us" by simp
    with Cons.IH [OF n(4) this] n(3) Suc show ?thesis by fastforce
  qed (use n in auto)
qed simp

lemma upath_level_nth:
  assumes "upath k a i us" and "length us = Suc i" and "u \<in> set us" and "live k (u_ns u) n"
  shows "rev us ! ns_level n = u" and "ns_level n \<le> i"
proof -
  obtain d where d: "d < length us" "us ! d = u" using assms(3) by (auto simp: in_set_conv_nth)
  with upath_nth [OF assms(1) d(1)] assms(4) have l: "ns_level n = i - d" "d \<le> i" by (auto simp: live_def)
  with d assms(2) show "rev us ! ns_level n = u" "ns_level n \<le> i" by (auto simp: rev_nth)
qed

lemma upath_lives: "upath k a i us \<Longrightarrow> u \<in> set us \<Longrightarrow> \<exists>n. live k (u_ns u) n"
  using upath_level by blast

text \<open>Two steps with a change of reference counts in between.\<close>

lemma lookup_two_steps:
  assumes st: "ns_step I A F C k1 k2" and same: "ns_same k2 k3" and st': "ns_step I A G D k3 k4"
    and wf: "ns_wf I k1" and ns: "k_ns k1 = k_ns k"
  shows "lookup_in A k4 a nr = (case k_ns k a of None \<Rightarrow> None
     | Some n \<Rightarrow> if 0 < kref n then idx_get (G a (F a (A (pid_sl n)))) nr else None)"
proof -
  have wf2: "ns_wf I k2" and wf3: "ns_wf I k3" using ns_step_wf [OF st wf] ns_same_wf [OF same] by auto
  have v: "map_option ns_view (k_ns k2 a) = map_option ns_view (k_ns k3 a)" using same by (simp add: ns_same_def)
  have rel: "rel_option (ns_chg I A (F a) (C a)) (k_ns k a) (k_ns k2 a)" using st ns by (simp add: ns_step_def)
  show ?thesis
  proof (cases "k_ns k a")
    case None
    with rel v have "k_ns k3 a = None" by auto
    with None show ?thesis by (simp add: lookup_in_step [OF st' wf3])
  next
    case (Some n)
    with rel obtain n2 where n2: "k_ns k2 a = Some n2" "ns_chg I A (F a) (C a) n n2" by (auto simp: option_rel_Some1)
    with v obtain n3 where n3: "k_ns k3 a = Some n3" "ns_view n3 = ns_view n2" by (cases "k_ns k3 a") auto
    have kr: "0 < kref n3 \<longleftrightarrow> 0 < kref n" using n3(2) ns_chg_fields(1) [OF n2(2)] by (simp add: ns_view_def)
    have "A (pid_sl n3) = F a (A (pid_sl n))" if "0 < kref n"
      using that wf Some ns n2(2) n3(2) by (auto simp: ns_wf_def live_def ns_chg_def ns_view_def)
    with Some n3(1) kr show ?thesis by (simp add: lookup_in_step [OF st' wf3])
  qed
qed

lemma ns_same_level: "ns_same k k' \<Longrightarrow> live k' a n' \<Longrightarrow> \<exists>n. live k a n \<and> ns_level n = ns_level n'"
  using ns_same_live [OF ns_same_sym] by blast

lemma ns_step_level_back: "ns_step I A F C k k' \<Longrightarrow> live k' a n' \<Longrightarrow> \<exists>n. live k a n \<and> ns_level n = ns_level n'"
  by (erule (1) ns_step_live_back) (auto simp: ns_chg_fields)

lemma index_wf_transfer:
  assumes "index_wf A k" and "lookup_in A k' = lookup_in A k"
    and "\<And>a n'. live k' a n' \<Longrightarrow> \<exists>n. live k a n \<and> ns_level n = ns_level n'"
    and "\<And>p l u. pid_has k p l u \<Longrightarrow> pid_has k' p l u"
  shows "index_wf A k'"
  using assms unfolding index_wf_iff by metis

text \<open>
  What a successful allocation of \<open>p\<close> in the namespace at \<open>ns\<close> has done: \<open>p\<close> was not in use, it has one
  reference, no tasks, and a number in \<open>ns\<close> and in each of its ancestors; each number is in range, was
  free before and is now found to be \<open>p\<close>; no other lookup has changed; the counters of these
  namespaces have gone up by one, and the pid holds a reference to its namespace.
\<close>

definition ns_ref :: "nsaddr \<Rightarrow> nsaddr \<Rightarrow> nat" where
  "ns_ref ns a = (if a = ns \<and> a \<noteq> init_pid_ns then 1 else 0)"

definition alloc_done :: "('sl \<Rightarrow> idx) \<Rightarrow> 'sl kernel \<Rightarrow> nsaddr \<Rightarrow> nat \<Rightarrow> paddr \<Rightarrow> 'sl kernel \<Rightarrow> bool" where
  "alloc_done A k ns l p k' \<longleftrightarrow> k_pids k p = None \<and> ns_skel k' = ns_skel k \<and>
     (\<exists>P us. k_pids k' = (k_pids k)(p \<mapsto> P) \<and> p_count P = 1 \<and> p_level P = l \<and> (\<forall>t. p_tasks P t = []) \<and>
       p_numbers P = map Some (rev us) \<and> length us = Suc l \<and> upath k (Some ns) l us \<and>
       (\<forall>u \<in> set us. 1 \<le> u_nr u \<and> u_nr u < pid_max k \<and> lookup_in A k (u_ns u) (u_nr u) = None) \<and>
       (\<forall>a nr. lookup_in A k' a nr = (if \<lparr>u_nr = nr, u_ns = a\<rparr> \<in> set us then Some p else lookup_in A k a nr)) \<and>
       (\<forall>a m. k_ns k a = Some m \<longrightarrow> (\<exists>m'. k_ns k' a = Some m' \<and>
          pid_allocated m' = (if a \<in> u_ns ` set us then pid_allocated m + 1 else pid_allocated m) \<and>
          kref m' = kref m + ns_ref ns a)))"

text \<open>
  All that a call of \<^verbatim>\<open>alloc_pid\<close> may return, and why.  \<open>n\<close> is the namespace.  A call that fails leaves the pids
  and the lookups as they were, and keeps no reference.
\<close>

definition unchanged :: "('sl \<Rightarrow> idx) \<Rightarrow> 'sl kernel \<Rightarrow> 'sl kernel \<Rightarrow> bool" where
  "unchanged A k k' \<longleftrightarrow> k_pids k' = k_pids k \<and> lookup_in A k' = lookup_in A k \<and> ns_skel k' = ns_skel k \<and> ns_krefs k' = ns_krefs k"

definition alloc_result :: "kenv \<Rightarrow> ('sl \<Rightarrow> idx) \<Rightarrow> 'sl kernel \<Rightarrow> nsaddr \<Rightarrow> 'sl pid_namespace \<Rightarrow> paddr errptr \<Rightarrow> 'sl kernel
    \<Rightarrow> bool" where
  "alloc_result e A k ns n r k' \<longleftrightarrow> (case r of
       ValidPtr p \<Rightarrow> pid_allocated n AND PIDNS_ADDING \<noteq> 0 \<and> kmem_cache_alloc_ok e (k_tick k) \<and>
         alloc_done A k ns (ns_level n) p k'
     | NullPtr \<Rightarrow> (pid_allocated n AND PIDNS_ADDING = 0 \<or> (\<exists>t. pid_ns_prepare_proc e t ns \<noteq> 0)) \<and>
         unchanged A k k'
     | ErrPtr c \<Rightarrow> (c = - ENOMEM \<and> \<not> kmem_cache_alloc_ok e (k_tick k)
           \<or> c = -1 \<and> (mem_ok e \<longrightarrow> (\<exists>us. level_full A k ns (ns_level n) us))) \<and>
         unchanged A k k')"

lemma level_full_ns:
  assumes "level_full A k1 a i us" and "k_ns k1 = k_ns k" and "pid_max k1 = pid_max k"
  shows "level_full A k a i us"
proof -
  have same: "ns_same k1 k" by (rule ns_same_ns) (rule assms(2))
  have "live k b m = live k1 b m" for b m using assms(2) by (simp add: live_def)
  with assms ns_same_upath [OF same] show ?thesis unfolding level_full_def by metis
qed

section \<open>The phases of an allocation\<close>

context pid_kernel
begin

lemma alloc_out_free_ok:
  assumes wf: "ns_wf inv k" and n: "live k ns n" and Q: "k_pids k p = Some Q"
    and vs: "drop (nat (j + 1)) (p_numbers Q) = map Some vs" "-1 \<le> j" "int (length vs) = int (ns_level n) - j"
      "\<forall>v \<in> set vs. \<exists>m. live k (u_ns v) m"
  shows "\<exists>k'. alloc_out_free ops ns p j rv k = Some (ERR_PTR rv, k') \<and> k_pids k' = (k_pids k)(p := None) \<and>
     ns_step inv abs (chg_all (\<lambda>nr m. m(nr := None)) vs) (\<lambda>_ c. c) k (k'\<lparr>k_pids := k_pids k\<rparr>)"
proof -
  have na: "k_ns k ns = Some n" using n by (simp add: live_def)
  have len: "nat (int (ns_level n) - j) = length vs" using vs(3) by simp
  obtain k1 where k1: "alloc_unreserve ops p (nat (j + 1)) (length vs) k = Some k1"
     "ns_step inv abs (chg_all (\<lambda>nr m. m(nr := None)) vs) (\<lambda>_ c. c) k k1"
    using alloc_unreserve_ok [OF wf Q, of "nat (j + 1)" vs "[]"] vs(1,4) by auto
  obtain n1 where n1: "k_ns k1 ns = Some n1" using ns_step_at [OF k1(2) na] by blast
  define k2 where "k2 = (if pid_allocated n1 = PIDNS_ADDING
    then k1\<lparr>k_ns := (k_ns k1)(ns \<mapsto> n1\<lparr>last_pid := 0\<rparr>), k_tick := k_tick k1\<rparr> else k1)"
  have "ns_step inv abs (\<lambda>b. if b = ns then (\<lambda>m. m) else (\<lambda>m. m)) (\<lambda>b. if b = ns then (\<lambda>c. c) else (\<lambda>c. c)) k1
      (k1\<lparr>k_ns := (k_ns k1)(ns \<mapsto> n1\<lparr>last_pid := 0\<rparr>), k_tick := k_tick k1\<rparr>)"
    by (rule ns_step_one [OF n1, where sl' = "pid_sl n1" and lp = 0]) auto
  then have "ns_step inv abs (\<lambda>_ m. m) (\<lambda>_ c. c) k1 k2"
    by (simp add: k2_def ns_step_refl)
  with k1(2) have st: "ns_step inv abs (chg_all (\<lambda>nr m. m(nr := None)) vs) (\<lambda>_ c. c) k k2"
    using ns_step_trans by blast
  have kp: "k_pids k2 = k_pids k" by (rule ns_step_fields(1) [OF st])
  have "alloc_out_free ops ns p j rv k = Some (ERR_PTR rv, k2\<lparr>k_pids := (k_pids k2)(p := None)\<rparr>)"
    using na len k1(1) n1 by (simp add: alloc_out_free_def ns_upd_def k2_def)
  moreover have "k2\<lparr>k_pids := (k_pids k2)(p := None), k_pids := k_pids k\<rparr> = k2" by (simp add: kp [symmetric])
  with st have "ns_step inv abs (chg_all (\<lambda>nr m. m(nr := None)) vs) (\<lambda>_ c. c) k
      (k2\<lparr>k_pids := (k_pids k2)(p := None), k_pids := k_pids k\<rparr>)" by (simp only:)
  moreover have "k_pids (k2\<lparr>k_pids := (k_pids k2)(p := None)\<rparr>) = (k_pids k)(p := None)" by (simp add: kp)
  ultimately show ?thesis by blast
qed

text \<open>An allocation that gives up takes its reservations back and leaves no trace.\<close>

lemma alloc_undo:
  assumes ki: "kinv inv abs k" and n: "live k ns n"
    and st: "ns_step inv abs (reserve_all us) (\<lambda>_ c. c) k1 k2" and ns1: "k_ns k1 = k_ns k" and same: "ns_same k2 k3"
    and krefs: "ns_krefs k3 = ns_krefs k2"
    and Q: "k_pids k3 = (k_pids k)(k_brk k \<mapsto> Q)" "drop (nat (j + 1)) (p_numbers Q) = map Some (rev us)"
    and j: "-1 \<le> j" "int (length us) = int (ns_level n) - j"
    and us: "upath k (Some ns) (ns_level n) us"
      "\<forall>u \<in> set us. lookup_in abs k (u_ns u) (u_nr u) = None"
    and brk: "k_brk k \<le> k_brk k3"
  shows "\<exists>k'. alloc_out_free ops ns (k_brk k) j rv k3 = Some (ERR_PTR rv, k') \<and> kinv inv abs k' \<and>
     unchanged abs k k'"
proof -
  have wf: "ns_wf inv k" and pw: "pids_wf k" and iw: "index_wf abs k" and nb: "ns_bound k" using ki by (auto simp: kinv_def)
  have s1: "ns_same k k1" by (rule ns_same_ns) (simp add: ns1)
  have wf1: "ns_wf inv k1" by (rule ns_same_wf [OF s1 wf])
  have wf3: "ns_wf inv k3" by (rule ns_same_wf [OF same ns_step_wf [OF st wf1]])
  have up: "\<exists>m3. live k3 a m3 \<and> ns_level m3 = ns_level m" if "live k a m" for a m
    using ns_same_live [OF s1 that] ns_step_level [OF st] ns_same_live [OF same] by metis
  obtain n3 where n3: "live k3 ns n3" "ns_level n3 = ns_level n" using up [OF n] by blast
  have lives: "\<forall>v \<in> set (rev us). \<exists>m. live k3 (u_ns v) m" using upath_lives [OF us(1)] up by (metis set_rev)
  have p3: "k_pids k3 (k_brk k) = Some Q" using Q(1) by simp
  obtain k' where k': "alloc_out_free ops ns (k_brk k) j rv k3 = Some (ERR_PTR rv, k')"
     "k_pids k' = (k_pids k3)(k_brk k := None)"
     "ns_step inv abs (chg_all (\<lambda>nr m. m(nr := None)) (rev us)) (\<lambda>_ c. c) k3 (k'\<lparr>k_pids := k_pids k3\<rparr>)"
    using alloc_out_free_ok [OF wf3 n3(1) p3 Q(2) j(1) _ lives, of rv] j(2) n3(2) by auto
  let ?k = "k'\<lparr>k_pids := k_pids k3\<rparr>"
  have "k_pids k (k_brk k) = None" using pw by (cases "k_pids k (k_brk k)") (auto simp: pids_wf_def)
  then have pids: "k_pids k' = k_pids k" using k'(2) Q(1) by (simp add: fun_upd_idem)
  have same': "ns_same ?k k'" by (rule ns_same_ns) simp
  have look: "lookup_in abs k' = lookup_in abs k"
  proof (intro ext)
    fix a nr
    have free: "\<forall>u \<in> set us. u_ns u = a \<longrightarrow> idx_get (abs (pid_sl m)) (u_nr u) = None" if "live k a m" for m
      using us(2) lookup_in_live [OF that, of abs] by auto
    show "lookup_in abs k' a nr = lookup_in abs k a nr"
      unfolding lookup_in_same [OF same'] lookup_two_steps [OF st same k'(3) wf1 ns1]
      using undo_lookup [OF upath_distinct [OF us(1)] free]
      by (auto simp: lookup_in_def live_def split: option.splits)
  qed
  have lv: "\<exists>m. live k a m \<and> ns_level m = ns_level m'" if "live k' a m'" for a m'
    using that ns_same_level [OF same'] ns_step_level_back [OF k'(3)] ns_same_level [OF same]
      ns_step_level_back [OF st] ns_same_level [OF s1] by metis
  have "ns_wf inv k'" by (rule ns_same_wf [OF same' ns_step_wf [OF k'(3) wf3]])
  moreover have "k_brk ?k = k_brk k3" by (rule ns_step_fields(3) [OF k'(3)])
  then have "pids_wf k'" using pw brk pids by (fastforce simp: pids_wf_def)
  moreover have "dom (k_ns k') = dom (k_ns k)"
    using ns_same_dom [OF same'] ns_step_dom [OF k'(3)] ns_same_dom [OF same] ns_step_dom [OF st] ns1 by simp
  then have "ns_bound k'" using \<open>k_brk ?k = k_brk k3\<close> brk nb by (intro ns_bound_dom [of k' k]) simp_all
  moreover have "index_wf abs k'"
    by (rule index_wf_transfer [OF iw look lv]) (simp_all add: pid_has_def pids)
  moreover have "ns_skel k1 = ns_skel k" "ns_krefs k1 = ns_krefs k" "ns_krefs k' = ns_krefs ?k" "ns_skel k' = ns_skel ?k"
    using ns1 by (simp_all add: ns_skel_def ns_krefs_def fun_eq_iff)
  then have "ns_skel k' = ns_skel k" "ns_krefs k' = ns_krefs k"
    using ns_step_skel [OF k'(3)] ns_same_skel [OF same] krefs ns_step_skel [OF st] by simp_all
  ultimately show ?thesis using k'(1) pids look by (auto simp: kinv_def unchanged_def)
qed

lemma publish_index_wf:
  assumes iw: "index_wf abs k" and fresh: "k_pids k p = None" and pids: "k_pids k' = (k_pids k)(p \<mapsto> P)"
    and P: "p_numbers P = map Some (rev us)" "p_count P = 1" and us: "upath k (Some ns) l us" "length us = Suc l"
    and lev: "\<And>a m'. live k' a m' \<Longrightarrow> \<exists>m. live k a m \<and> ns_level m = ns_level m'"
    and look: "\<And>a nr. lookup_in abs k' a nr = (if \<lparr>u_nr = nr, u_ns = a\<rparr> \<in> set us then Some p else lookup_in abs k a nr)"
  shows "index_wf abs k'" unfolding index_wf_iff
proof (intro allI impI)
  fix a m' nr q assume m': "live k' a m'" and q: "lookup_in abs k' a nr = Some q"
  obtain m where m: "live k a m" "ns_level m = ns_level m'" using lev [OF m'] by blast
  show "pid_has k' q (ns_level m') \<lparr>u_nr = nr, u_ns = a\<rparr>"
  proof (cases "\<lparr>u_nr = nr, u_ns = a\<rparr> \<in> set us")
    case True
    then have "rev us ! ns_level m' = \<lparr>u_nr = nr, u_ns = a\<rparr>" "ns_level m' \<le> l"
      using upath_level_nth [OF us True, of m] m by simp_all
    with True q look us(2) P pids show ?thesis by (auto simp: pid_has_def pid_number_def)
  next
    case False
    then have "pid_has k q (ns_level m) \<lparr>u_nr = nr, u_ns = a\<rparr>" using q look iw m(1) by (simp add: index_wf_iff)
    with fresh m(2) pids show ?thesis by (auto simp: pid_has_def)
  qed
qed

lemma publish_counts:
  assumes st: "ns_step inv abs (reserve_all us) (\<lambda>_ c. c) k1 k2" and ns1: "k_ns k1 = k_ns k"
    and cnt: "\<And>a. map_option (\<lambda>m. (pid_allocated m, kref m)) (k_ns k3 a)
       = map_option (\<lambda>m. (pid_allocated m, kref m + ns_ref ns a)) (k_ns k2 a)"
    and st': "ns_step inv abs F (cnt_all (\<lambda>c. c + 1) us) k3 k'" and d: "distinct (map u_ns us)" and m: "k_ns k a = Some m"
  shows "\<exists>m'. k_ns k' a = Some m' \<and>
      pid_allocated m' = (if a \<in> u_ns ` set us then pid_allocated m + 1 else pid_allocated m) \<and> kref m' = kref m + ns_ref ns a"
proof -
  obtain m2 where m2: "k_ns k2 a = Some m2" "pid_allocated m2 = pid_allocated m" "kref m2 = kref m"
    using ns_step_counts [OF st, of a m] m ns1 by auto
  then obtain m3 where m3: "k_ns k3 a = Some m3" "pid_allocated m3 = pid_allocated m" "kref m3 = kref m + ns_ref ns a"
    using cnt [of a] by auto
  then obtain m' where "k_ns k' a = Some m'" "pid_allocated m' = cnt_all (\<lambda>c. c + 1) us a (pid_allocated m)"
     "kref m' = kref m + ns_ref ns a"
    using ns_step_counts [OF st' m3(1)] by auto
  then show ?thesis by (auto simp: cnt_all_notin cnt_all_in [OF d])
qed

lemma alloc_publish_done:
  assumes ki: "kinv inv abs k" and n: "live k ns n" and good: "\<forall>t. good (e_draw e t)"
    and st: "ns_step inv abs (reserve_all us) (\<lambda>_ c. c) k1 k2" and ns1: "k_ns k1 = k_ns k" and same: "ns_same k2 k3"
    and cnt: "\<And>a. map_option (\<lambda>m. (pid_allocated m, kref m)) (k_ns k3 a)
       = map_option (\<lambda>m. (pid_allocated m, kref m + ns_ref ns a)) (k_ns k2 a)"
    and P: "k_pids k3 = (k_pids k)(k_brk k \<mapsto> P)" "p_numbers P = map Some (rev us)" "p_count P = 1"
      "p_level P = ns_level n" "\<forall>t. p_tasks P t = []"
    and len: "length us = Suc (ns_level n)" and us: "upath k (Some ns) (ns_level n) us"
      "\<forall>u \<in> set us. 1 \<le> u_nr u \<and> u_nr u < pid_max k \<and> lookup_in abs k (u_ns u) (u_nr u) = None"
    and brk: "k_brk k < k_brk k3"
  shows "\<exists>k'. alloc_publish ops e (k_brk k) (Suc (ns_level n)) k3 = Some k' \<and> kinv inv abs k' \<and>
     alloc_done abs k ns (ns_level n) (k_brk k) k'"
proof -
  have wf: "ns_wf inv k" and pw: "pids_wf k" and iw: "index_wf abs k" and nb: "ns_bound k" using ki by (auto simp: kinv_def)
  have s1: "ns_same k k1" by (rule ns_same_ns) (simp add: ns1)
  have wf1: "ns_wf inv k1" by (rule ns_same_wf [OF s1 wf])
  have wf2: "ns_wf inv k2" by (rule ns_step_wf [OF st wf1])
  have wf3: "ns_wf inv k3" by (rule ns_same_wf [OF same wf2])
  have d: "distinct (map u_ns us)" by (rule upath_distinct [OF us(1)])
  have "\<forall>u \<in> set us. \<exists>m. live k3 (u_ns u) m \<and> u_nr u \<in> dom (abs (pid_sl m))"
  proof
    fix u assume u: "u \<in> set us"
    then obtain m where "live k1 (u_ns u) m" using upath_lives [OF us(1)] ns_same_live [OF s1] by blast
    from ns_step_map [OF st wf1 this] obtain m2 where m2: "live k2 (u_ns u) m2"
      "abs (pid_sl m2) = reserve_all us (u_ns u) (abs (pid_sl m))" by blast
    then have "u_nr u \<in> dom (abs (pid_sl m2))" using chg_all_in [OF d u] by (simp add: domIff)
    with ns_same_live [OF same m2(1)] show "\<exists>m. live k3 (u_ns u) m \<and> u_nr u \<in> dom (abs (pid_sl m))" by auto
  qed
  moreover have p3: "k_pids k3 (k_brk k) = Some P" using P(1) by simp
  ultimately obtain k' where k': "alloc_publish ops e (k_brk k) (length us) k3 = Some k'"
     "ns_step inv abs (chg_all (\<lambda>nr m. m(nr \<mapsto> Some (k_brk k))) us) (cnt_all (\<lambda>c. c + 1) us) k3 k'"
    using alloc_publish_ok [OF good wf3, of "k_brk k" P us] P(2) len by auto
  have fresh: "k_pids k (k_brk k) = None" using pw by (cases "k_pids k (k_brk k)") (auto simp: pids_wf_def)
  have pids: "k_pids k' = (k_pids k)(k_brk k \<mapsto> P)" using ns_step_fields(1) [OF k'(2)] P(1) by simp
  have look: "lookup_in abs k' a nr = (if \<lparr>u_nr = nr, u_ns = a\<rparr> \<in> set us then Some (k_brk k) else lookup_in abs k a nr)" for a nr
  proof -
    have "\<exists>m. live k a m" if "\<lparr>u_nr = nr, u_ns = a\<rparr> \<in> set us" using upath_lives [OF us(1) that] by simp
    then show ?thesis
      unfolding lookup_two_steps [OF st same k'(2) wf1 ns1] publish_lookup [OF d]
      by (auto simp: lookup_in_def live_def split: option.splits)
  qed
  have lev: "\<exists>m. live k a m \<and> ns_level m = ns_level m'" if "live k' a m'" for a m'
    using that ns_step_level_back [OF k'(2)] ns_same_level [OF same] ns_step_level_back [OF st] ns_same_level [OF s1] by metis
  have "index_wf abs k'" by (rule publish_index_wf [OF iw fresh pids P(2,3) us(1) len lev look])
  moreover have "pids_wf k'" using pw brk P(2,4) len pids ns_step_fields(3) [OF k'(2)] by (fastforce simp: pids_wf_def)
  moreover have "ns_wf inv k'" by (rule ns_step_wf [OF k'(2) wf3])
  moreover have "dom (k_ns k') = dom (k_ns k)"
    using ns_step_dom [OF k'(2)] ns_same_dom [OF same] ns_step_dom [OF st] ns1 by simp
  then have "ns_bound k'" using ns_step_fields(3) [OF k'(2)] brk nb by (intro ns_bound_dom [of k' k]) simp_all
  ultimately have "kinv inv abs k'" by (simp add: kinv_def)
  moreover have "ns_skel k1 = ns_skel k" using ns1 by (simp add: ns_skel_def fun_eq_iff)
  then have skel: "ns_skel k' = ns_skel k"
    using ns_step_skel [OF k'(2)] ns_same_skel [OF same] ns_step_skel [OF st] by simp
  moreover have "alloc_done abs k ns (ns_level n) (k_brk k) k'"
    unfolding alloc_done_def using skel fresh pids P(2-5) len us look publish_counts [OF st ns1 cnt k'(2) d] by blast
  ultimately show ?thesis using k'(1) len by auto
qed

text \<open>The last part of \<^verbatim>\<open>alloc_pid\<close>: it publishes the pid, or gives up if allocation has been disabled.\<close>

lemma alloc_commit_ok:
  assumes ki: "kinv inv abs k" and n: "live k ns n" and good: "\<forall>t. good (e_draw e t)"
    and st: "ns_step inv abs (reserve_all us) (\<lambda>_ c. c) k1 k2" and ns1: "k_ns k1 = k_ns k"
    and k3: "k3 = k2\<lparr>k_tick := t\<rparr>"
    and Q: "k_pids k2 = (k_pids k)(k_brk k \<mapsto> Q)" "p_numbers Q = map Some (rev us)" "p_level Q = ns_level n"
    and len: "length us = Suc (ns_level n)" and us: "upath k (Some ns) (ns_level n) us"
      "\<forall>u \<in> set us. 1 \<le> u_nr u \<and> u_nr u < pid_max k \<and> lookup_in abs k (u_ns u) (u_nr u) = None"
    and brk: "k_brk k < k_brk k2"
  shows "\<exists>r k'. alloc_commit ops e ns (k_brk k) 0 k3 = Some (r, k') \<and> kinv inv abs k' \<and>
     (if pid_allocated n AND PIDNS_ADDING = 0
      then r = NullPtr \<and> unchanged abs k k'
      else r = ValidPtr (k_brk k) \<and> alloc_done abs k ns (ns_level n) (k_brk k) k')"
proof -
  let ?P = "Q\<lparr>p_count := 1, p_tasks := \<lambda>_. []\<rparr>"
  have "live k1 ns n" using n ns1 by (simp add: live_def)
  from ns_step_live [OF st this] obtain n2 where n2: "live k2 ns n2" "ns_chg inv abs (reserve_all us ns) (\<lambda>c. c) n n2" .
  then have n3: "live k3 ns n2" by (simp add: k3 live_def)
  obtain k4 where k4: "get_pid_ns ns k3 = Some k4" "ns_same k3 k4" "k4 = k3\<lparr>k_ns := k_ns k4\<rparr>"
     "k_ns k4 = (if ns = init_pid_ns then k_ns k3 else (k_ns k3)(ns \<mapsto> n2\<lparr>kref := Suc (kref n2)\<rparr>))"
    using get_pid_ns_ok [OF n3] by blast
  define k5 where "k5 = k4\<lparr>k_pids := (k_pids k4)(k_brk k \<mapsto> ?P)\<rparr>"
  have p4: "k_pids k4 = k_pids k2" "k_brk k4 = k_brk k2"
    using k4(3) [THEN arg_cong, of k_pids] k4(3) [THEN arg_cong, of k_brk] by (simp_all add: k3)
  have p5: "pid_upd k4 (k_brk k) (\<lambda>P. P\<lparr>p_count := 1, p_tasks := \<lambda>_. []\<rparr>) = Some k5"
    using p4 Q(1) by (simp add: pid_upd_def k5_def)
  have same23: "ns_same k2 k3" by (rule ns_same_ns) (simp add: k3)
  have same5: "ns_same k2 k5"
    by (rule ns_same_trans [OF same23 ns_same_trans [OF k4(2) ns_same_ns]]) (simp add: k5_def)
  have ka: "map_option (\<lambda>m. (pid_allocated m, kref m)) (k_ns k5 a)
      = map_option (\<lambda>m. (pid_allocated m, kref m + ns_ref ns a)) (k_ns k2 a)" for a
    using n2(1) k4(4) by (auto simp: k5_def k3 live_def ns_ref_def)
  obtain n5 where n5: "k_ns k5 ns = Some n5" "pid_allocated n5 = pid_allocated n" "ns_level n5 = ns_level n"
    using ka [of ns] ns_same_live [OF same5 n2(1)] n2 ns_chg_fields [OF n2(2)] by (auto simp: live_def)
  have pids5: "k_pids k5 = (k_pids k)(k_brk k \<mapsto> ?P)" using p4 Q(1) by (simp add: k5_def)
  have com: "alloc_commit ops e ns (k_brk k) 0 k3 =
     (if pid_allocated n AND PIDNS_ADDING = 0 then do {
        k6 \<leftarrow> put_pid_ns ops (Some ns) k5; alloc_out_free ops ns (k_brk k) (-1) 0 k6 }
      else do { k6 \<leftarrow> alloc_publish ops e (k_brk k) (Suc (ns_level n)) k5; Some (ValidPtr (k_brk k), k6) })"
    using k4(1) p5 n5 by (simp add: alloc_commit_def)
  show ?thesis
  proof (cases "pid_allocated n AND PIDNS_ADDING = 0")
    case True
    have "ns \<noteq> init_pid_ns \<Longrightarrow> k_ns k5 ns = Some n5 \<and> 1 < kref n5"
      using n5(1) k4(4) n2(1) by (auto simp: k5_def live_def)
    from put_pid_ns_back [OF this, of ops] obtain k6 where k6: "put_pid_ns ops (Some ns) k5 = Some k6"
      "k6 = (if ns = init_pid_ns then k5 else k5\<lparr>k_ns := (k_ns k5)(ns \<mapsto> n5\<lparr>kref := kref n5 - 1\<rparr>)\<rparr>)" by blast
    have "ns_same k5 k6"
      using ns_same_kref [of k5 ns n5 "kref n5 - 1"] n5(1) k4(4) n2(1) by (auto simp: k6(2) k5_def live_def)
    then have same6: "ns_same k2 k6" by (rule ns_same_trans [OF same5])
    have "k_pids k6 = (k_pids k)(k_brk k \<mapsto> ?P)" "k_brk k \<le> k_brk k6"
      using pids5 brk p4(2) by (simp_all add: k6(2) k5_def)
    moreover have "ns_krefs k6 = ns_krefs k2"
      using n5(1) k4(4) n2(1) by (auto simp: ns_krefs_def fun_eq_iff k6(2) k5_def k3 live_def)
    ultimately have "\<exists>k'. alloc_out_free ops ns (k_brk k) (-1) 0 k6 = Some (ERR_PTR 0, k') \<and> kinv inv abs k' \<and> unchanged abs k k'"
      using alloc_undo [OF ki n st ns1 same6 _ _ _ _ _ us(1), where Q = ?P and j = "-1" and rv = 0] Q(2) len us(2) by simp
    then show ?thesis using True com k6(1) by (auto simp: ERR_PTR_def)
  next
    case False
    have P: "p_numbers ?P = map Some (rev us)" "p_count ?P = 1" "p_level ?P = ns_level n" "\<forall>t. p_tasks ?P t = []"
      and brk5: "k_brk k < k_brk k5"
      using Q(2,3) brk p4(2) by (simp_all add: k5_def)
    obtain k' where k': "alloc_publish ops e (k_brk k) (Suc (ns_level n)) k5 = Some k'" "kinv inv abs k'"
      "alloc_done abs k ns (ns_level n) (k_brk k) k'"
      using alloc_publish_done [OF ki n good st ns1 same5 ka pids5 P len us brk5] by blast
    have "alloc_commit ops e ns (k_brk k) 0 k3 = Some (ValidPtr (k_brk k), k')"
      unfolding com k'(1) using False by simp
    with k'(2,3) False show ?thesis by auto
  qed
qed


text \<open>The first part of \<^verbatim>\<open>alloc_pid\<close>: a new pid and its reservations.\<close>

lemma alloc_reserve:
  assumes ki: "kinv inv abs k" and n: "live k ns n" and good: "\<forall>t. good (e_draw e t)"
  obtains k1 k1' k2 j us Q where "new_pid (ns_level n) (tick k) = (k_brk k, k1)"
    and "alloc_levels ops e (k_brk k) (Suc (ns_level n)) (Some ns) (- ENOMEM) k1
       = Some (j, if j = -1 then 0 else -1, k2)"
    and "-1 \<le> j" and "int (length us) = int (ns_level n) - j"
    and "ns_step inv abs (reserve_all us) (\<lambda>_ c. c) k1' k2" and "k_ns k1' = k_ns k"
    and "k_pids k2 = (k_pids k)(k_brk k \<mapsto> Q)" and "k_brk k < k_brk k2"
    and "p_numbers Q = replicate (nat (j + 1)) None @ map Some (rev us)" and "p_level Q = ns_level n"
    and "upath k (Some ns) (ns_level n) us"
    and "\<forall>u \<in> set us. 1 \<le> u_nr u \<and> u_nr u < pid_max k \<and> lookup_in abs k (u_ns u) (u_nr u) = None"
    and "mem_ok e \<and> j \<noteq> -1 \<longrightarrow> level_full abs k ns (ns_level n) us"
proof -
  let ?l = "ns_level n" and ?p = "k_brk k"
  define P where "P = \<lparr>p_count = 0, p_level = ?l, p_tasks = (\<lambda>_. []), p_numbers = replicate (Suc ?l) None\<rparr>"
  define k1 where "k1 = (tick k)\<lparr>k_brk := Suc ?p, k_pids := (k_pids k)(?p \<mapsto> P)\<rparr>"
  have new: "new_pid ?l (tick k) = (?p, k1)" by (simp add: new_pid_def k1_def P_def tick_def)
  have ns1: "k_ns k1 = k_ns k" and pm1: "pid_max k1 = pid_max k" and p1: "k_pids k1 ?p = Some P"
    by (simp_all add: k1_def tick_def)
  have same1: "ns_same k k1" by (rule ns_same_ns) (simp add: ns1)
  have n1: "live k1 ns n" using n ns1 by (simp add: live_def)
  have wf1: "ns_wf inv k1" using ki ns_same_wf [OF same1] by (simp add: kinv_def)
  obtain j rv us k2 where lv: "alloc_levels ops e ?p (Suc ?l) (Some ns) (- ENOMEM) k1 = Some (j, rv, k2)"
    "levels_result e inv abs k1 ns ?l ?p P j rv us k2"
    using alloc_levels_ok [OF good wf1 n1 refl p1, of "- ENOMEM"] by (auto simp: P_def)
  define Q where "Q = P\<lparr>p_numbers := replicate (nat (j + 1)) None @ map Some (rev us)\<rparr>"
  have j: "-1 \<le> j" "j \<le> int ?l" "int (length us) = int ?l - j" "rv = (if j = -1 then 0 else -1)"
    using lv(2) by (simp_all add: levels_result_def)
  have "take (nat (j + 1)) (p_numbers P) = replicate (nat (j + 1)) None" "drop (Suc ?l) (p_numbers P) = []"
    using j(1,2) by (simp_all add: P_def min_def del: replicate_Suc)
  then have "P\<lparr>p_numbers := take (nat (j + 1)) (p_numbers P) @ map Some (rev us) @ drop (Suc ?l) (p_numbers P)\<rparr> = Q"
    by (simp only: Q_def append_Nil2)
  then have st: "ns_step inv abs (reserve_all us) (\<lambda>_ c. c) (k1\<lparr>k_pids := (k_pids k1)(?p \<mapsto> Q)\<rparr>) k2"
    using lv(2) by (simp add: levels_result_def)
  show ?thesis
  proof (rule that [OF new _ j(1,3) st])
    show "alloc_levels ops e ?p (Suc ?l) (Some ns) (- ENOMEM) k1 = Some (j, if j = -1 then 0 else -1, k2)"
      using lv(1) j(4) by (simp del: alloc_levels.simps)
    show "k_pids k2 = (k_pids k)(?p \<mapsto> Q)" "?p < k_brk k2"
      using ns_step_fields(1,3) [OF st] by (simp_all add: k1_def)
    show "upath k (Some ns) ?l us"
      using lv(2) ns_same_upath [OF ns_same_sym [OF same1]] by (simp add: levels_result_def)
    show "\<forall>u \<in> set us. 1 \<le> u_nr u \<and> u_nr u < pid_max k \<and> lookup_in abs k (u_ns u) (u_nr u) = None"
      using lv(2) lookup_in_live [of k] ns1 pm1 by (fastforce simp: levels_result_def live_def)
    show "mem_ok e \<and> j \<noteq> -1 \<longrightarrow> level_full abs k ns ?l us"
      using lv(2) level_full_ns [OF _ ns1 pm1] by (auto simp: levels_result_def)
  qed (simp_all add: ns1 Q_def P_def)
qed

lemma kinv_tick:
  assumes "kinv inv abs k"
  shows "kinv inv abs (tick k)" and "unchanged abs k (tick k)"
proof -
  have same: "ns_same k (tick k)" by (rule ns_same_ns) (simp add: tick_def)
  then show "kinv inv abs (tick k)" using assms ns_same_wf
    by (auto simp: kinv_def index_wf_def pids_wf_def live_def pid_has_def ns_bound_def tick_def)
  have "k_pids (tick k) = k_pids k" "ns_krefs (tick k) = ns_krefs k" by (simp_all add: tick_def ns_krefs_def fun_eq_iff)
  then show "unchanged abs k (tick k)" using lookup_in_same [OF same] ns_same_skel [OF same] by (simp add: unchanged_def)
qed

text \<open>The whole of \<^verbatim>\<open>alloc_pid\<close>.\<close>

theorem alloc_pid_ok:
  assumes ki: "kinv inv abs k" and n: "live k ns n" and good: "\<forall>t. good (e_draw e t)"
  shows "\<exists>r k'. alloc_pid ops e ns k = Some (r, k') \<and> kinv inv abs k' \<and> alloc_result e abs k ns n r k'"
proof (cases "kmem_cache_alloc_ok e (k_tick k)")
  case False
  have "op_header ops (pid_sl n) \<noteq> None" using ki n header by (auto simp: kinv_def ns_wf_def)
  with False n kinv_tick [OF ki] show ?thesis
    by (auto simp: alloc_pid_def alloc_result_def ERR_PTR_def live_def)
next
  case True
  let ?l = "ns_level n" and ?p = "k_brk k"
  have hd: "op_header ops (pid_sl n) \<noteq> None" using ki n header by (auto simp: kinv_def ns_wf_def)
  obtain k1 k1' k2 j us Q where new: "new_pid ?l (tick k) = (?p, k1)"
    and lv: "alloc_levels ops e ?p (Suc ?l) (Some ns) (- ENOMEM) k1 = Some (j, if j = -1 then 0 else -1, k2)"
    and j: "-1 \<le> j" "int (length us) = int ?l - j"
    and st: "ns_step inv abs (reserve_all us) (\<lambda>_ c. c) k1' k2" and ns1: "k_ns k1' = k_ns k"
    and pids2: "k_pids k2 = (k_pids k)(?p \<mapsto> Q)" and brk2: "?p < k_brk k2"
    and Q: "p_numbers Q = replicate (nat (j + 1)) None @ map Some (rev us)" "p_level Q = ?l"
    and up: "upath k (Some ns) ?l us"
    and free: "\<forall>u \<in> set us. 1 \<le> u_nr u \<and> u_nr u < pid_max k \<and> lookup_in abs k (u_ns u) (u_nr u) = None"
    and full: "mem_ok e \<and> j \<noteq> -1 \<longrightarrow> level_full abs k ns ?l us"
    by (rule alloc_reserve [OF ki n good])
  have undo: "\<exists>k'. alloc_out_free ops ns ?p j rv (k2\<lparr>k_tick := t\<rparr>) = Some (ERR_PTR rv, k') \<and> kinv inv abs k' \<and>
     unchanged abs k k'" for t rv
    by (rule alloc_undo [OF ki n st ns1, where Q = Q])
      (use pids2 brk2 j up free Q in \<open>auto simp: ns_same_ns ns_krefs_def fun_eq_iff\<close>)
  have ap: "alloc_pid ops e ns k = (if 0 \<le> j then alloc_out_free ops ns ?p j (-1) k2
     else do { reaper \<leftarrow> is_child_reaper ?p k2;
       if reaper \<and> pid_ns_prepare_proc e (k_tick k2) ns \<noteq> 0
       then alloc_out_free ops ns ?p (-1) 0 (tick k2)
       else alloc_commit ops e ns ?p 0 (if reaper then tick k2 else k2) })"
    using True n hd new lv j(1) by (auto simp: alloc_pid_def live_def simp del: alloc_levels.simps)
  show ?thesis
  proof (cases "0 \<le> j")
    case True
    with undo [of "-1" "k_tick k2"] full show ?thesis
      unfolding ap by (auto simp: alloc_result_def ERR_PTR_def)
  next
    case False
    then have jm: "j = -1" and len: "length us = Suc ?l" using j by auto
    then obtain b where b: "is_child_reaper ?p k2 = Some b"
      using pids2 Q by (cases us) (auto simp: is_child_reaper_def pid_number_def nth_append)
    define t where "t = (if b then Suc (k_tick k2) else k_tick k2)"
    have kt: "(if b then tick k2 else k2) = k2\<lparr>k_tick := t\<rparr>" by (simp add: t_def tick_def)
    show ?thesis
    proof (cases "b \<and> pid_ns_prepare_proc e (k_tick k2) ns \<noteq> 0")
      case True
      with undo [of 0 "Suc (k_tick k2)"] jm b show ?thesis
        unfolding ap by (auto simp: alloc_result_def ERR_PTR_def tick_def)
    next
      case nb: False
      then have "alloc_pid ops e ns k = alloc_commit ops e ns ?p 0 (k2\<lparr>k_tick := t\<rparr>)"
        unfolding ap using jm b kt by auto
      moreover have "p_numbers Q = map Some (rev us)" using jm Q by simp
      ultimately show ?thesis
        using alloc_commit_ok [OF ki n good st ns1 refl pids2 _ Q(2) len up free brk2, of t] True
        by (auto simp: alloc_result_def split: if_splits)
    qed
  qed
qed

end

end
