(* ===== verification/Pid_Free_Correct.thy ===== *)
theory Pid_Free_Correct
  imports Pid_Alloc_Correct
begin

text \<open>
  \<^verbatim>\<open>free_pid\<close> as a whole, and an allocation followed by it.
\<close>

section \<open>The effect of free\_pid\<close>

text \<open>
  \<open>vs\<close> are the numbers of the pid at \<open>p\<close>, from level 0 on, in namespaces that are live.
\<close>

definition pid_numbered :: "'sl kernel \<Rightarrow> paddr \<Rightarrow> upid list \<Rightarrow> bool" where
  "pid_numbered k p vs \<longleftrightarrow> (\<exists>P. k_pids k p = Some P \<and> p_numbers P = map Some vs \<and> length vs = Suc (p_level P)) \<and>
     distinct (map u_ns vs) \<and> (\<forall>u \<in> set vs. \<exists>n. live k (u_ns u) n)"

text \<open>
  The numbers are no longer found, no other lookup has changed; the counters have been decremented,
  with the reset to zero of a namespace that had no other pid; the tasks to wake and the work to
  schedule are logged in the order of the levels; and the last reference is dropped after a grace
  period.
\<close>

definition free_done :: "('sl \<Rightarrow> idx) \<Rightarrow> 'sl kernel \<Rightarrow> paddr \<Rightarrow> upid list \<Rightarrow> 'sl kernel \<Rightarrow> bool" where
  "free_done A k p vs k' \<longleftrightarrow> k_pids k' = k_pids k \<and> k_tasks k' = k_tasks k \<and> k_signals k' = k_signals k \<and>
     ns_skel k' = ns_skel k \<and> ns_krefs k' = ns_krefs k \<and>
     (\<forall>a nr. lookup_in A k' a nr = (if \<lparr>u_nr = nr, u_ns = a\<rparr> \<in> set vs then None else lookup_in A k a nr)) \<and>
     (\<forall>a m. k_ns k a = Some m \<longrightarrow> (\<exists>m'. k_ns k' a = Some m' \<and>
        pid_allocated m' = (if a \<in> u_ns ` set vs then free_count (pid_allocated m) else pid_allocated m))) \<and>
     k_events k' = k_events k @ concat (map (free_events k) vs) \<and>
     k_rcu k' = k_rcu k @ [DelayedPutPid p]"

lemma remove_lookup:
  assumes "distinct (map u_ns vs)"
  shows "idx_get (chg_all (\<lambda>nr m. m(nr := None)) vs a m) nr = (if \<lparr>u_nr = nr, u_ns = a\<rparr> \<in> set vs then None else idx_get m nr)"
proof (cases "a \<in> u_ns ` set vs")
  case True
  then obtain u where u: "u \<in> set vs" "a = u_ns u" by auto
  have "v = u" if "v \<in> set vs" "u_ns v = a" for v
    using that u assms by (metis distinct_map inj_onD)
  then have "\<lparr>u_nr = nr, u_ns = a\<rparr> \<in> set vs \<longleftrightarrow> nr = u_nr u"
    using u by (metis upid.select_convs upid.surjective old.unit.exhaust)
  moreover have "chg_all (\<lambda>nr m. m(nr := None)) vs a m = m(u_nr u := None)"
    using chg_all_in [OF assms u(1)] u(2) by metis
  ultimately show ?thesis by (simp only: idx_get_del)
next
  case False
  then have "\<lparr>u_nr = nr, u_ns = a\<rparr> \<notin> set vs" by (metis image_eqI upid.select_convs(2))
  with False show ?thesis by (simp add: chg_all_notin)
qed

lemma index_wf_less:
  assumes "index_wf A k" and "\<And>a nr q. lookup_in A k' a nr = Some q \<Longrightarrow> lookup_in A k a nr = Some q"
    and "\<And>a n'. live k' a n' \<Longrightarrow> \<exists>n. live k a n \<and> ns_level n = ns_level n'" and "k_pids k' = k_pids k"
  shows "index_wf A k'"
  using assms(1) unfolding index_wf_iff
  by (intro allI impI) (metis assms(2) assms(3) assms(4) pid_has_def)

context pid_kernel
begin

theorem free_pid_ok:
  assumes ki: "kinv inv abs k" and pn: "pid_numbered k p vs"
  shows "\<exists>k'. free_pid ops p k = Some k' \<and> kinv inv abs k' \<and> free_done abs k p vs k'"
proof -
  have wf: "ns_wf inv k" using ki by (simp add: kinv_def)
  obtain P where P: "k_pids k p = Some P" "p_numbers P = map Some vs" "length vs = Suc (p_level P)"
    and d: "distinct (map u_ns vs)" and lv: "\<forall>u \<in> set vs. \<exists>n. live k (u_ns u) n"
    using pn by (auto simp: pid_numbered_def)
  obtain k1 where k1: "free_pid_levels ops p 0 (length vs) k = Some k1"
     "k_events k1 = k_events k @ concat (map (free_events k) vs)"
     "ns_step inv abs (chg_all (\<lambda>nr m. m(nr := None)) vs) (cnt_all free_count vs) (k\<lparr>k_events := k_events k1\<rparr>) k1"
    using free_pid_levels_ok [OF wf P(1), of 0 vs "[]"] P(2) d lv by auto
  let ?k = "k\<lparr>k_events := k_events k1\<rparr>" and ?k' = "call_rcu (DelayedPutPid p) k1"
  have s0: "ns_same k ?k" "ns_same k1 ?k'" by (rule ns_same_ns; simp add: call_rcu_def)+
  have wf0: "ns_wf inv ?k" by (rule ns_same_wf [OF s0(1) wf])
  have fs: "free_pid ops p k = Some ?k'"
    using P(1,3) k1(1) by (simp add: free_pid_def del: free_pid_levels.simps)
  have look: "lookup_in abs ?k' a nr = (if \<lparr>u_nr = nr, u_ns = a\<rparr> \<in> set vs then None else lookup_in abs k a nr)" for a nr
    unfolding lookup_in_same [OF s0(2)] lookup_in_step [OF k1(3) wf0] remove_lookup [OF d]
    by (auto simp: lookup_in_def split: option.splits)
  have kp: "k_pids ?k' = k_pids k" "k_tasks ?k' = k_tasks k" "k_brk ?k' = k_brk k" "k_rcu ?k' = k_rcu k @ [DelayedPutPid p]"
    "k_events ?k' = k_events k1" "k_signals ?k' = k_signals k"
    using ns_step_fields [OF k1(3)] by (simp_all add: call_rcu_def)
  have cnt: "\<exists>m'. k_ns ?k' a = Some m' \<and>
      pid_allocated m' = (if a \<in> u_ns ` set vs then free_count (pid_allocated m) else pid_allocated m)"
    if m: "k_ns k a = Some m" for a m
  proof -
    have "k_ns ?k a = Some m" using m by simp
    then obtain m' where "k_ns k1 a = Some m'" "pid_allocated m' = cnt_all free_count vs a (pid_allocated m)"
      using ns_step_counts [OF k1(3)] by metis
    then show ?thesis by (auto simp: call_rcu_def cnt_all_notin cnt_all_in [OF d])
  qed
  have "\<exists>m. live k a m \<and> ns_level m = ns_level m'" if "live ?k' a m'" for a m'
    using that ns_same_level [OF s0(2)] ns_step_level_back [OF k1(3)] ns_same_level [OF s0(1)] by metis
  then have "index_wf abs ?k'"
    by (rule index_wf_less [of abs k, rotated 2]) (use ki look kp in \<open>auto simp: kinv_def split: if_splits\<close>)
  moreover have "ns_wf inv ?k'" by (rule ns_same_wf [OF s0(2) ns_step_wf [OF k1(3) wf0]])
  moreover have "pids_wf ?k'" using ki kp by (simp add: kinv_def pids_wf_def)
  moreover have "dom (k_ns ?k') = dom (k_ns k)"
    using ns_same_dom [OF s0(2)] ns_step_dom [OF k1(3)] ns_same_dom [OF s0(1)] by simp
  then have "ns_bound ?k'" using ki kp(3) by (intro ns_bound_dom [of ?k' k]) (simp_all add: kinv_def)
  ultimately have "kinv inv abs ?k'" by (simp add: kinv_def)
  moreover have "ns_skel ?k' = ns_skel k1" "ns_krefs ?k' = ns_krefs k1" "ns_skel ?k = ns_skel k" "ns_krefs ?k = ns_krefs k"
    by (simp_all add: ns_skel_def ns_krefs_def fun_eq_iff call_rcu_def)
  then have skel: "ns_skel ?k' = ns_skel k" "ns_krefs ?k' = ns_krefs k" using ns_step_skel [OF k1(3)] by simp_all
  moreover have "free_done abs k p vs ?k'"
    unfolding free_done_def using skel kp(1,2,4-6) k1(2) by (intro conjI allI impI look cnt) simp_all
  ultimately show ?thesis using fs by blast
qed

end

section \<open>Allocate and free\<close>

text \<open>A pid that was just allocated has its numbers in live namespaces.\<close>

lemma alloc_done_numbered:
  assumes d: "alloc_done A k ns l p k'"
  shows "\<exists>vs. pid_numbered k' p vs \<and> length vs = Suc l \<and>
     (\<forall>a nr. lookup_in A k' a nr = (if \<lparr>u_nr = nr, u_ns = a\<rparr> \<in> set vs then Some p else lookup_in A k a nr)) \<and>
     (\<forall>u \<in> set vs. lookup_in A k (u_ns u) (u_nr u) = None)"
proof -
  obtain P us where a: "k_pids k' = (k_pids k)(p \<mapsto> P)" "p_level P = l" "p_numbers P = map Some (rev us)"
     "length us = Suc l" "upath k (Some ns) l us"
     "\<forall>a m. k_ns k a = Some m \<longrightarrow> (\<exists>m'. k_ns k' a = Some m' \<and>
          pid_allocated m' = (if a \<in> u_ns ` set us then pid_allocated m + 1 else pid_allocated m) \<and>
          kref m' = kref m + ns_ref ns a)"
     "\<forall>u \<in> set us. lookup_in A k (u_ns u) (u_nr u) = None"
     "\<forall>a nr. lookup_in A k' a nr = (if \<lparr>u_nr = nr, u_ns = a\<rparr> \<in> set us then Some p else lookup_in A k a nr)"
    using d unfolding alloc_done_def by blast
  have lv: "\<exists>n'. live k' a n'" if "live k a n" for a n using a(6) that by (fastforce simp: live_def)
  have "distinct (map u_ns (rev us))" using upath_distinct [OF a(5)] by (simp add: rev_map [symmetric])
  moreover have "\<forall>u \<in> set (rev us). \<exists>n. live k' (u_ns u) n" using upath_lives [OF a(5)] lv by (metis set_rev)
  ultimately have "pid_numbered k' p (rev us)" using a(1-4) by (auto simp: pid_numbered_def)
  with a(4,7,8) show ?thesis by (intro exI [of _ "rev us"]) simp
qed

context pid_kernel
begin

text \<open>Freeing a pid right after its allocation takes every lookup back to what it was.\<close>

theorem alloc_free_ok:
  assumes ki: "kinv inv abs k" and n: "live k ns n" and good: "\<forall>t. good (e_draw e t)"
    and al: "alloc_pid ops e ns k = Some (ValidPtr p, k1)"
  shows "\<exists>k2. free_pid ops p k1 = Some k2 \<and> kinv inv abs k2 \<and> lookup_in abs k2 = lookup_in abs k"
proof -
  have k1: "kinv inv abs k1" "alloc_done abs k ns (ns_level n) p k1"
    using alloc_pid_ok [OF ki n good] al by (auto simp: alloc_result_def)
  obtain vs where vs: "pid_numbered k1 p vs"
     "\<forall>a nr. lookup_in abs k1 a nr = (if \<lparr>u_nr = nr, u_ns = a\<rparr> \<in> set vs then Some p else lookup_in abs k a nr)"
     "\<forall>u \<in> set vs. lookup_in abs k (u_ns u) (u_nr u) = None"
    using alloc_done_numbered [OF k1(2)] by blast
  obtain k2 where k2: "free_pid ops p k1 = Some k2" "kinv inv abs k2" "free_done abs k1 p vs k2"
    using free_pid_ok [OF k1(1) vs(1)] by blast
  have "lookup_in abs k2 a nr = lookup_in abs k a nr" for a nr
    using k2(3) vs(2) vs(3) [rule_format, of "\<lparr>u_nr = nr, u_ns = a\<rparr>"] by (simp add: free_done_def)
  then have "lookup_in abs k2 = lookup_in abs k" by (simp add: fun_eq_iff)
  with k2(1,2) show ?thesis by blast
qed

end

end
