(* ===== verification/Pid_Namespace.thy ===== *)
theory Pid_Namespace
  imports Pid_Tasks
begin

text \<open>
  Model of the rest of \<^verbatim>\<open>pid_namespace.c\<close>: creation of namespaces, their shutdown, the handlers of
  \<^verbatim>\<open>ns_last_pid\<close> and of reboot, and the operations of \<^verbatim>\<open>/proc/<pid>/ns\<close>.  \<^verbatim>\<open>to_pid_ns\<close> and the
  \<^verbatim>\<open>container_of\<close> of the callbacks are the identity, because a structure embedded in a namespace has the
  address of the namespace.
\<close>

section \<open>Creation\<close>

definition CLONE_NEWPID :: "64 word" where
  "CLONE_NEWPID = 0x20000000"

text \<open>\<^verbatim>\<open>pid_cache[level - 1]\<close> is a fault out of the bounds of the array.\<close>

definition create_pid_cachep :: "kenv \<Rightarrow> nat \<Rightarrow> 'sl kernel \<Rightarrow> (nat option \<times> 'sl kernel) option" where
  "create_pid_cachep e level k =
     (if level = 0 \<or> MAX_PID_NS_LEVEL < level then None
      else (case pid_cache k (level - 1) of
          Some kc \<Rightarrow> Some (Some kc, k)
        | None \<Rightarrow>
            let kc = kmem_cache_create e (k_tick k) level
            in Some (kc, tick (k\<lparr>pid_cache := (pid_cache k)(level - 1 := kc)\<rparr>))))"

definition proc_cleanup_work :: "nsaddr \<Rightarrow> 'sl kernel \<Rightarrow> 'sl kernel" where
  "proc_cleanup_work ns k = log_event (ReleaseProc ns) k"

definition inc_pid_namespaces :: "kenv \<Rightarrow> nat \<Rightarrow> 'sl kernel \<Rightarrow> nat option \<times> 'sl kernel" where
  "inc_pid_namespaces e user k = (inc_ucount e (k_tick k) user, tick k)"

text \<open>
  The label \<^verbatim>\<open>out_free_idr\<close> and what follows it; the namespace is at \<open>ns\<close>.
\<close>

definition create_out_free :: "'sl index_ops \<Rightarrow> nsaddr \<Rightarrow> nat \<Rightarrow> int \<Rightarrow> 'sl kernel
    \<Rightarrow> (nsaddr errptr \<times> 'sl kernel) option" where
  "create_out_free ops ns uc err k = do {
     n \<leftarrow> k_ns k ns;
     sl' \<leftarrow> op_destroy ops (pid_sl n);
     let k1 = k\<lparr>k_ns := (k_ns k)(ns := None)\<rparr>;
     Some (ERR_PTR err, dec_pid_namespaces uc k1) }"

text \<open>\<^verbatim>\<open>kmem_cache_zalloc\<close>: a namespace of zero bytes; the zeroed index is \<open>zero\<close>.\<close>

definition zalloc_ns :: "'sl \<Rightarrow> 'sl kernel \<Rightarrow> nsaddr \<times> 'sl kernel" where
  "zalloc_ns zero k = (k_brk k, k\<lparr>k_brk := Suc (k_brk k), k_ns := (k_ns k)(k_brk k \<mapsto>
     \<lparr>kref = 0, pid_sl = zero, last_pid = 0, pid_allocated = 0, child_reaper = None, pid_cachep = None,
      ns_level = 0, ns_parent = None, user_ns = 0, ucounts = 0, reboot = 0\<rparr>)\<rparr>)"

definition create_pid_namespace :: "'sl index_ops \<Rightarrow> 'sl \<Rightarrow> kenv \<Rightarrow> nat \<Rightarrow> nsaddr \<Rightarrow> 'sl kernel
    \<Rightarrow> (nsaddr errptr \<times> 'sl kernel) option" where
  "create_pid_namespace ops zero e user parent_pid_ns k = do {
     pn \<leftarrow> k_ns k parent_pid_ns;
     let level = ns_level pn + 1;
     if \<not> in_userns e (user_ns pn) user then Some (ERR_PTR (- EINVAL), k)
     else if MAX_PID_NS_LEVEL < level then Some (ERR_PTR (- ENOSPC), k)
     else (case inc_pid_namespaces e user k of
         (None, k1) \<Rightarrow> Some (ERR_PTR (- ENOSPC), k1)
       | (Some uc, k1) \<Rightarrow>
           if \<not> kmem_cache_alloc_ok e (k_tick k1) then Some (ERR_PTR (- ENOMEM), dec_pid_namespaces uc (tick k1))
           else do {
             let (ns, k2) = zalloc_ns zero (tick k1);
             sl \<leftarrow> op_init ops (e_draw e (k_tick k2)) GFP_KERNEL zero;
             k3 \<leftarrow> ns_upd (tick k2) ns (\<lambda>n. n\<lparr>pid_sl := sl, last_pid := 0\<rparr>);
             (kc, k4) \<leftarrow> create_pid_cachep e level k3;
             k5 \<leftarrow> ns_upd k4 ns (\<lambda>n. n\<lparr>pid_cachep := kc\<rparr>);
             if kc = None then create_out_free ops ns uc (- ENOMEM) k5
             else do {
               let err = ns_alloc_inum e (k_tick k5);
               let k6 = tick k5;
               if err \<noteq> 0 then create_out_free ops ns uc err k6
               else do {
                 k7 \<leftarrow> get_pid_ns parent_pid_ns k6;
                 k8 \<leftarrow> ns_upd (log_event (GetUserNs user) k7) ns
                   (\<lambda>n. n\<lparr>kref := 1, ns_level := level, ns_parent := Some parent_pid_ns, user_ns := user,
                          ucounts := uc, pid_allocated := PIDNS_ADDING\<rparr>);
                 Some (ValidPtr ns, k8) } } }) }"

definition copy_pid_ns :: "'sl index_ops \<Rightarrow> 'sl \<Rightarrow> kenv \<Rightarrow> 64 word \<Rightarrow> nat \<Rightarrow> nsaddr \<Rightarrow> 'sl kernel
    \<Rightarrow> (nsaddr errptr \<times> 'sl kernel) option" where
  "copy_pid_ns ops zero e flags user old_ns k =
     (if flags AND CLONE_NEWPID = 0 then do { k1 \<leftarrow> get_pid_ns old_ns k; Some (ValidPtr old_ns, k1) }
      else do {
        active \<leftarrow> task_active_pid_ns e (k_current k) k;
        if active \<noteq> Some old_ns then Some (ERR_PTR (- EINVAL), k)
        else create_pid_namespace ops zero e user old_ns k })"

section \<open>Shutdown\<close>

text \<open>The loop that kills the processes of the namespace, from the cursor on.\<close>

partial_function (option) zap_kill :: "'sl index_ops \<Rightarrow> kenv \<Rightarrow> nsaddr \<Rightarrow> addr option \<Rightarrow> 'sl kernel
    \<Rightarrow> 'sl kernel option" where
  "zap_kill ops e ns cursor k =
     (case k_ns k ns of None \<Rightarrow> None
      | Some n \<Rightarrow> (case op_iter_next ops (pid_sl n) cursor 2 of None \<Rightarrow> None
          | Some r \<Rightarrow> (case r of (pid, cursor') \<Rightarrow> (case pid of None \<Rightarrow> Some k
              | Some p \<Rightarrow> (case pid_task pid PIDTYPE_PID k of None \<Rightarrow> None
                  | Some task \<Rightarrow> zap_kill ops e ns cursor' (case task of None \<Rightarrow> k
                      | Some t \<Rightarrow> if \<not> fatal_signal_pending e t then log_event (SendSigkill task) k else k))))))"

text \<open>
  The two loops that wait.  \<open>wait4\<close> is \<^verbatim>\<open>kernel_wait4\<close> and \<open>schedule\<close> is what the other tasks do while
  this one sleeps; both change the state, and neither is part of the repository.
\<close>

partial_function (option) zap_reap :: "('sl kernel \<Rightarrow> (int \<times> 'sl kernel) option) \<Rightarrow> 'sl kernel \<Rightarrow> 'sl kernel option" where
  "zap_reap wait4 k = (case wait4 k of None \<Rightarrow> None
     | Some r \<Rightarrow> if fst r \<noteq> - ECHILD then zap_reap wait4 (snd r) else Some (snd r))"

partial_function (option) zap_wait :: "('sl kernel \<Rightarrow> 'sl kernel option) \<Rightarrow> nsaddr \<Rightarrow> 32 word \<Rightarrow> 'sl kernel
    \<Rightarrow> 'sl kernel option" where
  "zap_wait schedule ns init_pids k = (case k_ns k ns of None \<Rightarrow> None
     | Some n \<Rightarrow> if pid_allocated n = init_pids then Some k
         else (case schedule k of None \<Rightarrow> None | Some k' \<Rightarrow> zap_wait schedule ns init_pids k'))"

definition zap_pid_ns_processes :: "'sl index_ops \<Rightarrow> kenv \<Rightarrow> ('sl kernel \<Rightarrow> (int \<times> 'sl kernel) option)
    \<Rightarrow> ('sl kernel \<Rightarrow> 'sl kernel option) \<Rightarrow> nsaddr \<Rightarrow> 'sl kernel \<Rightarrow> 'sl kernel option" where
  "zap_pid_ns_processes ops e wait4 schedule pid_ns k = do {
     let init_pids = (if thread_group_leader e (k_current k) then 1 else 2);
     k1 \<leftarrow> disable_pid_allocation pid_ns k;
     let k2 = log_event IgnoreSigchld k1;
     k3 \<leftarrow> zap_kill ops e pid_ns None k2;
     k4 \<leftarrow> zap_reap wait4 k3;
     k5 \<leftarrow> zap_wait schedule pid_ns init_pids k4;
     n \<leftarrow> k_ns k5 pid_ns;
     let k6 = (if reboot n \<noteq> 0 then log_event (GroupExitCode (reboot n)) k5 else k5);
     Some (log_event (AcctExitNs pid_ns) k6) }"

section \<open>Handlers\<close>

definition pid_ns_ctl_handler :: "kenv \<Rightarrow> bool \<Rightarrow> 'sl kernel \<Rightarrow> (int \<times> 'sl kernel) option" where
  "pid_ns_ctl_handler e write k = do {
     a \<leftarrow> task_active_pid_ns e (k_current k) k;
     pid_ns \<leftarrow> a;
     n \<leftarrow> k_ns k pid_ns;
     if write \<and> \<not> ns_capable e (user_ns n) then Some (- EPERM, k)
     else do {
       let (ret, next) = proc_dointvec_minmax e write 0 (pid_max k) (last_pid n);
       k' \<leftarrow> (if ret = 0 \<and> write then ns_upd k pid_ns (\<lambda>n. n\<lparr>last_pid := next\<rparr>) else Some k);
       Some (ret, k') } }"

definition LINUX_REBOOT_CMD_RESTART :: "32 word" where "LINUX_REBOOT_CMD_RESTART = 0x01234567"
definition LINUX_REBOOT_CMD_HALT :: "32 word" where "LINUX_REBOOT_CMD_HALT = 0xCDEF0123"
definition LINUX_REBOOT_CMD_POWER_OFF :: "32 word" where "LINUX_REBOOT_CMD_POWER_OFF = 0x4321FEDC"
definition LINUX_REBOOT_CMD_RESTART2 :: "32 word" where "LINUX_REBOOT_CMD_RESTART2 = 0xA1B2C3D4"

definition SIGHUP :: int where "SIGHUP = 1"
definition SIGINT :: int where "SIGINT = 2"

text \<open>\<^verbatim>\<open>do_exit\<close> does not return: it is logged, and the value 0 is the one that is not reached.\<close>

definition reboot_pid_ns :: "nsaddr \<Rightarrow> 32 word \<Rightarrow> 'sl kernel \<Rightarrow> (int \<times> 'sl kernel) option" where
  "reboot_pid_ns pid_ns cmd k =
     (if pid_ns = init_pid_ns then Some (0, k)
      else do {
        k1 \<leftarrow> (if cmd = LINUX_REBOOT_CMD_RESTART2 \<or> cmd = LINUX_REBOOT_CMD_RESTART
               then map_option Inl (ns_upd k pid_ns (\<lambda>n. n\<lparr>reboot := SIGHUP\<rparr>))
               else if cmd = LINUX_REBOOT_CMD_POWER_OFF \<or> cmd = LINUX_REBOOT_CMD_HALT
               then map_option Inl (ns_upd k pid_ns (\<lambda>n. n\<lparr>reboot := SIGINT\<rparr>))
               else Some (Inr ()));
        (case k1 of Inr _ \<Rightarrow> Some (- EINVAL, k)
         | Inl k2 \<Rightarrow> do {
             n \<leftarrow> k_ns k2 pid_ns;
             Some (0, log_event DoExit (log_event (SendSigkill (child_reaper n)) k2)) }) })"

section \<open>Operations of /proc/pid/ns\<close>

definition pidns_get :: "kenv \<Rightarrow> taddr \<Rightarrow> 'sl kernel \<Rightarrow> (nsaddr option \<times> 'sl kernel) option" where
  "pidns_get e task k = do {
     ns \<leftarrow> task_active_pid_ns e task k;
     (case ns of None \<Rightarrow> Some (None, k)
      | Some a \<Rightarrow> do { k1 \<leftarrow> get_pid_ns a k; Some (ns, k1) }) }"

definition pidns_for_children_get :: "'sl index_ops \<Rightarrow> taddr \<Rightarrow> 'sl kernel \<Rightarrow> (nsaddr option \<times> 'sl kernel) option" where
  "pidns_for_children_get ops task k = do {
     T \<leftarrow> k_tasks k task;
     (case nsproxy T of None \<Rightarrow> Some (None, k)
      | Some px \<Rightarrow> do {
          a \<leftarrow> k_nsproxies k px;
          k1 \<leftarrow> get_pid_ns a k;
          n \<leftarrow> k_ns k1 a;
          if child_reaper n = None then do { k2 \<leftarrow> put_pid_ns ops (Some a) k1; Some (None, k2) }
          else Some (Some a, k1) }) }"

definition pidns_put :: "'sl index_ops \<Rightarrow> nsaddr \<Rightarrow> 'sl kernel \<Rightarrow> 'sl kernel option" where
  "pidns_put ops ns k = put_pid_ns ops (Some ns) k"

text \<open>\<^verbatim>\<open>while (ancestor->level > active->level) ancestor = ancestor->parent;\<close>\<close>

partial_function (option) ancestor_at :: "'sl kernel \<Rightarrow> nat \<Rightarrow> nsaddr option \<Rightarrow> nsaddr option" where
  "ancestor_at k level ancestor = (case ancestor of None \<Rightarrow> None
     | Some a \<Rightarrow> (case k_ns k a of None \<Rightarrow> None
         | Some n \<Rightarrow> if level < ns_level n then ancestor_at k level (ns_parent n) else Some a))"

definition pidns_install :: "'sl index_ops \<Rightarrow> kenv \<Rightarrow> nat \<Rightarrow> nsaddr \<Rightarrow> 'sl kernel \<Rightarrow> (int \<times> 'sl kernel) option" where
  "pidns_install ops e px new k = do {
     a \<leftarrow> task_active_pid_ns e (k_current k) k;
     nn \<leftarrow> k_ns k new;
     if \<not> ns_capable e (user_ns nn) \<or> \<not> ns_capable e (current_user_ns e) then Some (- EPERM, k)
     else do {
       active \<leftarrow> a;
       an \<leftarrow> k_ns k active;
       if ns_level nn < ns_level an then Some (- EINVAL, k)
       else do {
         ancestor \<leftarrow> ancestor_at k (ns_level an) (Some new);
         if ancestor \<noteq> active then Some (- EINVAL, k)
         else do {
           old \<leftarrow> k_nsproxies k px;
           k1 \<leftarrow> put_pid_ns ops (Some old) k;
           k2 \<leftarrow> get_pid_ns new k1;
           Some (0, k2\<lparr>k_nsproxies := (k_nsproxies k2)(px \<mapsto> new)\<rparr>) } } } }"

text \<open>The loop of \<^verbatim>\<open>pidns_get_parent\<close>: whether the active namespace is met on the way up.\<close>

partial_function (option) parent_visible :: "'sl kernel \<Rightarrow> nsaddr option \<Rightarrow> nsaddr option \<Rightarrow> bool option" where
  "parent_visible k active p = (case p of None \<Rightarrow> Some False
     | Some a \<Rightarrow> if p = active then Some True
         else (case k_ns k a of None \<Rightarrow> None | Some n \<Rightarrow> parent_visible k active (ns_parent n)))"

definition pidns_get_parent :: "kenv \<Rightarrow> nsaddr \<Rightarrow> 'sl kernel \<Rightarrow> (nsaddr errptr \<times> 'sl kernel) option" where
  "pidns_get_parent e ns k = do {
     active \<leftarrow> task_active_pid_ns e (k_current k) k;
     n \<leftarrow> k_ns k ns;
     vis \<leftarrow> parent_visible k active (ns_parent n);
     if \<not> vis then Some (ERR_PTR (- EPERM), k)
     else do {
       a \<leftarrow> ns_parent n;
       k1 \<leftarrow> get_pid_ns a k;
       Some (ValidPtr a, k1) } }"

definition pidns_owner :: "nsaddr \<Rightarrow> 'sl kernel \<Rightarrow> nat option" where
  "pidns_owner ns k = map_option user_ns (k_ns k ns)"

end
