(* ===== verification/Pid_Skiplist.thy ===== *)
theory Pid_Skiplist
  imports Kernel_Prelude
begin

text \<open>
  Model of \<^verbatim>\<open>src/skiplist/pid_skiplist.h\<close> and \<^verbatim>\<open>src/skiplist/pid_skiplist.c\<close>: the skip list that
  replaces the radix tree of a PID namespace.  Nodes live in the list's own region of the heap,
  \<open>sl_nodes\<close>; a node and its separately allocated \<^verbatim>\<open>forward\<close> array are one cell of it.  Addresses are
  never reused, so that every access to a freed node is visible as a fault.  \<open>sl_rcu\<close> holds the nodes
  handed to \<^verbatim>\<open>call_rcu\<close> whose grace period has not ended.

  The loops and the accessors are polymorphic in the extension of the node record: the red-black
  variant of the list extends the node and runs the same loops.
\<close>

section \<open>Data\<close>

definition PID_SL_MAX_LEVEL :: nat where
  "PID_SL_MAX_LEVEL = 16"

definition PID_SL_P :: nat where
  "PID_SL_P = 4"

record pid_sl_node =
  n_key :: int
  n_pid :: "paddr option"
  n_forward :: "addr option list"
  n_level :: "8 word"

type_synonym 'z node_heap = "addr \<Rightarrow> 'z pid_sl_node_scheme option"

record 'n sl_struct =
  sl_level :: nat
  sl_header :: "addr option"
  sl_nodes :: "addr \<Rightarrow> 'n option"
  sl_brk :: addr
  sl_rcu :: "addr list"

type_synonym pid_skiplist = "pid_sl_node sl_struct"

section \<open>Memory accesses\<close>

text \<open>\<^verbatim>\<open>x->forward[i]\<close> as a value and as a location; \<^verbatim>\<open>update[i]\<close> on the stack.\<close>

definition rd_fwd :: "'z node_heap \<Rightarrow> addr \<Rightarrow> nat \<Rightarrow> addr option option" where
  "rd_fwd h x i = (case h x of None \<Rightarrow> None
     | Some n \<Rightarrow> if i < length (n_forward n) then Some (n_forward n ! i) else None)"

definition wr_fwd :: "'z node_heap \<Rightarrow> addr \<Rightarrow> nat \<Rightarrow> addr option \<Rightarrow> 'z node_heap option" where
  "wr_fwd h x i v = (case h x of None \<Rightarrow> None
     | Some n \<Rightarrow> if i < length (n_forward n)
         then Some (h(x \<mapsto> n\<lparr>n_forward := (n_forward n)[i := v]\<rparr>)) else None)"

definition upd_node :: "'z node_heap \<Rightarrow> addr \<Rightarrow>
    ('z pid_sl_node_scheme \<Rightarrow> 'z pid_sl_node_scheme) \<Rightarrow> 'z node_heap option" where
  "upd_node h x f = (case h x of None \<Rightarrow> None | Some n \<Rightarrow> Some (h(x \<mapsto> f n)))"

definition kfree_node :: "'z node_heap \<Rightarrow> addr \<Rightarrow> 'z node_heap option" where
  "kfree_node h x = (case h x of None \<Rightarrow> None | Some n \<Rightarrow> Some (h(x := None)))"

text \<open>\<^verbatim>\<open>x && x->key == key\<close> and the value \<^verbatim>\<open>x->pid\<close> of a pointer that was tested.\<close>

definition key_is :: "'z node_heap \<Rightarrow> addr option \<Rightarrow> int \<Rightarrow> bool option" where
  "key_is h x k = (case x of None \<Rightarrow> Some False
     | Some a \<Rightarrow> (case h a of None \<Rightarrow> None | Some n \<Rightarrow> Some (n_key n = k)))"

definition rd_pid :: "'z node_heap \<Rightarrow> addr \<Rightarrow> paddr option option" where
  "rd_pid h x = map_option n_pid (h x)"

type_synonym update_array = "addr option list"

definition update_init :: update_array where
  "update_init = replicate PID_SL_MAX_LEVEL None"

definition update_set :: "update_array \<Rightarrow> nat \<Rightarrow> addr \<Rightarrow> update_array option" where
  "update_set u i x = (if i < length u then Some (u[i := Some x]) else None)"

definition update_get :: "update_array \<Rightarrow> nat \<Rightarrow> addr option" where
  "update_get u i = (if i < length u then u ! i else None)"

section \<open>Levels and allocation\<close>

function pid_sl_random_level_loop :: "32 word \<Rightarrow> nat \<Rightarrow> nat" where
  "pid_sl_random_level_loop random level =
     (if level < PID_SL_MAX_LEVEL \<and> random AND (push_bit PID_SL_P 1 - 1) = 0
      then pid_sl_random_level_loop (drop_bit PID_SL_P random) (Suc level)
      else level)"
  by pat_completeness auto
termination
  by (relation "measure (\<lambda>(r, l). PID_SL_MAX_LEVEL - l)") auto

declare pid_sl_random_level_loop.simps [simp del]

definition pid_sl_random_level :: "32 word \<Rightarrow> nat" where
  "pid_sl_random_level random = pid_sl_random_level_loop random 1"

definition pid_sl_node_alloc ::
  "draw \<Rightarrow> nat \<Rightarrow> gfp_t \<Rightarrow> pid_skiplist \<Rightarrow> addr option \<times> pid_skiplist" where
  "pid_sl_node_alloc d level gfp_flags0 sl =
     (let gfp_flags = (if GFP_NOFAIL_BIT \<in> gfp_flags0 then gfp_flags0 \<union> GFP_ATOMIC else gfp_flags0) in
      if \<not> kzalloc_ok d gfp_flags then (None, sl)
      else if \<not> kcalloc_ok d gfp_flags then (None, sl\<lparr>sl_brk := Suc (sl_brk sl)\<rparr>)
      else (Some (sl_brk sl),
            sl\<lparr>sl_nodes := (sl_nodes sl)(sl_brk sl \<mapsto>
                  \<lparr>n_key = 0, n_pid = None, n_forward = replicate level None,
                   n_level = of_nat level\<rparr>),
               sl_brk := Suc (sl_brk sl)\<rparr>))"

definition pid_skiplist_init :: "draw \<Rightarrow> gfp_t \<Rightarrow> pid_skiplist \<Rightarrow> pid_skiplist option" where
  "pid_skiplist_init d gfp_flags sl =
     (let (hdr, sl1) = pid_sl_node_alloc d PID_SL_MAX_LEVEL (gfp_flags \<union> GFP_NOFAIL)
                         (sl\<lparr>sl_level := 1\<rparr>) in
      case hdr of None \<Rightarrow> None
      | Some x \<Rightarrow> do {
          h \<leftarrow> upd_node (sl_nodes sl1) x (\<lambda>n. n\<lparr>n_key := INT_MIN, n_pid := None,
                 n_forward := replicate PID_SL_MAX_LEVEL None\<rparr>);
          Some (sl1\<lparr>sl_header := Some x, sl_nodes := h\<rparr>) })"

section \<open>Search\<close>

text \<open>
  One level: \<^verbatim>\<open>while (x->forward[i] && x->forward[i]->key < key) x = x->forward[i];\<close> on a cyclic heap
  it does not end, which is \<open>None\<close>.
\<close>

partial_function (option) sl_walk :: "'z node_heap \<Rightarrow> int \<Rightarrow> nat \<Rightarrow> addr \<Rightarrow> addr option" where
  "sl_walk h k i x =
     (case rd_fwd h x i of None \<Rightarrow> None
      | Some nx \<Rightarrow> (case nx of None \<Rightarrow> Some x
          | Some y \<Rightarrow> (case h y of None \<Rightarrow> None
              | Some n \<Rightarrow> if n_key n < k then sl_walk h k i y else Some x)))"

text \<open>All levels below \<open>l\<close>, from the top down: the writers record \<^verbatim>\<open>update[i]\<close>, the readers do not.\<close>

primrec sl_search :: "'z node_heap \<Rightarrow> int \<Rightarrow> nat \<Rightarrow> addr \<Rightarrow> update_array
    \<Rightarrow> (addr \<times> update_array) option" where
  "sl_search h k 0 x u = Some (x, u)"
| "sl_search h k (Suc i) x u = do {
     x' \<leftarrow> sl_walk h k i x;
     u' \<leftarrow> update_set u i x';
     sl_search h k i x' u' }"

primrec sl_seek :: "'z node_heap \<Rightarrow> int \<Rightarrow> nat \<Rightarrow> addr \<Rightarrow> addr option" where
  "sl_seek h k 0 x = Some x"
| "sl_seek h k (Suc i) x = do { x' \<leftarrow> sl_walk h k i x; sl_seek h k i x' }"

section \<open>Operations\<close>

text \<open>\<^verbatim>\<open>for (i = sl->level; i < lvl; i++) update[i] = sl->header;\<close>\<close>

primrec update_fill :: "addr \<Rightarrow> nat \<Rightarrow> nat \<Rightarrow> update_array \<Rightarrow> update_array option" where
  "update_fill hdr i 0 u = Some u"
| "update_fill hdr i (Suc n) u = do { u' \<leftarrow> update_set u i hdr; update_fill hdr (Suc i) n u' }"

text \<open>The loops that link a new node at its levels and unlink a node from its levels.\<close>

primrec sl_link :: "'z node_heap \<Rightarrow> update_array \<Rightarrow> addr \<Rightarrow> nat \<Rightarrow> nat \<Rightarrow> 'z node_heap option" where
  "sl_link h u x i 0 = Some h"
| "sl_link h u x i (Suc n) = do {
     p \<leftarrow> update_get u i;
     nx \<leftarrow> rd_fwd h p i;
     h1 \<leftarrow> wr_fwd h x i nx;
     h2 \<leftarrow> wr_fwd h1 p i (Some x);
     sl_link h2 u x (Suc i) n }"

primrec sl_unlink :: "'z node_heap \<Rightarrow> update_array \<Rightarrow> addr \<Rightarrow> nat \<Rightarrow> nat \<Rightarrow> 'z node_heap option" where
  "sl_unlink h u x i 0 = Some h"
| "sl_unlink h u x i (Suc n) = do {
     p \<leftarrow> update_get u i;
     nx \<leftarrow> rd_fwd h p i;
     if nx \<noteq> Some x then Some h
     else do {
       v \<leftarrow> rd_fwd h x i;
       h1 \<leftarrow> wr_fwd h p i v;
       sl_unlink h1 u x (Suc i) n } }"

text \<open>\<^verbatim>\<open>while (new_level > 1 && !sl->header->forward[new_level - 1]) new_level--;\<close>\<close>

primrec sl_trim :: "'z node_heap \<Rightarrow> addr \<Rightarrow> nat \<Rightarrow> nat option" where
  "sl_trim h hdr 0 = Some 0"
| "sl_trim h hdr (Suc m) =
     (if m = 0 then Some (Suc m)
      else do { nx \<leftarrow> rd_fwd h hdr m; if nx = None then sl_trim h hdr m else Some (Suc m) })"

definition pid_skiplist_insert ::
  "draw \<Rightarrow> pid_skiplist \<Rightarrow> int \<Rightarrow> paddr option \<Rightarrow> gfp_t \<Rightarrow> (int \<times> pid_skiplist) option" where
  "pid_skiplist_insert d sl key pid gfp_flags = do {
     hdr \<leftarrow> sl_header sl;
     (x, update) \<leftarrow> sl_search (sl_nodes sl) key (sl_level sl) hdr update_init;
     nx \<leftarrow> rd_fwd (sl_nodes sl) x 0;
     hit \<leftarrow> key_is (sl_nodes sl) nx key;
     if hit then do {
       x' \<leftarrow> nx;
       h \<leftarrow> upd_node (sl_nodes sl) x' (\<lambda>n. n\<lparr>n_pid := pid\<rparr>);
       Some (0, sl\<lparr>sl_nodes := h\<rparr>) }
     else do {
       let lvl = pid_sl_random_level (prandom_u32 d);
       (update', sl1) \<leftarrow>
         (if sl_level sl < lvl
          then do { u \<leftarrow> update_fill hdr (sl_level sl) (lvl - sl_level sl) update;
                    Some (u, sl\<lparr>sl_level := lvl\<rparr>) }
          else Some (update, sl));
       let (new, sl2) = pid_sl_node_alloc d lvl gfp_flags sl1;
       (case new of None \<Rightarrow> Some (- ENOMEM, sl2)
        | Some y \<Rightarrow> do {
            h1 \<leftarrow> upd_node (sl_nodes sl2) y (\<lambda>n. n\<lparr>n_key := key, n_pid := pid\<rparr>);
            h2 \<leftarrow> sl_link h1 update' y 0 lvl;
            Some (0, sl2\<lparr>sl_nodes := h2\<rparr>) }) } }"

definition pid_skiplist_lookup_rcu :: "pid_skiplist \<Rightarrow> int \<Rightarrow> paddr option option" where
  "pid_skiplist_lookup_rcu sl key =
     (case sl_header sl of None \<Rightarrow> Some None
      | Some hdr \<Rightarrow> do {
          x \<leftarrow> sl_seek (sl_nodes sl) key (sl_level sl) hdr;
          nx \<leftarrow> rd_fwd (sl_nodes sl) x 0;
          hit \<leftarrow> key_is (sl_nodes sl) nx key;
          if hit then do { y \<leftarrow> nx; rd_pid (sl_nodes sl) y } else Some None })"

definition pid_skiplist_remove :: "pid_skiplist \<Rightarrow> int \<Rightarrow> pid_skiplist option" where
  "pid_skiplist_remove sl key =
     (case sl_header sl of None \<Rightarrow> Some sl
      | Some hdr \<Rightarrow> do {
          (x, update) \<leftarrow> sl_search (sl_nodes sl) key (sl_level sl) hdr update_init;
          nx \<leftarrow> rd_fwd (sl_nodes sl) x 0;
          hit \<leftarrow> key_is (sl_nodes sl) nx key;
          if \<not> hit then Some sl
          else do {
            y \<leftarrow> nx;
            h \<leftarrow> sl_unlink (sl_nodes sl) update y 0 (sl_level sl);
            new_level \<leftarrow> sl_trim h hdr (sl_level sl);
            Some (sl\<lparr>sl_nodes := h, sl_level := new_level, sl_rcu := y # sl_rcu sl\<rparr>) } })"

text \<open>The RCU callback of a removed node, and the end of a grace period.\<close>

definition pid_sl_node_rcu_free :: "addr \<Rightarrow> 'z node_heap \<Rightarrow> 'z node_heap option" where
  "pid_sl_node_rcu_free x h = kfree_node h x"

primrec rcu_free_all :: "addr list \<Rightarrow> 'z node_heap \<Rightarrow> 'z node_heap option" where
  "rcu_free_all [] h = Some h"
| "rcu_free_all (x # xs) h = do { h' \<leftarrow> pid_sl_node_rcu_free x h; rcu_free_all xs h' }"

text \<open>
  \<^verbatim>\<open>pid_skiplist_iter_next_rcu\<close> returns the pid and the new value of the caller's cursor.
\<close>

definition pid_skiplist_iter_next_rcu ::
  "pid_skiplist \<Rightarrow> addr option \<Rightarrow> int \<Rightarrow> (paddr option \<times> addr option) option" where
  "pid_skiplist_iter_next_rcu sl cursor start_key =
     (case sl_header sl of None \<Rightarrow> Some (None, cursor)
      | Some hdr \<Rightarrow>
        (case cursor of
           None \<Rightarrow> do {
             x \<leftarrow> sl_seek (sl_nodes sl) start_key (sl_level sl) hdr;
             nx \<leftarrow> rd_fwd (sl_nodes sl) x 0;
             (case nx of None \<Rightarrow> Some (None, cursor)
              | Some y \<Rightarrow> do {
                  n \<leftarrow> sl_nodes sl y;
                  if n_key n < start_key then Some (None, cursor)
                  else Some (n_pid n, Some y) }) }
         | Some c \<Rightarrow> do {
             nx \<leftarrow> rd_fwd (sl_nodes sl) c 0;
             (case nx of None \<Rightarrow> Some (None, cursor)
              | Some y \<Rightarrow> do { p \<leftarrow> rd_pid (sl_nodes sl) y; Some (p, Some y) }) }))"

definition pid_skiplist_find_ge_rcu :: "pid_skiplist \<Rightarrow> int \<Rightarrow> paddr option option" where
  "pid_skiplist_find_ge_rcu sl key = do {
     hdr \<leftarrow> sl_header sl;
     x \<leftarrow> sl_seek (sl_nodes sl) key (sl_level sl) hdr;
     nx \<leftarrow> rd_fwd (sl_nodes sl) x 0;
     (case nx of None \<Rightarrow> Some None | Some y \<Rightarrow> rd_pid (sl_nodes sl) y) }"

text \<open>\<^verbatim>\<open>pid_skiplist_destroy\<close>: the loop over level 0 reads the successor before it frees a node.\<close>

partial_function (option) sl_free_chain :: "'z node_heap \<Rightarrow> addr option \<Rightarrow> 'z node_heap option" where
  "sl_free_chain h x =
     (case x of None \<Rightarrow> Some h
      | Some a \<Rightarrow> (case rd_fwd h a 0 of None \<Rightarrow> None
          | Some nx \<Rightarrow> sl_free_chain (h(a := None)) nx))"

definition pid_skiplist_destroy :: "pid_skiplist \<Rightarrow> pid_skiplist option" where
  "pid_skiplist_destroy sl = do {
     hdr \<leftarrow> sl_header sl;
     nx \<leftarrow> rd_fwd (sl_nodes sl) hdr 0;
     h \<leftarrow> sl_free_chain (sl_nodes sl) nx;
     h' \<leftarrow> kfree_node h hdr;
     Some (sl\<lparr>sl_nodes := h'\<rparr>) }"

end
