(* ===== verification/Pid_Rb_Skiplist.thy ===== *)
theory Pid_Rb_Skiplist
  imports Pid_Skiplist "HOL-Library.Tree"
begin

text \<open>
  Model of \<^verbatim>\<open>src/rb-skiplist/pid_rb_skiplist.h\<close> and \<^verbatim>\<open>src/rb-skiplist/pid_rb_skiplist.c\<close>: the skip list
  whose nodes of the maximal level are also linked into a red-black tree, from which a search takes
  its start.  The node record extends the one of the plain list by the flag \<^verbatim>\<open>in_rb_tree\<close>, the list
  record by the tree; the loops over the levels are the same code in both files and the same
  definitions here.

  The tree is a binary tree of node addresses (\<^verbatim>\<open>rb_entry\<close> of the embedded \<^verbatim>\<open>rb_node\<close>).  The descents of
  \<^verbatim>\<open>rb_insert_node\<close> and \<^verbatim>\<open>rb_find_le\<close> are part of the repository and modelled; \<^verbatim>\<open>rb_insert_color\<close> and
  \<^verbatim>\<open>rb_erase\<close> are the kernel's, and a parameter: the record \<open>rb_api\<close>, of which \<open>rb_api_ok\<close> states the
  documented behaviour, that rebalancing keeps the order of the nodes and that erasing takes out
  exactly the given node.
\<close>

section \<open>Data\<close>

record pid_sl_rb_node = pid_sl_node +
  in_rb_tree :: bool

record pid_rb_skiplist = "pid_sl_rb_node sl_struct" +
  top_rb_root :: "addr tree"

record rb_api =
  rb_insert_color :: "addr \<Rightarrow> addr tree \<Rightarrow> addr tree"
  rb_erase :: "addr \<Rightarrow> addr tree \<Rightarrow> addr tree"

definition rb_api_ok :: "rb_api \<Rightarrow> bool" where
  "rb_api_ok api \<longleftrightarrow>
     (\<forall>a t. inorder (rb_insert_color api a t) = inorder t) \<and>
     (\<forall>a t. distinct (inorder t) \<longrightarrow> inorder (rb_erase api a t) = remove1 a (inorder t))"

type_synonym rb_heap = "addr \<Rightarrow> pid_sl_rb_node option"

section \<open>Levels and allocation\<close>

definition rb_pid_sl_random_level :: "32 word \<Rightarrow> nat" where
  "rb_pid_sl_random_level random = pid_sl_random_level_loop random 1"

definition rb_pid_sl_node_alloc ::
  "draw \<Rightarrow> nat \<Rightarrow> gfp_t \<Rightarrow> pid_rb_skiplist \<Rightarrow> addr option \<times> pid_rb_skiplist" where
  "rb_pid_sl_node_alloc d level gfp_flags0 sl =
     (let gfp_flags = (if GFP_NOFAIL_BIT \<in> gfp_flags0 then gfp_flags0 \<union> GFP_ATOMIC else gfp_flags0) in
      if \<not> kzalloc_ok d gfp_flags then (None, sl)
      else if \<not> kcalloc_ok d gfp_flags then (None, sl\<lparr>sl_brk := Suc (sl_brk sl)\<rparr>)
      else (Some (sl_brk sl),
            sl\<lparr>sl_nodes := (sl_nodes sl)(sl_brk sl \<mapsto>
                  \<lparr>n_key = 0, n_pid = None, n_forward = replicate level None,
                   n_level = of_nat level, in_rb_tree = False\<rparr>),
               sl_brk := Suc (sl_brk sl)\<rparr>))"

definition pid_rb_skiplist_init :: "draw \<Rightarrow> gfp_t \<Rightarrow> pid_rb_skiplist \<Rightarrow> pid_rb_skiplist option" where
  "pid_rb_skiplist_init d gfp_flags sl =
     (let (hdr, sl1) = rb_pid_sl_node_alloc d PID_SL_MAX_LEVEL (gfp_flags \<union> GFP_NOFAIL)
                         (sl\<lparr>sl_level := 1\<rparr>) in
      case hdr of None \<Rightarrow> None
      | Some x \<Rightarrow> do {
          h \<leftarrow> upd_node (sl_nodes sl1) x (\<lambda>n. n\<lparr>n_key := INT_MIN, n_pid := None,
                 n_forward := replicate PID_SL_MAX_LEVEL None\<rparr>);
          Some (sl1\<lparr>sl_header := Some x, sl_nodes := h, top_rb_root := Leaf\<rparr>) })"

section \<open>The tree of the top level\<close>

text \<open>
  The descent of \<^verbatim>\<open>rb_insert_node\<close> to the empty place where the node is linked: the outer \<open>None\<close> is a
  fault, \<open>Some None\<close> the early return when the key is in the tree.
\<close>

primrec rb_descend_link :: "rb_heap \<Rightarrow> addr \<Rightarrow> int \<Rightarrow> addr tree \<Rightarrow> addr tree option option" where
  "rb_descend_link h node key Leaf = Some (Some (Node Leaf node Leaf))"
| "rb_descend_link h node key (Node l this r) =
     (case h this of None \<Rightarrow> None
      | Some n \<Rightarrow>
          if key < n_key n then map_option (map_option (\<lambda>l'. Node l' this r)) (rb_descend_link h node key l)
          else if key > n_key n then map_option (map_option (\<lambda>r'. Node l this r')) (rb_descend_link h node key r)
          else Some None)"

definition rb_insert_node :: "rb_api \<Rightarrow> pid_rb_skiplist \<Rightarrow> addr \<Rightarrow> pid_rb_skiplist option" where
  "rb_insert_node api sl node = do {
     n \<leftarrow> sl_nodes sl node;
     linked \<leftarrow> rb_descend_link (sl_nodes sl) node (n_key n) (top_rb_root sl);
     (case linked of None \<Rightarrow> Some sl
      | Some t \<Rightarrow> do {
          h \<leftarrow> upd_node (sl_nodes sl) node (\<lambda>n. n\<lparr>in_rb_tree := True\<rparr>);
          Some (sl\<lparr>sl_nodes := h, top_rb_root := rb_insert_color api node t\<rparr>) }) }"

primrec rb_find_le_loop :: "rb_heap \<Rightarrow> int \<Rightarrow> addr tree \<Rightarrow> addr \<Rightarrow> addr option" where
  "rb_find_le_loop h key Leaf result = Some result"
| "rb_find_le_loop h key (Node l this r) result =
     (case h this of None \<Rightarrow> None
      | Some n \<Rightarrow> if n_key n \<le> key then rb_find_le_loop h key r this
                  else rb_find_le_loop h key l result)"

definition rb_find_le :: "pid_rb_skiplist \<Rightarrow> int \<Rightarrow> addr option" where
  "rb_find_le sl key = do {
     hdr \<leftarrow> sl_header sl;
     rb_find_le_loop (sl_nodes sl) key (top_rb_root sl) hdr }"

section \<open>Operations\<close>

definition pid_rb_skiplist_insert :: "rb_api \<Rightarrow> draw \<Rightarrow> pid_rb_skiplist \<Rightarrow> int \<Rightarrow> paddr option \<Rightarrow> gfp_t
    \<Rightarrow> (int \<times> pid_rb_skiplist) option" where
  "pid_rb_skiplist_insert api d sl key pid gfp_flags = do {
     hdr \<leftarrow> sl_header sl;
     hn \<leftarrow> sl_nodes sl hdr;
     x0 \<leftarrow> (if sl_level sl = unat (n_level hn) then rb_find_le sl key else Some hdr);
     (x, update) \<leftarrow> sl_search (sl_nodes sl) key (sl_level sl) x0 update_init;
     nx \<leftarrow> rd_fwd (sl_nodes sl) x 0;
     hit \<leftarrow> key_is (sl_nodes sl) nx key;
     if hit then do {
       x' \<leftarrow> nx;
       h \<leftarrow> upd_node (sl_nodes sl) x' (\<lambda>n. n\<lparr>n_pid := pid\<rparr>);
       Some (0, sl\<lparr>sl_nodes := h\<rparr>) }
     else do {
       let lvl = rb_pid_sl_random_level (prandom_u32 d);
       (update', sl1) \<leftarrow>
         (if sl_level sl < lvl
          then do { u \<leftarrow> update_fill hdr (sl_level sl) (lvl - sl_level sl) update;
                    Some (u, sl\<lparr>sl_level := lvl\<rparr>) }
          else Some (update, sl));
       let (new, sl2) = rb_pid_sl_node_alloc d lvl gfp_flags sl1;
       (case new of None \<Rightarrow> Some (- ENOMEM, sl2)
        | Some y \<Rightarrow> do {
            h1 \<leftarrow> upd_node (sl_nodes sl2) y (\<lambda>n. n\<lparr>n_key := key, n_pid := pid\<rparr>);
            h2 \<leftarrow> sl_link h1 update' y 0 lvl;
            hn' \<leftarrow> h2 hdr;
            sl3 \<leftarrow> (if lvl = sl_level sl2 \<and> lvl = unat (n_level hn')
                    then rb_insert_node api (sl2\<lparr>sl_nodes := h2\<rparr>) y else Some (sl2\<lparr>sl_nodes := h2\<rparr>));
            Some (0, sl3) }) } }"

definition pid_rb_skiplist_lookup_rcu :: "pid_rb_skiplist \<Rightarrow> int \<Rightarrow> paddr option option" where
  "pid_rb_skiplist_lookup_rcu sl key =
     (if sl_header sl = None then Some None
      else do {
        x0 \<leftarrow> rb_find_le sl key;
        x \<leftarrow> sl_seek (sl_nodes sl) key (sl_level sl) x0;
        nx \<leftarrow> rd_fwd (sl_nodes sl) x 0;
        hit \<leftarrow> key_is (sl_nodes sl) nx key;
        if hit then do { y \<leftarrow> nx; rd_pid (sl_nodes sl) y } else Some None })"

definition rb_pid_sl_node_rcu_free :: "addr \<Rightarrow> rb_heap \<Rightarrow> rb_heap option" where
  "rb_pid_sl_node_rcu_free x h = kfree_node h x"

definition pid_rb_skiplist_remove :: "rb_api \<Rightarrow> pid_rb_skiplist \<Rightarrow> int \<Rightarrow> pid_rb_skiplist option" where
  "pid_rb_skiplist_remove api sl key =
     (case sl_header sl of None \<Rightarrow> Some sl
      | Some hdr \<Rightarrow> do {
          x0 \<leftarrow> rb_find_le sl key;
          (x, update) \<leftarrow> sl_search (sl_nodes sl) key (sl_level sl) x0 update_init;
          nx \<leftarrow> rd_fwd (sl_nodes sl) x 0;
          hit \<leftarrow> key_is (sl_nodes sl) nx key;
          if \<not> hit then Some sl
          else do {
            y \<leftarrow> nx;
            n \<leftarrow> sl_nodes sl y;
            sl1 \<leftarrow> (if in_rb_tree n
              then do {
                h \<leftarrow> upd_node (sl_nodes sl) y (\<lambda>n. n\<lparr>in_rb_tree := False\<rparr>);
                Some (sl\<lparr>sl_nodes := h, top_rb_root := rb_erase api y (top_rb_root sl)\<rparr>) }
              else Some sl);
            h \<leftarrow> sl_unlink (sl_nodes sl1) update y 0 (sl_level sl1);
            new_level \<leftarrow> sl_trim h hdr (sl_level sl1);
            Some (sl1\<lparr>sl_nodes := h, sl_level := new_level, sl_rcu := y # sl_rcu sl1\<rparr>) } })"

definition pid_rb_skiplist_iter_next_rcu ::
  "pid_rb_skiplist \<Rightarrow> addr option \<Rightarrow> int \<Rightarrow> (paddr option \<times> addr option) option" where
  "pid_rb_skiplist_iter_next_rcu sl cursor start_key =
     (if sl_header sl = None then Some (None, cursor)
      else (case cursor of
           None \<Rightarrow> do {
             x0 \<leftarrow> rb_find_le sl start_key;
             x \<leftarrow> sl_seek (sl_nodes sl) start_key (sl_level sl) x0;
             nx \<leftarrow> rd_fwd (sl_nodes sl) x 0;
             (case nx of None \<Rightarrow> Some (None, cursor)
              | Some y \<Rightarrow> do {
                  n \<leftarrow> sl_nodes sl y;
                  if n_key n < start_key then Some (None, cursor)
                  else Some (n_pid n, Some y) }) }
         | Some c \<Rightarrow> do {
             nx \<leftarrow> rd_fwd (sl_nodes sl) c 0;
             (case nx of None \<Rightarrow> Some (None, cursor)
              | Some y \<Rightarrow> do { p \<leftarrow> rd_pid (sl_nodes sl) y; Some (p, Some y) }) }))"

definition pid_rb_skiplist_find_ge_rcu :: "pid_rb_skiplist \<Rightarrow> int \<Rightarrow> paddr option option" where
  "pid_rb_skiplist_find_ge_rcu sl key =
     (if sl_header sl = None then Some None
      else do {
        x0 \<leftarrow> rb_find_le sl key;
        x \<leftarrow> sl_seek (sl_nodes sl) key (sl_level sl) x0;
        nx \<leftarrow> rd_fwd (sl_nodes sl) x 0;
        (case nx of None \<Rightarrow> Some None | Some y \<Rightarrow> rd_pid (sl_nodes sl) y) })"

text \<open>\<^verbatim>\<open>pid_rb_skiplist_destroy\<close> frees along level 0 and erases the nodes of the top level from the tree.\<close>

definition rb_free_node :: "rb_api \<Rightarrow> pid_rb_skiplist \<Rightarrow> addr \<Rightarrow> pid_rb_skiplist option" where
  "rb_free_node api sl a = do {
     n \<leftarrow> sl_nodes sl a;
     let sl1 = (if in_rb_tree n then sl\<lparr>top_rb_root := rb_erase api a (top_rb_root sl)\<rparr> else sl);
     h \<leftarrow> kfree_node (sl_nodes sl1) a;
     Some (sl1\<lparr>sl_nodes := h\<rparr>) }"

partial_function (option) rb_free_chain ::
  "rb_api \<Rightarrow> pid_rb_skiplist \<Rightarrow> addr option \<Rightarrow> pid_rb_skiplist option" where
  "rb_free_chain api sl x =
     (case x of None \<Rightarrow> Some sl
      | Some a \<Rightarrow> (case rd_fwd (sl_nodes sl) a 0 of None \<Rightarrow> None
          | Some nx \<Rightarrow> Option.bind (rb_free_node api sl a) (\<lambda>sl'. rb_free_chain api sl' nx)))"

definition pid_rb_skiplist_destroy :: "rb_api \<Rightarrow> pid_rb_skiplist \<Rightarrow> pid_rb_skiplist option" where
  "pid_rb_skiplist_destroy api sl = do {
     hdr \<leftarrow> sl_header sl;
     nx \<leftarrow> rd_fwd (sl_nodes sl) hdr 0;
     sl1 \<leftarrow> rb_free_chain api sl nx;
     h \<leftarrow> kfree_node (sl_nodes sl1) hdr;
     Some (sl1\<lparr>sl_nodes := h\<rparr>) }"

end
