(* ===== verification/Skiplist_Chain.thy ===== *)
theory Skiplist_Chain
  imports Pid_Skiplist
begin

text \<open>
  Level chains in the heap and the correctness of the search loops.  \<open>chain h i a xs e\<close> says that the
  level-\<open>i\<close> pointers lead from \<open>a\<close> through the nodes \<open>xs\<close> to the pointer \<open>e\<close>.  \<open>heap_rep h hdr as\<close> is
  the representation relation of a skip list: \<open>as\<close> are its nodes in the order of level 0, strictly
  sorted by key, and every level is the sublist of the nodes that are tall enough.  The facts here
  hold for any extension of the node record and are shared by both variants of the list.
\<close>

section \<open>Views of the heap\<close>

definition key_of :: "'z node_heap \<Rightarrow> addr \<Rightarrow> int" where
  "key_of h a = (case h a of None \<Rightarrow> 0 | Some n \<Rightarrow> n_key n)"

definition pid_of :: "'z node_heap \<Rightarrow> addr \<Rightarrow> paddr option" where
  "pid_of h a = (case h a of None \<Rightarrow> None | Some n \<Rightarrow> n_pid n)"

definition height :: "'z node_heap \<Rightarrow> addr \<Rightarrow> nat" where
  "height h a = (case h a of None \<Rightarrow> 0 | Some n \<Rightarrow> length (n_forward n))"

primrec chain :: "'z node_heap \<Rightarrow> nat \<Rightarrow> addr \<Rightarrow> addr list \<Rightarrow> addr option \<Rightarrow> bool" where
  "chain h i a [] e \<longleftrightarrow> rd_fwd h a i = Some e"
| "chain h i a (b # bs) e \<longleftrightarrow> rd_fwd h a i = Some (Some b) \<and> chain h i b bs e"

definition tall :: "'z node_heap \<Rightarrow> nat \<Rightarrow> addr list \<Rightarrow> addr list" where
  "tall h i as = filter (\<lambda>a. i < height h a) as"

definition heap_rep :: "'z node_heap \<Rightarrow> addr \<Rightarrow> addr list \<Rightarrow> bool" where
  "heap_rep h hdr as \<longleftrightarrow>
     height h hdr = PID_SL_MAX_LEVEL \<and>
     (\<forall>a \<in> set as. 1 \<le> height h a \<and> height h a \<le> PID_SL_MAX_LEVEL) \<and>
     distinct (hdr # as) \<and>
     sorted_wrt (<) (map (key_of h) as) \<and>
     (\<forall>i < PID_SL_MAX_LEVEL. chain h i hdr (tall h i as) None)"

text \<open>Everything of the nodes but their pointers: no loop changes it.\<close>

definition core :: "'z node_heap \<Rightarrow> addr \<Rightarrow> 'z pid_sl_node_scheme option" where
  "core h a = map_option (\<lambda>n. n\<lparr>n_forward := []\<rparr>) (h a)"

text \<open>The node in front of key \<open>k\<close> on level \<open>i\<close>, and the abstract map of the list.\<close>

definition pred_at :: "'z node_heap \<Rightarrow> addr \<Rightarrow> addr list \<Rightarrow> int \<Rightarrow> nat \<Rightarrow> addr" where
  "pred_at h hdr as k i = last (hdr # filter (\<lambda>a. key_of h a < k) (tall h i as))"

definition node_map :: "'z node_heap \<Rightarrow> addr list \<Rightarrow> int \<Rightarrow> paddr option option" where
  "node_map h as = map_of (map (\<lambda>a. (key_of h a, pid_of h a)) as)"

section \<open>Reads and writes\<close>

lemma rd_fwd_None [heap_simps]: "rd_fwd h x i = None \<longleftrightarrow> height h x \<le> i"
  by (auto simp: rd_fwd_def height_def split: option.splits)

lemma rd_fwd_Some_height [heap_simps]: "(\<exists>v. rd_fwd h x i = Some v) \<longleftrightarrow> i < height h x"
  by (auto simp: rd_fwd_def height_def split: option.splits)

lemma rd_fwd_height: "rd_fwd h x i = Some v \<Longrightarrow> i < height h x"
  using rd_fwd_Some_height by blast

lemma height_live: "0 < height h a \<Longrightarrow> \<exists>n. h a = Some n"
  by (auto simp: height_def split: option.splits)

lemma wr_fwd_ok: "i < height h x \<Longrightarrow> \<exists>h'. wr_fwd h x i v = Some h'"
  by (auto simp: wr_fwd_def height_def split: option.splits)

lemma wr_fwd_rd [heap_simps]:
  "wr_fwd h x i v = Some h' \<Longrightarrow>
   rd_fwd h' y j = (if y = x \<and> j = i then Some v else rd_fwd h y j)"
  by (auto simp: wr_fwd_def rd_fwd_def split: option.splits if_splits)

lemma wr_fwd_Some_iff:
  "wr_fwd h x i v = Some h' \<longleftrightarrow> (\<exists>n. h x = Some n \<and> i < length (n_forward n) \<and>
     h' = h(x \<mapsto> n\<lparr>n_forward := (n_forward n)[i := v]\<rparr>))"
  by (auto simp: wr_fwd_def split: option.splits)

lemma upd_node_Some_iff:
  "upd_node h x f = Some h' \<longleftrightarrow> (\<exists>n. h x = Some n \<and> h' = h(x \<mapsto> f n))"
  by (auto simp: upd_node_def split: option.splits)

lemma wr_fwd_views [heap_simps]:
  assumes "wr_fwd h x i v = Some h'"
  shows "height h' = height h" "core h' = core h"
proof -
  from assms obtain n where "h x = Some n"
      "h' = h(x \<mapsto> n\<lparr>n_forward := (n_forward n)[i := v]\<rparr>)"
    by (auto simp: wr_fwd_Some_iff)
  then show "height h' = height h" "core h' = core h"
    by (auto simp: core_def height_def)
qed

lemma core_field:
  assumes "core h' = core h" and "\<And>n. f (n\<lparr>n_forward := []\<rparr>) = f n"
  shows "map_option f (h' a) = map_option f (h a)"
proof -
  from assms(1) have "map_option f (core h' a) = map_option f (core h a)" by simp
  then show ?thesis by (simp add: core_def option.map_comp o_def assms(2))
qed

lemma core_views:
  assumes "core h' = core h"
  shows "key_of h' = key_of h" "pid_of h' = pid_of h" "dom h' = dom h"
proof -
  have key: "key_of h a = (case map_option n_key (h a) of None \<Rightarrow> 0 | Some k \<Rightarrow> k)"
    and pid: "pid_of h a = (case map_option n_pid (h a) of None \<Rightarrow> None | Some p \<Rightarrow> p)"
    for h :: "'a node_heap" and a
    by (auto simp: key_of_def pid_of_def split: option.splits)
  show "key_of h' = key_of h" by (rule ext) (simp add: key core_field [OF assms])
  show "pid_of h' = pid_of h" by (rule ext) (simp add: pid core_field [OF assms])
  have "h' a = None \<longleftrightarrow> h a = None" for a
    using core_field [OF assms, of n_key a] by (cases "h' a"; cases "h a") auto
  then show "dom h' = dom h" by (simp add: dom_def)
qed

lemma upd_node_rd [heap_simps]:
  assumes "upd_node h x f = Some h'" and "\<And>n. n_forward (f n) = n_forward n"
  shows "rd_fwd h' = rd_fwd h" "height h' = height h" "dom h' = dom h"
proof -
  from assms(1) obtain n where h': "h x = Some n" "h' = h(x \<mapsto> f n)"
    by (auto simp: upd_node_Some_iff)
  with assms(2) show "rd_fwd h' = rd_fwd h" "height h' = height h"
    by (auto simp: rd_fwd_def height_def intro!: ext)
  from h' show "dom h' = dom h" by auto
qed

section \<open>Chains\<close>

lemma chain_append:
  "chain h i a (xs @ b # ys) e \<longleftrightarrow> chain h i a xs (Some b) \<and> chain h i b ys e"
  by (induction xs arbitrary: a) auto

lemma chain_cong:
  "(\<And>b. b \<in> set (a # xs) \<Longrightarrow> rd_fwd h' b i = rd_fwd h b i) \<Longrightarrow>
   chain h' i a xs e = chain h i a xs e"
  by (induction xs arbitrary: a) auto

lemma chain_last: "chain h i a xs e \<Longrightarrow> rd_fwd h (last (a # xs)) i = Some e"
  by (induction xs arbitrary: a) auto

lemma chain_height: "chain h i a xs e \<Longrightarrow> b \<in> set (a # xs) \<Longrightarrow> i < height h b"
  by (induction xs arbitrary: a) (auto dest: rd_fwd_height)

text \<open>Splitting a chain at a node of it.\<close>

lemma chain_from:
  assumes "chain h i a (xs @ ys) e" and "x \<in> set (a # xs)"
  shows "\<exists>zs. chain h i x (zs @ ys) e \<and> last (x # zs) = last (a # xs) \<and> set zs \<subseteq> set xs"
proof (cases "x = a")
  case True
  with assms show ?thesis by blast
next
  case False
  with assms(2) obtain us zs where xs: "xs = us @ x # zs"
    by (auto dest: split_list)
  with assms(1) have "chain h i x (zs @ ys) e"
    by (simp add: chain_append)
  with xs show ?thesis by (intro exI [of _ zs]) auto
qed

section \<open>The walk along one level\<close>

lemma sl_walk_chain:
  assumes "chain h i a (xs @ ys) e"
    and "\<forall>x \<in> set xs. h x \<noteq> None \<and> key_of h x < k"
    and "case ys of [] \<Rightarrow> e = None | y # _ \<Rightarrow> h y \<noteq> None \<and> \<not> key_of h y < k"
  shows "sl_walk h k i a = Some (last (a # xs))"
  using assms
proof (induction xs arbitrary: a)
  case Nil
  then show ?case
    by (subst sl_walk.simps) (auto simp: key_of_def split: list.splits option.splits)
next
  case (Cons b xs)
  then have "sl_walk h k i b = Some (last (b # xs))" by simp
  with Cons.prems show ?case
    by (subst sl_walk.simps) (auto simp: key_of_def split: option.splits)
qed

lemma tall_sorted: "heap_rep h hdr as \<Longrightarrow> sorted_wrt (<) (map (key_of h) (tall h i as))"
  by (simp add: heap_rep_def tall_def sorted_wrt_filter_map)

lemma rep_live: "heap_rep h hdr as \<Longrightarrow> a \<in> set (hdr # as) \<Longrightarrow> \<exists>n. h a = Some n"
  by (rule height_live) (auto simp: heap_rep_def PID_SL_MAX_LEVEL_def)

lemma tall_split:
  assumes "heap_rep h hdr as"
  shows "tall h i as = filter (\<lambda>a. key_of h a < k) (tall h i as)
     @ filter (\<lambda>a. \<not> key_of h a < k) (tall h i as)"
  using assms tall_sorted by (intro filter_split_sorted) blast

text \<open>
  From any node that is linked on level \<open>i\<close> and lies in front of \<open>k\<close> the walk ends at the last
  such node.
\<close>

lemma sl_walk_rep:
  assumes rep: "heap_rep h hdr as" and i: "i < PID_SL_MAX_LEVEL"
    and x: "x = hdr \<or> x \<in> set (tall h i as) \<and> key_of h x < k"
  shows "sl_walk h k i x = Some (pred_at h hdr as k i)"
proof -
  let ?L1 = "filter (\<lambda>a. key_of h a < k) (tall h i as)"
  let ?L2 = "filter (\<lambda>a. \<not> key_of h a < k) (tall h i as)"
  have live: "\<forall>a \<in> set (tall h i as). h a \<noteq> None"
    using rep_live [OF rep] by (auto simp: tall_def)
  from rep i have "chain h i hdr (?L1 @ ?L2) None"
    using tall_split [OF rep, of i k] by (simp add: heap_rep_def)
  moreover from x have "x \<in> set (hdr # ?L1)" by auto
  ultimately obtain zs where zs: "chain h i x (zs @ ?L2) None"
      "last (x # zs) = last (hdr # ?L1)" "set zs \<subseteq> set ?L1"
    using chain_from by blast
  have "case ?L2 of [] \<Rightarrow> None = None | y # _ \<Rightarrow> h y \<noteq> None \<and> \<not> key_of h y < k"
  proof (cases ?L2)
    case (Cons y ys)
    then have "y \<in> set ?L2" by simp
    then have "h y \<noteq> None \<and> \<not> key_of h y < k" using live unfolding set_filter by blast
    with Cons show ?thesis by simp
  qed simp
  with zs live have "sl_walk h k i x = Some (last (x # zs))"
    by (intro sl_walk_chain) auto
  with zs(2) show ?thesis by (simp add: pred_at_def)
qed

section \<open>The search through all levels\<close>

text \<open>A node from which a search for \<open>k\<close> may start on levels below \<open>l\<close>.\<close>

definition start_ok :: "'z node_heap \<Rightarrow> addr \<Rightarrow> addr list \<Rightarrow> int \<Rightarrow> nat \<Rightarrow> addr \<Rightarrow> bool" where
  "start_ok h hdr as k l x \<longleftrightarrow> x = hdr \<or> x \<in> set as \<and> key_of h x < k \<and> l \<le> height h x"

lemma start_ok_hdr [simp]: "start_ok h hdr as k l hdr"
  by (simp add: start_ok_def)

lemma pred_at_start_ok: "start_ok h hdr as k i (pred_at h hdr as k i)"
  using last_Cons_mem [of hdr "filter (\<lambda>a. key_of h a < k) (tall h i as)"]
  by (auto simp: start_ok_def pred_at_def tall_def)

lemma sl_walk_start:
  assumes "heap_rep h hdr as" and "i < PID_SL_MAX_LEVEL" and "start_ok h hdr as k (Suc i) x"
  shows "sl_walk h k i x = Some (pred_at h hdr as k i)"
  using assms by (intro sl_walk_rep) (auto simp: start_ok_def tall_def)

lemma sl_search_rep:
  assumes "heap_rep h hdr as" and "l \<le> PID_SL_MAX_LEVEL" and "start_ok h hdr as k l x"
    and "length u = PID_SL_MAX_LEVEL"
  shows "\<exists>u'. sl_search h k l x u = Some (if l = 0 then x else pred_at h hdr as k 0, u') \<and>
     length u' = PID_SL_MAX_LEVEL \<and>
     (\<forall>i < PID_SL_MAX_LEVEL. u' ! i = (if i < l then Some (pred_at h hdr as k i) else u ! i))"
  using assms(2-4)
proof (induction l arbitrary: x u)
  case (Suc l)
  let ?p = "pred_at h hdr as k l"
  from Suc.prems have "sl_walk h k l x = Some ?p"
    by (intro sl_walk_start [OF assms(1)]) auto
  moreover from Suc.prems have "update_set u l ?p = Some (u[l := Some ?p])"
    by (simp add: update_set_def)
  moreover obtain u' where "sl_search h k l ?p (u[l := Some ?p]) =
        Some (if l = 0 then ?p else pred_at h hdr as k 0, u')"
      "length u' = PID_SL_MAX_LEVEL"
      "\<forall>i < PID_SL_MAX_LEVEL. u' ! i =
         (if i < l then Some (pred_at h hdr as k i) else u[l := Some ?p] ! i)"
    using Suc.IH [of ?p "u[l := Some ?p]"] Suc.prems pred_at_start_ok by fastforce
  ultimately show ?case using Suc.prems
    by (intro exI [of _ u']) (auto simp: less_Suc_eq nth_list_update)
qed simp

lemma sl_seek_search:
  "l \<le> length u \<Longrightarrow> sl_seek h k l x = map_option fst (sl_search h k l x u)"
proof (induction l arbitrary: x u)
  case (Suc l)
  then show ?case by (cases "sl_walk h k l x") (auto simp: update_set_def)
qed simp

lemma sl_seek_rep:
  assumes "heap_rep h hdr as" and "l \<le> PID_SL_MAX_LEVEL" and "0 < l"
    and "start_ok h hdr as k l x"
  shows "sl_seek h k l x = Some (pred_at h hdr as k 0)"
proof -
  have len: "length update_init = PID_SL_MAX_LEVEL" by (simp add: update_init_def)
  from sl_search_rep [OF assms(1,2,4) len] assms(3)
  show ?thesis using assms(2) len
    by (auto simp: sl_seek_search [where u = update_init])
qed

section \<open>The successor on level 0\<close>

lemma tall_0: "heap_rep h hdr as \<Longrightarrow> tall h 0 as = as"
  by (auto simp: heap_rep_def tall_def filter_id_conv Suc_le_eq)

lemma rd_pred_at:
  assumes rep: "heap_rep h hdr as" and i: "i < PID_SL_MAX_LEVEL"
  shows "rd_fwd h (pred_at h hdr as k i) i
     = Some (List.find (\<lambda>a. k \<le> key_of h a) (tall h i as))"
proof -
  let ?L1 = "filter (\<lambda>a. key_of h a < k) (tall h i as)"
  let ?L2 = "filter (\<lambda>a. \<not> key_of h a < k) (tall h i as)"
  have ch: "chain h i hdr (?L1 @ ?L2) None"
    using rep i tall_split [OF rep, of i k] by (simp add: heap_rep_def)
  show ?thesis
  proof (cases ?L2)
    case Nil
    with ch show ?thesis
      by (auto simp: pred_at_def find_filter not_less dest: chain_last)
  next
    case (Cons y ys)
    with ch have "chain h i hdr ?L1 (Some y)" by (simp add: chain_append)
    with Cons show ?thesis
      by (auto simp: pred_at_def find_filter not_less dest: chain_last)
  qed
qed

end
