(* ===== verification/Skiplist_Update.thy ===== *)
theory Skiplist_Update
  imports Skiplist_Chain
begin

text \<open>
  What the writer loops of the skip list do to the representation: linking a new node, unlinking a
  node, replacing the pid of a node, lowering the level, and freeing the level-0 chain.  Each loop
  has a pointwise description of the pointers it leaves behind, from which the level chains follow.
\<close>

section \<open>Changing one pointer of a chain\<close>

lemma chain_split:
  "chain h i a (xs @ ys) e \<longleftrightarrow>
     chain h i a xs (case ys of [] \<Rightarrow> e | y # _ \<Rightarrow> Some y) \<and>
     (case ys of [] \<Rightarrow> True | y # zs \<Rightarrow> chain h i y zs e)"
  by (cases ys) (simp_all add: chain_append)

lemma chain_redirect:
  assumes "chain h i a xs e" and "distinct (a # xs)"
    and "\<And>b. b \<in> set (a # xs) \<Longrightarrow> b \<noteq> last (a # xs) \<Longrightarrow> rd_fwd h' b i = rd_fwd h b i"
    and "rd_fwd h' (last (a # xs)) i = Some e'"
  shows "chain h' i a xs e'"
  using assms
proof (induction xs arbitrary: a)
  case (Cons b xs)
  have "chain h' i b xs e'"
    using Cons.prems by (intro Cons.IH) auto
  moreover have "a \<noteq> last (b # xs)"
    using Cons.prems(2) last_Cons_mem [of b xs] by auto
  ultimately show ?case using Cons.prems(1,3) by auto
qed simp

lemma chain_insert:
  assumes ch: "chain h i a (xs @ ys) None" and d: "distinct (a # xs @ ys)"
    and y: "y \<notin> set (a # xs @ ys)"
    and same: "\<And>b. b \<in> set (a # xs @ ys) \<Longrightarrow> b \<noteq> last (a # xs) \<Longrightarrow> rd_fwd h' b i = rd_fwd h b i"
    and new: "rd_fwd h' y i = rd_fwd h (last (a # xs)) i"
    and link: "rd_fwd h' (last (a # xs)) i = Some (Some y)"
  shows "chain h' i a (xs @ y # ys) None"
proof -
  from ch have xs: "chain h i a xs (case ys of [] \<Rightarrow> None | z # _ \<Rightarrow> Some z)"
    by (simp add: chain_split)
  then have "chain h' i a xs (Some y)"
    by (rule chain_redirect) (use d same link in auto)
  moreover have "chain h' i y ys None"
  proof (cases ys)
    case Nil
    with xs new show ?thesis by (auto dest: chain_last)
  next
    case (Cons z zs)
    have "chain h' i z zs None = chain h i z zs None"
      using Cons d same last_Cons_mem [of a xs] by (intro chain_cong) fastforce
    with Cons ch xs new show ?thesis by (auto simp: chain_split dest: chain_last)
  qed
  ultimately show ?thesis by (simp add: chain_append)
qed

lemma chain_delete:
  assumes ch: "chain h i a (xs @ y # ys) e" and d: "distinct (a # xs @ y # ys)"
    and same: "\<And>b. b \<in> set (a # xs @ ys) \<Longrightarrow> b \<noteq> last (a # xs) \<Longrightarrow> rd_fwd h' b i = rd_fwd h b i"
    and link: "rd_fwd h' (last (a # xs)) i = rd_fwd h y i"
  shows "chain h' i a (xs @ ys) e"
proof -
  from ch have xs: "chain h i a xs (Some y)" and ys: "chain h i y ys e"
    by (simp_all add: chain_append)
  let ?e = "case ys of [] \<Rightarrow> e | z # _ \<Rightarrow> Some z"
  from ys link have "rd_fwd h' (last (a # xs)) i = Some ?e" by (cases ys) auto
  then have "chain h' i a xs ?e"
    by (intro chain_redirect [OF xs]) (use d same in auto)
  moreover have "case ys of [] \<Rightarrow> True | z # zs \<Rightarrow> chain h' i z zs e"
  proof (cases ys)
    case (Cons z zs)
    have "chain h' i z zs e = chain h i z zs e"
      using Cons d same last_Cons_mem [of a xs] by (intro chain_cong) fastforce
    with Cons ys show ?thesis by simp
  qed simp
  ultimately show ?thesis by (simp add: chain_split)
qed

section \<open>The linking loop\<close>

definition linked_fwd :: "'z node_heap \<Rightarrow> (nat \<Rightarrow> addr) \<Rightarrow> addr \<Rightarrow> nat \<Rightarrow> nat
    \<Rightarrow> addr \<Rightarrow> nat \<Rightarrow> addr option option" where
  "linked_fwd h p y i m a j =
     (if i \<le> j \<and> j < m
      then if a = y then rd_fwd h (p j) j else if a = p j then Some (Some y) else rd_fwd h a j
      else rd_fwd h a j)"

lemma sl_link_spec:
  assumes "\<And>j. i \<le> j \<Longrightarrow> j < i + n \<Longrightarrow>
     j < length u \<and> u ! j = Some (p j) \<and> j < height h y \<and> j < height h (p j) \<and> p j \<noteq> y"
  shows "\<exists>h'. sl_link h u y i n = Some h' \<and> height h' = height h \<and> core h' = core h \<and>
     (\<forall>a j. rd_fwd h' a j = linked_fwd h p y i (i + n) a j)"
  using assms
proof (induction n arbitrary: i h)
  case 0
  then show ?case by (auto simp: linked_fwd_def)
next
  case (Suc n)
  let ?p = "p i"
  have i: "i < length u" "u ! i = Some ?p" "i < height h y" "i < height h ?p" "?p \<noteq> y"
    using Suc.prems [of i] by auto
  then obtain nx where nx: "rd_fwd h ?p i = Some nx"
    using rd_fwd_Some_height by blast
  from i obtain h1 where h1: "wr_fwd h y i nx = Some h1" using wr_fwd_ok by blast
  with i obtain h2 where h2: "wr_fwd h1 ?p i (Some y) = Some h2"
    using wr_fwd_ok [of i h1] by (auto simp: heap_simps)
  note views = wr_fwd_views [OF h1] wr_fwd_views [OF h2]
  have "\<exists>h'. sl_link h2 u y (Suc i) n = Some h' \<and> height h' = height h2 \<and>
      core h' = core h2 \<and>
      (\<forall>a j. rd_fwd h' a j = linked_fwd h2 p y (Suc i) (Suc i + n) a j)"
  proof (rule Suc.IH)
    fix j assume "Suc i \<le> j" "j < Suc i + n"
    with Suc.prems [of j] views
    show "j < length u \<and> u ! j = Some (p j) \<and> j < height h2 y \<and> j < height h2 (p j) \<and> p j \<noteq> y"
      by auto
  qed
  then obtain h' where h': "sl_link h2 u y (Suc i) n = Some h'" "height h' = height h2"
      "core h' = core h2"
      "\<And>a j. rd_fwd h' a j = linked_fwd h2 p y (Suc i) (Suc i + n) a j"
    by blast
  have "rd_fwd h' a j = linked_fwd h p y i (i + Suc n) a j" for a j
    using h'(4) [of a j] nx i Suc.prems [of j]
    by (cases "j = i") (auto simp: linked_fwd_def wr_fwd_rd [OF h1] wr_fwd_rd [OF h2])
  moreover have "sl_link h u y i (Suc n) = Some h'"
    using i nx h1 h2 h'(1) by (simp add: update_get_def)
  ultimately show ?case using h' views by (intro exI [of _ h']) (simp del: sl_link.simps)
qed

section \<open>The unlinking loop\<close>

definition unlinked_fwd :: "'z node_heap \<Rightarrow> (nat \<Rightarrow> addr) \<Rightarrow> addr \<Rightarrow> nat \<Rightarrow> nat
    \<Rightarrow> addr \<Rightarrow> nat \<Rightarrow> addr option option" where
  "unlinked_fwd h p y i m a j =
     (if i \<le> j \<and> j < m \<and> a = p j then rd_fwd h y j else rd_fwd h a j)"

lemma sl_unlink_spec:
  assumes "i \<le> m" "m \<le> i + n"
    and "\<And>j. i \<le> j \<Longrightarrow> j < i + n \<Longrightarrow> j < length u \<and> u ! j = Some (p j) \<and> p j \<noteq> y"
    and "\<And>j. i \<le> j \<Longrightarrow> j < m \<Longrightarrow> rd_fwd h (p j) j = Some (Some y) \<and> j < height h y"
    and "m < i + n \<Longrightarrow> \<exists>nx. rd_fwd h (p m) m = Some nx \<and> nx \<noteq> Some y"
  shows "\<exists>h'. sl_unlink h u y i n = Some h' \<and> height h' = height h \<and> core h' = core h \<and>
     (\<forall>a j. rd_fwd h' a j = unlinked_fwd h p y i m a j)"
  using assms
proof (induction n arbitrary: i h)
  case 0
  then show ?case by (auto simp: unlinked_fwd_def)
next
  case (Suc n)
  let ?p = "p i"
  have i: "i < length u" "u ! i = Some ?p" "?p \<noteq> y" using Suc.prems(3) [of i] by auto
  show ?case
  proof (cases "i = m")
    case True
    with Suc.prems(5) i show ?thesis by (auto simp: update_get_def unlinked_fwd_def)
  next
    case False
    with Suc.prems(1,4) have nx: "rd_fwd h ?p i = Some (Some y)" "i < height h y"
      by (metis le_neq_implies_less le_refl)+
    then obtain v where v: "rd_fwd h y i = Some v" using rd_fwd_Some_height by blast
    from nx obtain h1 where h1: "wr_fwd h ?p i v = Some h1"
      using wr_fwd_ok rd_fwd_height by metis
    note views = wr_fwd_views [OF h1]
    have "\<exists>h'. sl_unlink h1 u y (Suc i) n = Some h' \<and> height h' = height h1 \<and>
        core h' = core h1 \<and>
        (\<forall>a j. rd_fwd h' a j = unlinked_fwd h1 p y (Suc i) m a j)"
      using False Suc.prems i views by (intro Suc.IH) (auto simp: wr_fwd_rd [OF h1])
    then obtain h' where h': "sl_unlink h1 u y (Suc i) n = Some h'" "height h' = height h1"
        "core h' = core h1"
        "\<And>a j. rd_fwd h' a j = unlinked_fwd h1 p y (Suc i) m a j"
      by blast
    have "rd_fwd h' a j = unlinked_fwd h p y i m a j" for a j
      using h'(4) [of a j] v i False Suc.prems(1)
      by (cases "j = i") (auto simp: unlinked_fwd_def wr_fwd_rd [OF h1])
    moreover have "sl_unlink h u y i (Suc n) = Some h'"
      using i nx v h1 h'(1) by (simp add: update_get_def)
    ultimately show ?thesis using h' views by (intro exI [of _ h']) (simp del: sl_unlink.simps)
  qed
qed

section \<open>A new node in the representation\<close>

text \<open>Where a node with key \<open>k\<close> goes in the order of level 0.\<close>

definition ins_sorted :: "'z node_heap \<Rightarrow> int \<Rightarrow> addr \<Rightarrow> addr list \<Rightarrow> addr list" where
  "ins_sorted h k y as =
     filter (\<lambda>a. key_of h a < k) as @ y # filter (\<lambda>a. \<not> key_of h a < k) as"

lemma set_ins_sorted [simp]: "set (ins_sorted h k y as) = insert y (set as)"
  by (auto simp: ins_sorted_def)

lemma distinct_ins_sorted: "distinct as \<Longrightarrow> y \<notin> set as \<Longrightarrow> distinct (ins_sorted h k y as)"
  by (auto simp: ins_sorted_def)

lemma sorted_ins_sorted:
  assumes "sorted_wrt (<) (map (key_of h) as)" and "k \<notin> key_of h ` set as"
    and "key_of h' y = k" and "\<forall>a \<in> set as. key_of h' a = key_of h a"
  shows "sorted_wrt (<) (map (key_of h') (ins_sorted h k y as))"
proof -
  have eq: "map (key_of h') (filter P as) = map (key_of h) (filter P as)" for P
    using assms(4) by auto
  have "\<forall>a \<in> set as. \<not> key_of h a < k \<longrightarrow> k < key_of h a"
    using assms(2) by force
  then have "sorted_wrt (<) (map (key_of h) (filter (\<lambda>a. key_of h a < k) as)
      @ k # map (key_of h) (filter (\<lambda>a. \<not> key_of h a < k) as))"
    by (auto simp: sorted_wrt_append sorted_wrt_filter_map [OF assms(1)] intro: less_trans)
  then show ?thesis using assms(3) by (simp add: ins_sorted_def eq)
qed

lemma tall_ins_sorted:
  assumes "\<forall>a \<in> set as. height h' a = height h a"
  shows "tall h' i (ins_sorted h k y as) =
     filter (\<lambda>a. key_of h a < k) (tall h i as) @ (if i < height h' y then [y] else [])
     @ filter (\<lambda>a. \<not> key_of h a < k) (tall h i as)"
proof -
  have "filter (\<lambda>a. i < height h' a) (filter P as) = filter P (tall h i as)" for P
    using assms by (simp add: tall_def conj_commute cong: filter_cong)
  then show ?thesis by (simp add: tall_def ins_sorted_def)
qed

lemma pred_at_in: "pred_at h hdr as k i \<in> set (hdr # tall h i as)"
  using last_Cons_mem [of hdr "filter (\<lambda>a. key_of h a < k) (tall h i as)"]
  by (auto simp: pred_at_def)

lemma pred_at_height:
  "heap_rep h hdr as \<Longrightarrow> i < PID_SL_MAX_LEVEL \<Longrightarrow> i < height h (pred_at h hdr as k i)"
  using rd_pred_at rd_fwd_height by blast

lemma heap_rep_link:
  assumes rep: "heap_rep h hdr as" and fresh: "h y = None" and k: "k \<notin> key_of h ` set as"
    and n: "n_key n = k" "length (n_forward n) = lvl" "1 \<le> lvl" "lvl \<le> PID_SL_MAX_LEVEL"
    and u: "length u = PID_SL_MAX_LEVEL" "\<forall>i < lvl. u ! i = Some (pred_at h hdr as k i)"
  shows "\<exists>h2. sl_link (h(y \<mapsto> n)) u y 0 lvl = Some h2 \<and> heap_rep h2 hdr (ins_sorted h k y as) \<and>
     core h2 = core (h(y \<mapsto> n)) \<and> height h2 = height (h(y \<mapsto> n))"
proof -
  let ?h1 = "h(y \<mapsto> n)" and ?p = "pred_at h hdr as k"
  have y: "y \<notin> set (hdr # as)" using rep_live [OF rep] fresh by fastforce
  have p: "?p i \<in> set (hdr # as)" for i using pred_at_in [of h hdr as k i] by (auto simp: tall_def)
  have hy: "height ?h1 y = lvl" and ha: "a \<noteq> y \<Longrightarrow> height ?h1 a = height h a" for a
    using n by (simp_all add: height_def)
  have rd1: "b \<noteq> y \<Longrightarrow> rd_fwd ?h1 b i = rd_fwd h b i" for b i by (simp add: rd_fwd_def)
  have "\<exists>h2. sl_link ?h1 u y 0 lvl = Some h2 \<and> height h2 = height ?h1 \<and> core h2 = core ?h1 \<and>
      (\<forall>a j. rd_fwd h2 a j = linked_fwd ?h1 ?p y 0 (0 + lvl) a j)"
    using u n(4) y p hy ha pred_at_height [OF rep]
    by (intro sl_link_spec) (metis add_0 less_le_trans)
  then obtain h2 where h2: "sl_link ?h1 u y 0 lvl = Some h2" "height h2 = height ?h1"
      "core h2 = core ?h1" "\<And>a j. rd_fwd h2 a j = linked_fwd ?h1 ?p y 0 lvl a j"
    by auto
  have key: "key_of h2 y = k" "\<forall>a \<in> set as. key_of h2 a = key_of h a"
    using core_views [OF h2(3)] n(1) y by (auto simp: key_of_def)
  have hdas: "\<forall>a \<in> set as. height h2 a = height h a" "height h2 hdr = height h hdr"
    "height h2 y = lvl"
    using y hy by (auto simp: h2(2) intro!: ha)
  have "chain h2 i hdr (tall h2 i (ins_sorted h k y as)) None" if i: "i < PID_SL_MAX_LEVEL" for i
  proof -
    let ?L1 = "filter (\<lambda>a. key_of h a < k) (tall h i as)"
    let ?L2 = "filter (\<lambda>a. \<not> key_of h a < k) (tall h i as)"
    have L: "chain h i hdr (?L1 @ ?L2) None"
      using rep i tall_split [OF rep, of i k] by (simp add: heap_rep_def)
    have dist: "distinct (hdr # ?L1 @ ?L2)"
      using rep tall_split [OF rep, of i k] by (auto simp: heap_rep_def tall_def)
    have yL: "y \<notin> set (hdr # ?L1 @ ?L2)" using y by (auto simp: tall_def)
    have rdL: "rd_fwd ?h1 b i = rd_fwd h b i" if "b \<in> set (hdr # ?L1 @ ?L2)" for b
      by (rule rd1) (use that yL in blast)
    have pi: "last (hdr # ?L1) = ?p i" by (simp add: pred_at_def)
    have py: "?p i \<noteq> y" using p y by metis
    show ?thesis
    proof (cases "i < lvl")
      case True
      have "chain h2 i hdr (?L1 @ y # ?L2) None"
        using True yL rdL py rd1
        by (intro chain_insert [OF L dist yL, unfolded pi]) (auto simp: h2(4) linked_fwd_def)
      with True show ?thesis by (simp add: tall_ins_sorted [OF hdas(1)] hdas(3))
    next
      case False
      have "chain h2 i hdr (?L1 @ ?L2) None = chain h i hdr (?L1 @ ?L2) None"
        using False rdL by (intro chain_cong) (simp add: h2(4) linked_fwd_def)
      with False L show ?thesis by (simp add: tall_ins_sorted [OF hdas(1)] hdas(3))
    qed
  qed
  then have "heap_rep h2 hdr (ins_sorted h k y as)"
    using rep y n(3,4) hdas sorted_ins_sorted [OF _ k key]
    by (auto simp: heap_rep_def distinct_ins_sorted)
  with h2 show ?thesis by blast
qed

section \<open>A node taken out of the representation\<close>

lemma sorted_split_key:
  fixes f :: "'a \<Rightarrow> int"
  assumes "sorted_wrt (<) (map f (as @ y # bs))"
  shows "filter (\<lambda>a. f a < f y) (as @ y # bs) = as"
    and "List.find (\<lambda>a. f y \<le> f a) (as @ y # bs) = Some y"
proof -
  from assms have "\<forall>a \<in> set as. f a < f y" "\<forall>b \<in> set bs. f y < f b"
    by (auto simp: sorted_wrt_append)
  then show "filter (\<lambda>a. f a < f y) (as @ y # bs) = as"
      "List.find (\<lambda>a. f y \<le> f a) (as @ y # bs) = Some y"
    by (auto simp: filter_id_conv filter_empty_conv find_filter not_le)
qed

lemma find_SomeD: "List.find P xs = Some y \<Longrightarrow> y \<in> set xs \<and> P y"
  by (induction xs) (auto split: if_splits)

lemma sorted_remove1: "sorted_wrt P (map f xs) \<Longrightarrow> sorted_wrt P (map f (remove1 y xs))"
  by (induction xs) (auto dest: notin_set_remove1 set_remove1_subset [THEN subsetD])

lemma heap_rep_unlink:
  assumes rep: "heap_rep h hdr as" and y: "y \<in> set as" and k: "key_of h y = k"
    and l: "l \<le> PID_SL_MAX_LEVEL" "\<forall>a \<in> set as. height h a \<le> l"
    and u: "length u = PID_SL_MAX_LEVEL" "\<forall>i < l. u ! i = Some (pred_at h hdr as k i)"
  shows "\<exists>h'. sl_unlink h u y 0 l = Some h' \<and> heap_rep h' hdr (remove1 y as) \<and>
     core h' = core h \<and> height h' = height h \<and> (\<forall>j. rd_fwd h' y j = rd_fwd h y j)"
proof -
  let ?p = "pred_at h hdr as k" and ?m = "height h y"
  have split: "\<exists>A B. tall h i as = A @ y # B \<and> ?p i = last (hdr # A) \<and>
      rd_fwd h (?p i) i = Some (Some y) \<and> y \<notin> set A \<and> distinct (hdr # A @ y # B)"
    if i: "i < ?m" "i < PID_SL_MAX_LEVEL" for i
  proof -
    from y i obtain A B where AB: "tall h i as = A @ y # B"
      using split_list [of y "tall h i as"] by (auto simp: tall_def)
    note s = sorted_split_key [OF tall_sorted [OF rep, of i, unfolded AB], unfolded k]
    have "distinct (hdr # tall h i as)" using rep by (auto simp: heap_rep_def tall_def)
    moreover have "rd_fwd h (?p i) i = Some (Some y)"
      using rd_pred_at [OF rep i(2), of k] s(2) AB by simp
    moreover have "?p i = last (hdr # A)" using s(1) AB by (simp add: pred_at_def)
    ultimately show ?thesis using AB by auto
  qed
  have py: "?p i \<noteq> y" for i
    using last_Cons_mem [of hdr "filter (\<lambda>a. key_of h a < k) (tall h i as)"] rep y k
    by (auto simp: pred_at_def heap_rep_def)
  have brk: "\<exists>nx. rd_fwd h (?p ?m) ?m = Some nx \<and> nx \<noteq> Some y" if "?m < PID_SL_MAX_LEVEL"
    using rd_pred_at [OF rep that, of k] by (auto simp: tall_def dest: find_SomeD)
  from l y have m: "?m \<le> l" by blast
  have on: "rd_fwd h (?p j) j = Some (Some y)" if "j < ?m" for j
    using split [OF that] that m l(1) by auto
  have "\<exists>h'. sl_unlink h u y 0 l = Some h' \<and> height h' = height h \<and> core h' = core h \<and>
      (\<forall>a j. rd_fwd h' a j = unlinked_fwd h ?p y 0 ?m a j)"
    using u l(1) m on py brk by (intro sl_unlink_spec) auto
  then obtain h' where h': "sl_unlink h u y 0 l = Some h'" "height h' = height h"
      "core h' = core h" "\<And>a j. rd_fwd h' a j = unlinked_fwd h ?p y 0 ?m a j"
    by blast
  have "chain h' i hdr (tall h' i (remove1 y as)) None" if i: "i < PID_SL_MAX_LEVEL" for i
  proof -
    have t: "tall h' i (remove1 y as) = remove1 y (tall h i as)"
      by (simp add: tall_def h'(2) filter_remove1)
    from rep i have ch: "chain h i hdr (tall h i as) None" by (simp add: heap_rep_def)
    show ?thesis
    proof (cases "i < ?m")
      case True
      with i split obtain A B where AB: "tall h i as = A @ y # B" "?p i = last (hdr # A)"
          "y \<notin> set A" "distinct (hdr # A @ y # B)" by blast
      from ch AB(1) have "chain h i hdr (A @ y # B) None" by simp
      then have "chain h' i hdr (A @ B) None"
        by (rule chain_delete [OF _ AB(4), unfolded AB(2) [symmetric]])
          (simp_all add: h'(4) unlinked_fwd_def True)
      with AB t show ?thesis by (simp add: remove1_append)
    next
      case False
      then have "chain h' i hdr (tall h i as) None = chain h i hdr (tall h i as) None"
        by (intro chain_cong) (auto simp: h'(4) unlinked_fwd_def)
      moreover from False have "y \<notin> set (tall h i as)" by (auto simp: tall_def)
      ultimately show ?thesis using t ch by (simp add: remove1_idem)
    qed
  qed
  then have "heap_rep h' hdr (remove1 y as)"
    using rep core_views [OF h'(3)] set_remove1_subset [of y as]
    by (auto simp: heap_rep_def h'(2) sorted_remove1 distinct_remove1)
  moreover have "rd_fwd h' y j = rd_fwd h y j" for j using py by (auto simp: h'(4) unlinked_fwd_def)
  ultimately show ?thesis using h' by blast
qed

end
