(* ===== verification/Skiplist_Rep.thy ===== *)
theory Skiplist_Rep
  imports Skiplist_Update
begin

text \<open>
  The invariant of a whole skip list and its abstraction.  \<open>sl_rep sl hdr as\<close> adds to the heap
  representation the bounds on the level, the recorded node levels, and an exact account of the
  memory: the live cells are the header, the nodes of the list, and the removed nodes that wait for
  the end of their grace period.  \<open>sl_abs\<close> is the finite map from numbers to pid pointers that the
  list stands for; a number may be bound to \<^verbatim>\<open>NULL\<close>.

  The lemmas describe the building blocks of the operations (search, link, unlink, trim) at this
  level, for any extension of the node and of the list record.
\<close>

section \<open>Abstraction and invariant\<close>

partial_function (option) sl_collect :: "'z node_heap \<Rightarrow> addr option \<Rightarrow> addr list option" where
  "sl_collect h x =
     (case x of None \<Rightarrow> Some []
      | Some a \<Rightarrow> (case rd_fwd h a 0 of None \<Rightarrow> None
          | Some nx \<Rightarrow> Option.bind (sl_collect h nx) (\<lambda>as. Some (a # as))))"

definition sl_addrs :: "('z pid_sl_node_scheme, 'y) sl_struct_scheme \<Rightarrow> addr list" where
  "sl_addrs sl =
     (case sl_header sl of None \<Rightarrow> []
      | Some hdr \<Rightarrow> (case rd_fwd (sl_nodes sl) hdr 0 of None \<Rightarrow> []
          | Some nx \<Rightarrow> (case sl_collect (sl_nodes sl) nx of None \<Rightarrow> [] | Some as \<Rightarrow> as)))"

definition sl_abs :: "('z pid_sl_node_scheme, 'y) sl_struct_scheme \<Rightarrow> int \<Rightarrow> paddr option option" where
  "sl_abs sl = node_map (sl_nodes sl) (sl_addrs sl)"

definition sl_rep :: "('z pid_sl_node_scheme, 'y) sl_struct_scheme \<Rightarrow> addr \<Rightarrow> addr list \<Rightarrow> bool" where
  "sl_rep sl hdr as \<longleftrightarrow>
     sl_header sl = Some hdr \<and> heap_rep (sl_nodes sl) hdr as \<and>
     1 \<le> sl_level sl \<and> sl_level sl \<le> PID_SL_MAX_LEVEL \<and>
     (\<forall>a \<in> set as. height (sl_nodes sl) a \<le> sl_level sl) \<and>
     (\<forall>a \<in> set (hdr # as). map_option (\<lambda>n. unat (n_level n)) (sl_nodes sl a)
        = Some (height (sl_nodes sl) a)) \<and>
     distinct (hdr # as @ sl_rcu sl) \<and> dom (sl_nodes sl) = set (hdr # as @ sl_rcu sl) \<and>
     (\<forall>a \<in> dom (sl_nodes sl). a < sl_brk sl)"

definition sl_inv :: "('z pid_sl_node_scheme, 'y) sl_struct_scheme \<Rightarrow> bool" where
  "sl_inv sl \<longleftrightarrow> (\<exists>hdr as. sl_rep sl hdr as)"

lemma sl_collect_chain:
  "chain h 0 a xs None \<Longrightarrow> \<exists>nx. rd_fwd h a 0 = Some nx \<and> sl_collect h nx = Some xs"
proof (induction xs arbitrary: a)
  case Nil
  then show ?case by (simp add: sl_collect.simps)
next
  case (Cons b xs)
  then obtain nx where "rd_fwd h b 0 = Some nx" "sl_collect h nx = Some xs" by auto
  then have "sl_collect h (Some b) = Some (b # xs)"
    by (subst sl_collect.simps) simp
  with Cons.prems show ?case by simp
qed

lemma heap_rep_rep: "sl_rep sl hdr as \<Longrightarrow> heap_rep (sl_nodes sl) hdr as"
  by (simp add: sl_rep_def)

lemma rep_chain_0: "sl_rep sl hdr as \<Longrightarrow> chain (sl_nodes sl) 0 hdr as None"
proof -
  assume "sl_rep sl hdr as"
  then have rep: "heap_rep (sl_nodes sl) hdr as" by (rule heap_rep_rep)
  then have "chain (sl_nodes sl) 0 hdr (tall (sl_nodes sl) 0 as) None"
    by (simp add: heap_rep_def PID_SL_MAX_LEVEL_def)
  then show ?thesis by (simp add: tall_0 [OF rep])
qed

lemma sl_addrs_rep: "sl_rep sl hdr as \<Longrightarrow> sl_addrs sl = as"
proof -
  assume r: "sl_rep sl hdr as"
  from sl_collect_chain [OF rep_chain_0 [OF r]] r show ?thesis
    by (auto simp: sl_addrs_def sl_rep_def)
qed

lemma sl_abs_rep: "sl_rep sl hdr as \<Longrightarrow> sl_abs sl = node_map (sl_nodes sl) as"
  by (simp add: sl_abs_def sl_addrs_rep)

lemma sl_inv_iff: "sl_inv sl \<longleftrightarrow> (\<exists>hdr. sl_rep sl hdr (sl_addrs sl))"
  using sl_addrs_rep by (auto simp: sl_inv_def)

lemma sl_invE:
  assumes "sl_inv sl"
  obtains hdr as where "sl_rep sl hdr as" "sl_abs sl = node_map (sl_nodes sl) as"
  using assms unfolding sl_inv_def by (blast intro: sl_abs_rep)

section \<open>The abstract map\<close>

lemma dom_node_map: "dom (node_map h as) = key_of h ` set as"
  by (auto simp: node_map_def dom_map_of_conv_image_fst image_image)

lemma node_map_None: "node_map h as k = None \<longleftrightarrow> k \<notin> key_of h ` set as"
  by (simp flip: dom_node_map add: domIff)

lemma node_map_Some:
  assumes "sorted_wrt (<) (map (key_of h) as)"
  shows "node_map h as k = Some v \<longleftrightarrow> (\<exists>a \<in> set as. key_of h a = k \<and> pid_of h a = v)"
proof -
  have "distinct (map fst (map (\<lambda>a. (key_of h a, pid_of h a)) as))"
    using assms by (simp add: strict_sorted_iff o_def)
  then show ?thesis by (auto simp: node_map_def map_of_eq_Some_iff)
qed

lemma option_eqI: "(\<And>v. x = Some v \<longleftrightarrow> y = Some v) \<Longrightarrow> x = y"
  by (cases x; cases y) auto

lemma node_map_ins_sorted:
  assumes "sorted_wrt (<) (map (key_of h) as)" and "k \<notin> key_of h ` set as"
    and "key_of h' y = k" and "\<forall>a \<in> set as. key_of h' a = key_of h a \<and> pid_of h' a = pid_of h a"
  shows "node_map h' (ins_sorted h k y as) = (node_map h as)(k \<mapsto> pid_of h' y)"
proof -
  have "sorted_wrt (<) (map (key_of h') (ins_sorted h k y as))"
    using assms by (intro sorted_ins_sorted) auto
  note iff = node_map_Some [OF this] node_map_Some [OF assms(1)]
  have "\<forall>a \<in> set as. key_of h a \<noteq> k" using assms(2) by blast
  then show ?thesis
    by (intro ext option_eqI) (use assms(3,4) in \<open>auto simp: iff\<close>)
qed

lemma node_map_remove1:
  assumes "sorted_wrt (<) (map (key_of h) as)" and "y \<in> set as" and "distinct as"
  shows "node_map h (remove1 y as) = (node_map h as)(key_of h y := None)"
proof -
  note iff = node_map_Some [OF sorted_remove1 [OF assms(1)]] node_map_Some [OF assms(1)]
  have "inj_on (key_of h) (set as)"
    using assms(1) by (simp add: strict_sorted_iff distinct_map)
  then show ?thesis
    by (intro ext option_eqI) (use assms in \<open>auto simp: iff inj_on_def\<close>)
qed

lemma node_map_upd_pid:
  assumes "sorted_wrt (<) (map (key_of h) as)" and "y \<in> set as"
    and "key_of h' = key_of h" and "pid_of h' = (pid_of h)(y := p)"
  shows "node_map h' as = (node_map h as)(key_of h y \<mapsto> p)"
proof -
  have "sorted_wrt (<) (map (key_of h') as)" using assms by simp
  note iff = node_map_Some [OF this] node_map_Some [OF assms(1)]
  have "inj_on (key_of h) (set as)"
    using assms(1) by (simp add: strict_sorted_iff distinct_map)
  then show ?thesis
    by (intro ext option_eqI) (use assms in \<open>auto simp: iff inj_on_def split: if_splits\<close>)
qed

section \<open>Searching\<close>

lemma rep_sorted: "sl_rep sl hdr as \<Longrightarrow> sorted_wrt (<) (map (key_of (sl_nodes sl)) as)"
  by (simp add: sl_rep_def heap_rep_def)

text \<open>What the writers know after the search: the predecessor on every level.\<close>

definition upd_ok :: "'z node_heap \<Rightarrow> addr \<Rightarrow> addr list \<Rightarrow> int \<Rightarrow> nat \<Rightarrow> update_array \<Rightarrow> bool" where
  "upd_ok h hdr as k l u \<longleftrightarrow> length u = PID_SL_MAX_LEVEL \<and>
     (\<forall>i < l. u ! i = Some (pred_at h hdr as k i))"

lemma sl_search_ok:
  assumes "sl_rep sl hdr as" and "start_ok (sl_nodes sl) hdr as k (sl_level sl) x"
  shows "\<exists>u. sl_search (sl_nodes sl) k (sl_level sl) x update_init
       = Some (pred_at (sl_nodes sl) hdr as k 0, u) \<and> upd_ok (sl_nodes sl) hdr as k (sl_level sl) u"
proof -
  from assms have "sl_level sl \<le> PID_SL_MAX_LEVEL" "0 < sl_level sl"
    by (auto simp: sl_rep_def)
  with sl_search_rep [OF heap_rep_rep [OF assms(1)] _ assms(2), of update_init]
  show ?thesis by (auto simp: update_init_def upd_ok_def)
qed

lemma sl_seek_ok:
  assumes "sl_rep sl hdr as" and "start_ok (sl_nodes sl) hdr as k (sl_level sl) x"
  shows "sl_seek (sl_nodes sl) k (sl_level sl) x = Some (pred_at (sl_nodes sl) hdr as k 0)"
  using assms by (intro sl_seek_rep) (auto simp: sl_rep_def)

definition succ_of :: "'z node_heap \<Rightarrow> addr list \<Rightarrow> int \<Rightarrow> addr option" where
  "succ_of h as k = List.find (\<lambda>a. k \<le> key_of h a) as"

lemma rd_pred_ok:
  assumes "sl_rep sl hdr as"
  shows "rd_fwd (sl_nodes sl) (pred_at (sl_nodes sl) hdr as k 0) 0
     = Some (succ_of (sl_nodes sl) as k)"
  using rd_pred_at [OF heap_rep_rep [OF assms], of 0 k] tall_0 [OF heap_rep_rep [OF assms]]
  by (simp add: succ_of_def PID_SL_MAX_LEVEL_def)

lemma succ_of_hit:
  assumes "sorted_wrt (<) (map (key_of h) as)" and "a \<in> set as" and "key_of h a = k"
  shows "succ_of h as k = Some a"
proof -
  from assms(2) obtain xs ys where "as = xs @ a # ys" by (auto dest: split_list)
  with assms show ?thesis
    using sorted_split_key(2) [of "key_of h" xs a ys] by (simp add: succ_of_def)
qed

lemma succ_of_mem: "succ_of h as k = Some a \<Longrightarrow> a \<in> set as \<and> k \<le> key_of h a"
  by (auto simp: succ_of_def dest: find_SomeD)

lemma key_is_ok:
  assumes "sl_rep sl hdr as"
  shows "key_is (sl_nodes sl) (succ_of (sl_nodes sl) as k) k
     = Some (k \<in> key_of (sl_nodes sl) ` set as)"
proof (cases "succ_of (sl_nodes sl) as k")
  case None
  with succ_of_hit [OF rep_sorted [OF assms]] show ?thesis by (auto simp: key_is_def)
next
  case (Some a)
  then have a: "a \<in> set as" using succ_of_mem by blast
  then obtain n where n: "sl_nodes sl a = Some n"
    using rep_live [OF heap_rep_rep [OF assms]] by auto
  then have kn: "key_of (sl_nodes sl) a = n_key n" by (simp add: key_of_def)
  have "n_key n = k" if "b \<in> set as" "k = key_of (sl_nodes sl) b" for b
    using succ_of_hit [OF rep_sorted [OF assms] that(1), of k] that Some kn by simp
  with a kn have "n_key n = k \<longleftrightarrow> k \<in> key_of (sl_nodes sl) ` set as" by (metis image_iff)
  with Some n show ?thesis by (simp add: key_is_def)
qed

section \<open>Replacing a pid\<close>

lemma heap_rep_cong:
  assumes "heap_rep h hdr as" and "rd_fwd h' = rd_fwd h" and "height h' = height h"
    and "key_of h' = key_of h"
  shows "heap_rep h' hdr as"
proof -
  have "chain h' i a xs e = chain h i a xs e" for i a xs e
    by (rule chain_cong) (simp add: assms(2))
  with assms show ?thesis by (simp add: heap_rep_def tall_def)
qed

lemma rep_upd_pid:
  assumes r: "sl_rep sl hdr as" and y: "y \<in> set as"
  shows "\<exists>h'. upd_node (sl_nodes sl) y (\<lambda>n. n\<lparr>n_pid := p\<rparr>) = Some h' \<and>
     sl_rep (sl\<lparr>sl_nodes := h'\<rparr>) hdr as \<and>
     node_map h' as = (node_map (sl_nodes sl) as)(key_of (sl_nodes sl) y \<mapsto> p)"
proof -
  let ?h = "sl_nodes sl"
  obtain n where n: "?h y = Some n" using rep_live [OF heap_rep_rep [OF r]] y by auto
  let ?h' = "?h(y \<mapsto> n\<lparr>n_pid := p\<rparr>)"
  have u: "upd_node ?h y (\<lambda>n. n\<lparr>n_pid := p\<rparr>) = Some ?h'" using n by (simp add: upd_node_def)
  have v: "rd_fwd ?h' = rd_fwd ?h" "height ?h' = height ?h" "dom ?h' = dom ?h"
    using upd_node_rd [OF u] by auto
  have w: "key_of ?h' = key_of ?h" "pid_of ?h' = (pid_of ?h)(y := p)"
    "map_option (\<lambda>n. unat (n_level n)) (?h' a) = map_option (\<lambda>n. unat (n_level n)) (?h a)" for a
    using n by (auto simp: key_of_def pid_of_def)
  from r v w have "sl_rep (sl\<lparr>sl_nodes := ?h'\<rparr>) hdr as"
    unfolding sl_rep_def by (simp add: heap_rep_cong [of ?h])
  moreover have "node_map ?h' as = (node_map ?h as)(key_of ?h y \<mapsto> p)"
    using node_map_upd_pid [OF rep_sorted [OF r] y w(1,2)] .
  ultimately show ?thesis using u by blast
qed

section \<open>Linking a new node\<close>

lemma update_fill_ok:
  "i + n \<le> length u \<Longrightarrow> \<exists>u'. update_fill hdr i n u = Some u' \<and> length u' = length u \<and>
     (\<forall>j. u' ! j = (if i \<le> j \<and> j < i + n then Some hdr else u ! j))"
proof (induction n arbitrary: i u)
  case (Suc n)
  from Suc.prems have "update_set u i hdr = Some (u[i := Some hdr])"
    by (simp add: update_set_def)
  moreover from Suc.prems Suc.IH [of "Suc i" "u[i := Some hdr]"] obtain u' where
    "update_fill hdr (Suc i) n (u[i := Some hdr]) = Some u'" "length u' = length u"
    "\<forall>j. u' ! j = (if Suc i \<le> j \<and> j < Suc i + n then Some hdr else u[i := Some hdr] ! j)"
    by auto
  ultimately show ?case using Suc.prems
    by (intro exI [of _ u']) (auto simp: nth_list_update)
qed auto

lemma pred_at_above:
  "\<forall>a \<in> set as. height h a \<le> l \<Longrightarrow> l \<le> i \<Longrightarrow> pred_at h hdr as k i = hdr"
  by (auto simp: pred_at_def tall_def filter_empty_conv)

lemma upd_ok_fill:
  assumes "upd_ok h hdr as k l u" and "\<forall>a \<in> set as. height h a \<le> l"
    and "l < lvl" and "lvl \<le> PID_SL_MAX_LEVEL"
  shows "\<exists>u'. update_fill hdr l (lvl - l) u = Some u' \<and> upd_ok h hdr as k lvl u'"
  using update_fill_ok [of l "lvl - l" u hdr] assms
  by (auto simp: upd_ok_def pred_at_above not_le)

lemma upd_ok_mono: "upd_ok h hdr as k l u \<Longrightarrow> l' \<le> l \<Longrightarrow> upd_ok h hdr as k l' u"
  by (simp add: upd_ok_def)

lemma rep_link:
  assumes r: "sl_rep sl hdr as" and k: "k \<notin> key_of (sl_nodes sl) ` set as"
    and n: "n_key n = k" "length (n_forward n) = lvl" "unat (n_level n) = lvl"
      "1 \<le> lvl" "lvl \<le> PID_SL_MAX_LEVEL"
    and u: "upd_ok (sl_nodes sl) hdr as k lvl u"
  shows "\<exists>h2. sl_link ((sl_nodes sl)(sl_brk sl \<mapsto> n)) u (sl_brk sl) 0 lvl = Some h2 \<and>
     sl_rep (sl\<lparr>sl_level := max (sl_level sl) lvl, sl_nodes := h2, sl_brk := Suc (sl_brk sl)\<rparr>)
       hdr (ins_sorted (sl_nodes sl) k (sl_brk sl) as) \<and>
     node_map h2 (ins_sorted (sl_nodes sl) k (sl_brk sl) as)
       = (node_map (sl_nodes sl) as)(k \<mapsto> n_pid n) \<and>
     core h2 = core ((sl_nodes sl)(sl_brk sl \<mapsto> n)) \<and>
     height h2 = height ((sl_nodes sl)(sl_brk sl \<mapsto> n))"
proof -
  let ?h = "sl_nodes sl" and ?b = "sl_brk sl"
  let ?h1 = "?h(?b \<mapsto> n)" and ?as = "ins_sorted ?h k ?b as"
  have fresh: "?h ?b = None" using r by (auto simp: sl_rep_def)
  have bnot: "?b \<notin> set (hdr # as @ sl_rcu sl)" using r fresh by (auto simp: sl_rep_def)
  obtain h2 where h2: "sl_link ?h1 u ?b 0 lvl = Some h2" "heap_rep h2 hdr ?as"
      "core h2 = core ?h1" "height h2 = height ?h1"
    using heap_rep_link [OF heap_rep_rep [OF r] fresh k n(1,2,4,5)] u by (auto simp: upd_ok_def)
  have hts: "height h2 ?b = lvl" "a \<noteq> ?b \<Longrightarrow> height h2 a = height ?h a" for a
    using n(2) by (simp_all add: h2(4) height_def)
  have lev: "map_option (\<lambda>n. unat (n_level n)) (h2 a)
      = (if a = ?b then Some lvl else map_option (\<lambda>n. unat (n_level n)) (?h a))" for a
    using core_field [OF h2(3), of "\<lambda>n. unat (n_level n)" a] n(3) by simp
  have views: "key_of h2 ?b = k" "pid_of h2 ?b = n_pid n"
      "\<forall>a \<in> set as. key_of h2 a = key_of ?h a \<and> pid_of h2 a = pid_of ?h a"
      "dom h2 = insert ?b (dom ?h)"
    using core_views [OF h2(3)] n(1) bnot by (auto simp: key_of_def pid_of_def)
  have "\<forall>a \<in> set ?as. height h2 a \<le> max (sl_level sl) lvl"
  proof
    fix a assume "a \<in> set ?as"
    then show "height h2 a \<le> max (sl_level sl) lvl"
      using r hts(1) hts(2) [of a] by (cases "a = ?b") (auto simp: sl_rep_def le_max_iff_disj)
  qed
  moreover have "\<forall>a \<in> set (hdr # ?as). map_option (\<lambda>n. unat (n_level n)) (h2 a) = Some (height h2 a)"
  proof
    fix a assume "a \<in> set (hdr # ?as)"
    then show "map_option (\<lambda>n. unat (n_level n)) (h2 a) = Some (height h2 a)"
      using r hts(1) hts(2) [of a] lev [of a] by (cases "a = ?b") (auto simp: sl_rep_def)
  qed
  moreover have "distinct (hdr # ?as @ sl_rcu sl)"
    using r bnot by (auto simp: sl_rep_def distinct_ins_sorted)
  moreover have "dom h2 = set (hdr # ?as @ sl_rcu sl)"
    using r views(4) by (auto simp: sl_rep_def)
  moreover have "\<forall>a \<in> dom h2. a < Suc ?b"
    using r views(4) by (auto simp: sl_rep_def less_Suc_eq)
  ultimately
  have "sl_rep (sl\<lparr>sl_level := max (sl_level sl) lvl, sl_nodes := h2, sl_brk := Suc ?b\<rparr>) hdr ?as"
    using r h2(2) n(4,5) unfolding sl_rep_def by simp
  moreover have "node_map h2 ?as = (node_map ?h as)(k \<mapsto> n_pid n)"
    using node_map_ins_sorted [OF rep_sorted [OF r] k views(1,3)] views(2) by simp
  ultimately show ?thesis using h2 by blast
qed

section \<open>Unlinking a node\<close>

lemma sl_trim_ok:
  assumes "heap_rep h hdr as" and "1 \<le> l" and "l \<le> PID_SL_MAX_LEVEL"
    and "\<forall>a \<in> set as. height h a \<le> l"
  shows "\<exists>l'. sl_trim h hdr l = Some l' \<and> 1 \<le> l' \<and> l' \<le> l \<and> (\<forall>a \<in> set as. height h a \<le> l')"
  using assms(2-4)
proof (induction l)
  case (Suc m)
  show ?case
  proof (cases "m = 0")
    case True
    with Suc.prems show ?thesis by auto
  next
    case False
    from assms(1) Suc.prems(2) have ch: "chain h m hdr (tall h m as) None"
      by (simp add: heap_rep_def)
    show ?thesis
    proof (cases "tall h m as")
      case Nil
      then have "\<forall>a \<in> set as. height h a \<le> m"
        by (auto simp: tall_def filter_empty_conv not_less)
      with Suc.IH Suc.prems False obtain l' where
        "sl_trim h hdr m = Some l'" "1 \<le> l'" "l' \<le> m" "\<forall>a \<in> set as. height h a \<le> l'"
        by auto
      with ch Nil False show ?thesis by auto
    next
      case Cons
      with ch False Suc.prems show ?thesis by auto
    qed
  qed
qed simp

lemma rep_unlink:
  assumes r: "sl_rep sl hdr as" and y: "y \<in> set as"
    and u: "upd_ok (sl_nodes sl) hdr as (key_of (sl_nodes sl) y) (sl_level sl) u"
  shows "\<exists>h' l'. sl_unlink (sl_nodes sl) u y 0 (sl_level sl) = Some h' \<and>
     sl_trim h' hdr (sl_level sl) = Some l' \<and>
     sl_rep (sl\<lparr>sl_nodes := h', sl_level := l', sl_rcu := y # sl_rcu sl\<rparr>) hdr (remove1 y as) \<and>
     node_map h' (remove1 y as) = (node_map (sl_nodes sl) as)(key_of (sl_nodes sl) y := None) \<and>
     core h' = core (sl_nodes sl) \<and> height h' = height (sl_nodes sl) \<and>
     (\<forall>j. rd_fwd h' y j = rd_fwd (sl_nodes sl) y j)"
proof -
  let ?h = "sl_nodes sl" and ?as = "remove1 y as"
  have l: "1 \<le> sl_level sl" "sl_level sl \<le> PID_SL_MAX_LEVEL"
      "\<forall>a \<in> set as. height ?h a \<le> sl_level sl" and d: "distinct as"
    using r by (auto simp: sl_rep_def)
  obtain h' where h': "sl_unlink ?h u y 0 (sl_level sl) = Some h'" "heap_rep h' hdr ?as"
      "core h' = core ?h" "height h' = height ?h" "\<forall>j. rd_fwd h' y j = rd_fwd ?h y j"
    using heap_rep_unlink [OF heap_rep_rep [OF r] y refl l(2,3), of u] u
    unfolding upd_ok_def by blast
  have sub: "set ?as = set as - {y}" using d by simp
  obtain l' where l': "sl_trim h' hdr (sl_level sl) = Some l'" "1 \<le> l'" "l' \<le> sl_level sl"
      "\<forall>a \<in> set ?as. height h' a \<le> l'"
    using sl_trim_ok [OF h'(2) l(1,2)] l(3) h'(4) sub by auto
  have lev: "map_option (\<lambda>n. unat (n_level n)) (h' a) = map_option (\<lambda>n. unat (n_level n)) (?h a)" for a
    by (rule core_field [OF h'(3)]) simp
  have dom: "dom h' = set (hdr # ?as @ y # sl_rcu sl)"
    using r y core_views(3) [OF h'(3)] sub by (auto simp: sl_rep_def)
  have dist: "distinct (hdr # ?as @ y # sl_rcu sl)"
    using r y sub by (auto simp: sl_rep_def)
  have "\<forall>a \<in> set (hdr # ?as). map_option (\<lambda>n. unat (n_level n)) (h' a) = Some (height h' a)"
    using r sub lev by (simp add: sl_rep_def h'(4))
  moreover have "\<forall>a \<in> dom h'. a < sl_brk sl"
    using r core_views(3) [OF h'(3)] by (simp add: sl_rep_def)
  ultimately have "sl_rep (sl\<lparr>sl_nodes := h', sl_level := l', sl_rcu := y # sl_rcu sl\<rparr>) hdr ?as"
    using r h'(2) l' l(2) dom dist unfolding sl_rep_def by simp
  moreover have "node_map h' ?as = (node_map ?h as)(key_of ?h y := None)"
    using node_map_remove1 [OF rep_sorted [OF r] y d] core_views [OF h'(3)]
    by (simp add: node_map_def)
  ultimately show ?thesis using h' l'(1) by blast
qed

section \<open>Freeing the list\<close>

lemma sl_free_chain_ok:
  assumes "chain h 0 b xs None" and "distinct (b # xs)"
  shows "sl_free_chain h (Some b) = Some (h |` (- set (b # xs)))"
  using assms
proof (induction xs arbitrary: b h)
  case Nil
  then show ?case
    by (subst sl_free_chain.simps, simp, subst sl_free_chain.simps)
      (auto simp: restrict_map_def)
next
  case (Cons c xs)
  let ?h = "h(b := None)"
  have "chain ?h 0 c xs None = chain h 0 c xs None"
    using Cons.prems(2) by (intro chain_cong) (auto simp: rd_fwd_def)
  with Cons.prems have ch: "chain ?h 0 c xs None" and d: "distinct (c # xs)"
    by simp_all
  have "sl_free_chain ?h (Some c) = Some (?h |` (- set (c # xs)))"
    by (rule Cons.IH [OF ch d])
  moreover have "?h |` (- set (c # xs)) = h |` (- set (b # c # xs))"
    by (auto simp: restrict_map_def)
  ultimately show ?case using Cons.prems(1)
    by (subst sl_free_chain.simps) simp
qed

lemma rep_free_chain:
  assumes r: "sl_rep sl hdr as"
  shows "\<exists>nx. rd_fwd (sl_nodes sl) hdr 0 = Some nx \<and>
     sl_free_chain (sl_nodes sl) nx = Some (sl_nodes sl |` (- set as))"
proof (cases as)
  case Nil
  with rep_chain_0 [OF r] show ?thesis
    by (simp add: sl_free_chain.simps restrict_map_def)
next
  case (Cons b xs)
  moreover from r have "distinct as" by (auto simp: sl_rep_def)
  ultimately show ?thesis
    using rep_chain_0 [OF r] sl_free_chain_ok [of "sl_nodes sl" b xs] by simp
qed

lemma rcu_free_all_ok:
  "distinct xs \<Longrightarrow> set xs \<subseteq> dom h \<Longrightarrow> rcu_free_all xs h = Some (h |` (- set xs))"
proof (induction xs arbitrary: h)
  case (Cons x xs)
  then obtain n where "h x = Some n" by auto
  moreover have "rcu_free_all xs (h(x := None)) = Some (h(x := None) |` (- set xs))"
    using Cons.prems by (intro Cons.IH) auto
  moreover have "h(x := None) |` (- set xs) = h |` (- set (x # xs))"
    by (auto simp: restrict_map_def)
  ultimately show ?case
    by (simp add: pid_sl_node_rcu_free_def kfree_node_def)
qed (simp add: restrict_map_def)

section \<open>Random levels\<close>

lemma low_bits_zero:
  fixes r :: "32 word"
  shows "r AND (push_bit PID_SL_P 1 - 1) = 0 \<longleftrightarrow> unat r mod 16 = 0"
proof -
  have "push_bit PID_SL_P 1 - 1 = (mask 4 :: 32 word)"
    by (simp add: PID_SL_P_def mask_eq_exp_minus_1)
  then have "r AND (push_bit PID_SL_P 1 - 1) = take_bit 4 r" by (simp add: take_bit_eq_mask)
  moreover have "unat (take_bit 4 r) = unat r mod 16"
    unfolding unsigned_take_bit_eq by (simp add: take_bit_eq_mod)
  ultimately show ?thesis by (metis unat_eq_zero)
qed

lemma unat_drop_P: "unat (drop_bit PID_SL_P (r :: 32 word)) = unat r div 16"
  unfolding unat_drop_bit_eq by (simp add: PID_SL_P_def drop_bit_eq_div)

lemma random_level_loop_bounds:
  "l \<le> PID_SL_MAX_LEVEL \<Longrightarrow>
   l \<le> pid_sl_random_level_loop r l \<and> pid_sl_random_level_loop r l \<le> PID_SL_MAX_LEVEL"
proof (induction r l rule: pid_sl_random_level_loop.induct)
  case (1 r l)
  then show ?case
    by (subst (1 2) pid_sl_random_level_loop.simps) (auto simp: Suc_le_eq)
qed

lemma random_level_loop_zero: "l \<le> PID_SL_MAX_LEVEL \<Longrightarrow> pid_sl_random_level_loop 0 l = PID_SL_MAX_LEVEL"
proof (induction "PID_SL_MAX_LEVEL - l" arbitrary: l)
  case 0
  then show ?case by (subst pid_sl_random_level_loop.simps) simp
next
  case (Suc n)
  then have "pid_sl_random_level_loop 0 (Suc l) = PID_SL_MAX_LEVEL" by simp
  with Suc show ?case by (subst pid_sl_random_level_loop.simps) simp
qed

lemma random_level_loop_nonzero:
  "unat r < 16 ^ Suc n \<Longrightarrow> r \<noteq> 0 \<Longrightarrow> pid_sl_random_level_loop r l \<le> l + n"
proof (induction n arbitrary: r l)
  case 0
  then have "unat r mod 16 \<noteq> 0" by (simp add: unat_eq_zero)
  then show ?case by (subst pid_sl_random_level_loop.simps) (simp add: low_bits_zero [simplified])
next
  case (Suc n)
  show ?case
  proof (cases "unat r mod 16 = 0")
    case True
    have "unat (drop_bit PID_SL_P r) < 16 ^ Suc n"
      using Suc.prems(1) by (simp add: unat_drop_P less_mult_imp_div_less mult.commute)
    moreover have "unat (drop_bit PID_SL_P r) \<noteq> 0"
      using True Suc.prems(2) unat_eq_zero [of r] by (simp add: unat_drop_P) presburger
    ultimately have "pid_sl_random_level_loop (drop_bit PID_SL_P r) (Suc l) \<le> Suc l + n"
      using Suc.IH by (metis unat_0)
    then show ?thesis by (subst pid_sl_random_level_loop.simps) simp
  next
    case False
    then show ?thesis by (subst pid_sl_random_level_loop.simps) (simp add: low_bits_zero [simplified])
  qed
qed

lemma random_level_range: "1 \<le> pid_sl_random_level r \<and> pid_sl_random_level r \<le> PID_SL_MAX_LEVEL"
  unfolding pid_sl_random_level_def by (rule random_level_loop_bounds) (simp add: PID_SL_MAX_LEVEL_def)

lemma random_level_nonzero: "r \<noteq> 0 \<Longrightarrow> pid_sl_random_level r \<le> 8"
  using random_level_loop_nonzero [of r 7 1] unsigned_less [of r, where 'a = nat]
  by (simp add: pid_sl_random_level_def)

lemma random_level_zero: "pid_sl_random_level 0 = PID_SL_MAX_LEVEL"
  unfolding pid_sl_random_level_def by (rule random_level_loop_zero) (simp add: PID_SL_MAX_LEVEL_def)

end
