(* ===== verification/Pid_Skiplist_Correct.thy ===== *)
theory Pid_Skiplist_Correct
  imports Skiplist_Rep Pid_Index
begin

text \<open>
  Correctness of the operations of \<^verbatim>\<open>src/skiplist/pid_skiplist.c\<close> against the abstract map, and the
  proof that the skip list provides the interface \<open>pid_index\<close> that \<^verbatim>\<open>pid.c\<close> relies on.
\<close>

section \<open>Allocation\<close>

definition node_alloc_ok :: "draw \<Rightarrow> gfp_t \<Rightarrow> bool" where
  "node_alloc_ok d g =
     (let g' = (if GFP_NOFAIL_BIT \<in> g then g \<union> GFP_ATOMIC else g) in kzalloc_ok d g' \<and> kcalloc_ok d g')"

lemma node_alloc_nofail: "nofail_promise d \<Longrightarrow> GFP_NOFAIL_BIT \<in> g \<Longrightarrow> node_alloc_ok d g"
  by (simp add: nofail_promise_def node_alloc_ok_def)

lemma pid_sl_node_alloc_ok:
  "node_alloc_ok d g \<Longrightarrow> pid_sl_node_alloc d lvl g sl =
     (Some (sl_brk sl), sl\<lparr>sl_nodes := (sl_nodes sl)(sl_brk sl \<mapsto>
        \<lparr>n_key = 0, n_pid = None, n_forward = replicate lvl None, n_level = of_nat lvl\<rparr>),
        sl_brk := Suc (sl_brk sl)\<rparr>)"
  by (simp add: pid_sl_node_alloc_def node_alloc_ok_def Let_def)

lemma pid_sl_node_alloc_fail:
  "\<not> node_alloc_ok d g \<Longrightarrow> \<exists>b \<ge> sl_brk sl. pid_sl_node_alloc d lvl g sl = (None, sl\<lparr>sl_brk := b\<rparr>)"
  by (auto simp: pid_sl_node_alloc_def node_alloc_ok_def Let_def
      intro: exI [of _ "sl_brk sl"] exI [of _ "Suc (sl_brk sl)"])

text \<open>A failed insertion may have raised the level and used up an address; the list is the same.\<close>

lemma sl_rep_weaken:
  assumes "sl_rep sl hdr as" and "sl_level sl \<le> l" and "l \<le> PID_SL_MAX_LEVEL" and "sl_brk sl \<le> b"
  shows "sl_rep (sl\<lparr>sl_level := l, sl_brk := b\<rparr>) hdr as"
proof -
  have "\<forall>a \<in> set as. height (sl_nodes sl) a \<le> l" and "\<forall>a \<in> dom (sl_nodes sl). a < b"
    using assms unfolding sl_rep_def by (meson order_trans less_le_trans)+
  with assms show ?thesis unfolding sl_rep_def by simp
qed

section \<open>Initialisation\<close>

lemma pid_skiplist_init_rep:
  assumes "nofail_promise d" and "sl_nodes sl = Map.empty" and "sl_rcu sl = []"
  shows "\<exists>sl'. pid_skiplist_init d g sl = Some sl' \<and> sl_rep sl' (sl_brk sl) []"
proof -
  have ok: "node_alloc_ok d (insert GFP_NOFAIL_BIT g)" using assms(1) by (simp add: node_alloc_nofail)
  have "unat (of_nat PID_SL_MAX_LEVEL :: 8 word) = PID_SL_MAX_LEVEL"
    by (simp add: PID_SL_MAX_LEVEL_def)
  then show ?thesis using assms(2,3)
    by (auto simp: pid_skiplist_init_def pid_sl_node_alloc_ok [OF ok] upd_node_def sl_rep_def
        heap_rep_def height_def tall_def rd_fwd_def PID_SL_MAX_LEVEL_def)
qed

section \<open>Insertion\<close>

lemma random_level_8bit: "unat (of_nat (pid_sl_random_level r) :: 8 word) = pid_sl_random_level r"
  using random_level_range [of r]
  by (simp add: unat_of_nat PID_SL_MAX_LEVEL_def)

lemma insert_hit:
  assumes r: "sl_rep sl hdr as" and y: "y \<in> set as" and k: "key_of (sl_nodes sl) y = k"
  shows "\<exists>sl'. pid_skiplist_insert d sl k p g = Some (0, sl') \<and> sl_rep sl' hdr as \<and>
     sl_abs sl' = (sl_abs sl)(k \<mapsto> p) \<and> sl_rcu sl' = sl_rcu sl"
proof -
  obtain u where u: "sl_search (sl_nodes sl) k (sl_level sl) hdr update_init
      = Some (pred_at (sl_nodes sl) hdr as k 0, u)"
    using sl_search_ok [OF r] start_ok_hdr by blast
  have s: "succ_of (sl_nodes sl) as k = Some y"
    using succ_of_hit [OF rep_sorted [OF r] y k] .
  have hit: "key_is (sl_nodes sl) (Some y) k = Some True"
    using key_is_ok [OF r, of k] y k s by auto
  obtain h' where h': "upd_node (sl_nodes sl) y (\<lambda>n. n\<lparr>n_pid := p\<rparr>) = Some h'"
      "sl_rep (sl\<lparr>sl_nodes := h'\<rparr>) hdr as" "node_map h' as = (node_map (sl_nodes sl) as)(k \<mapsto> p)"
    using rep_upd_pid [OF r y, of p] k by blast
  have "sl_header sl = Some hdr" using r by (simp add: sl_rep_def)
  then have "pid_skiplist_insert d sl k p g = Some (0, sl\<lparr>sl_nodes := h'\<rparr>)"
    using u rd_pred_ok [OF r, of k] s hit h'(1) by (simp add: pid_skiplist_insert_def)
  then show ?thesis using h' sl_abs_rep [OF r] sl_abs_rep [OF h'(2)] by simp
qed

lemma insert_new_search:
  assumes r: "sl_rep sl hdr as" and k: "k \<notin> key_of (sl_nodes sl) ` set as"
    and lvl: "lvl = pid_sl_random_level (prandom_u32 d)"
  shows "\<exists>u. upd_ok (sl_nodes sl) hdr as k lvl u \<and> pid_skiplist_insert d sl k p g =
     (case pid_sl_node_alloc d lvl g (sl\<lparr>sl_level := max (sl_level sl) lvl\<rparr>) of (new, sl2) \<Rightarrow>
       (case new of None \<Rightarrow> Some (- ENOMEM, sl2)
        | Some y \<Rightarrow> do {
            h1 \<leftarrow> upd_node (sl_nodes sl2) y (\<lambda>n. n\<lparr>n_key := k, n_pid := p\<rparr>);
            h2 \<leftarrow> sl_link h1 u y 0 lvl;
            Some (0, sl2\<lparr>sl_nodes := h2\<rparr>) }))"
proof -
  have hd: "sl_header sl = Some hdr"
    and hts: "\<forall>a \<in> set as. height (sl_nodes sl) a \<le> sl_level sl"
    using r by (auto simp: sl_rep_def)
  obtain u where u: "sl_search (sl_nodes sl) k (sl_level sl) hdr update_init
      = Some (pred_at (sl_nodes sl) hdr as k 0, u)" "upd_ok (sl_nodes sl) hdr as k (sl_level sl) u"
    using sl_search_ok [OF r] start_ok_hdr by blast
  note found = hd u(1) rd_pred_ok [OF r, of k] key_is_ok [OF r, of k] k
  have range: "lvl \<le> PID_SL_MAX_LEVEL" using random_level_range lvl by blast
  show ?thesis
  proof (cases "sl_level sl < lvl")
    case True
    from upd_ok_fill [OF u(2) hts True range] obtain u' where
      u': "update_fill hdr (sl_level sl) (lvl - sl_level sl) u = Some u'"
        "upd_ok (sl_nodes sl) hdr as k lvl u'" by blast
    with True have "max (sl_level sl) lvl = lvl" by simp
    with True u' show ?thesis
      by (intro exI [of _ u']) (simp add: pid_skiplist_insert_def found lvl [symmetric])
  next
    case False
    then have "sl\<lparr>sl_level := max (sl_level sl) lvl\<rparr> = sl" by simp
    with False upd_ok_mono [OF u(2)] show ?thesis
      by (intro exI [of _ u]) (simp add: pid_skiplist_insert_def found lvl [symmetric])
  qed
qed

lemma insert_new:
  assumes r: "sl_rep sl hdr as" and k: "k \<notin> key_of (sl_nodes sl) ` set as"
    and ok: "node_alloc_ok d g"
  shows "\<exists>sl'. pid_skiplist_insert d sl k p g = Some (0, sl') \<and>
     sl_rep sl' hdr (ins_sorted (sl_nodes sl) k (sl_brk sl) as) \<and>
     sl_abs sl' = (sl_abs sl)(k \<mapsto> p) \<and> sl_rcu sl' = sl_rcu sl"
proof -
  define lvl where "lvl = pid_sl_random_level (prandom_u32 d)"
  obtain u where u: "upd_ok (sl_nodes sl) hdr as k lvl u" and
    ins: "pid_skiplist_insert d sl k p g =
     (case pid_sl_node_alloc d lvl g (sl\<lparr>sl_level := max (sl_level sl) lvl\<rparr>) of (new, sl2) \<Rightarrow>
       (case new of None \<Rightarrow> Some (- ENOMEM, sl2)
        | Some y \<Rightarrow> do {
            h1 \<leftarrow> upd_node (sl_nodes sl2) y (\<lambda>n. n\<lparr>n_key := k, n_pid := p\<rparr>);
            h2 \<leftarrow> sl_link h1 u y 0 lvl;
            Some (0, sl2\<lparr>sl_nodes := h2\<rparr>) }))"
    using insert_new_search [OF r k lvl_def] by blast
  let ?n = "\<lparr>n_key = k, n_pid = p, n_forward = replicate lvl None, n_level = of_nat lvl\<rparr>"
  have n: "n_key ?n = k" "length (n_forward ?n) = lvl" "unat (n_level ?n) = lvl"
      "1 \<le> lvl" "lvl \<le> PID_SL_MAX_LEVEL"
    using random_level_range random_level_8bit by (auto simp: lvl_def)
  obtain h2 where h2: "sl_link ((sl_nodes sl)(sl_brk sl \<mapsto> ?n)) u (sl_brk sl) 0 lvl = Some h2"
     "sl_rep (sl\<lparr>sl_level := max (sl_level sl) lvl, sl_nodes := h2, sl_brk := Suc (sl_brk sl)\<rparr>)
       hdr (ins_sorted (sl_nodes sl) k (sl_brk sl) as)"
     "node_map h2 (ins_sorted (sl_nodes sl) k (sl_brk sl) as) = (node_map (sl_nodes sl) as)(k \<mapsto> p)"
    using rep_link [OF r k n u] by auto
  have "pid_skiplist_insert d sl k p g = Some (0,
      sl\<lparr>sl_level := max (sl_level sl) lvl, sl_nodes := h2, sl_brk := Suc (sl_brk sl)\<rparr>)"
    unfolding ins using h2(1) by (simp add: pid_sl_node_alloc_ok [OF ok] upd_node_def)
  then show ?thesis using h2 sl_abs_rep [OF r] sl_abs_rep [OF h2(2)] by simp
qed

lemma insert_nomem:
  assumes r: "sl_rep sl hdr as" and k: "k \<notin> key_of (sl_nodes sl) ` set as"
    and fail: "\<not> node_alloc_ok d g"
  shows "\<exists>sl'. pid_skiplist_insert d sl k p g = Some (- ENOMEM, sl') \<and> sl_rep sl' hdr as \<and>
     sl_abs sl' = sl_abs sl \<and> sl_rcu sl' = sl_rcu sl"
proof -
  define lvl where "lvl = pid_sl_random_level (prandom_u32 d)"
  let ?sl = "sl\<lparr>sl_level := max (sl_level sl) lvl\<rparr>"
  obtain b where b: "sl_brk sl \<le> b" "pid_sl_node_alloc d lvl g ?sl = (None, ?sl\<lparr>sl_brk := b\<rparr>)"
    using pid_sl_node_alloc_fail [OF fail, of ?sl lvl] by auto
  have "sl_rep (?sl\<lparr>sl_brk := b\<rparr>) hdr as"
    using sl_rep_weaken [OF r, of "max (sl_level sl) lvl" b] b(1) r random_level_range
    by (auto simp: lvl_def sl_rep_def)
  moreover have "pid_skiplist_insert d sl k p g = Some (- ENOMEM, ?sl\<lparr>sl_brk := b\<rparr>)"
    using insert_new_search [OF r k lvl_def, of p g] b(2) by auto
  ultimately show ?thesis using sl_abs_rep [OF r] sl_abs_rep by fastforce
qed

section \<open>Lookup, successor search and removal\<close>

text \<open>
  What the readers do from the predecessor of the key on; both variants of the list end this way.
\<close>

lemma lookup_tail:
  assumes r: "sl_rep sl hdr as"
  shows "do { nx \<leftarrow> rd_fwd (sl_nodes sl) (pred_at (sl_nodes sl) hdr as k 0) 0;
       hit \<leftarrow> key_is (sl_nodes sl) nx k;
       if hit then do { y \<leftarrow> nx; rd_pid (sl_nodes sl) y } else Some None }
     = Some (idx_get (sl_abs sl) k)"
proof (cases "k \<in> key_of (sl_nodes sl) ` set as")
  case True
  then obtain y where y: "y \<in> set as" "key_of (sl_nodes sl) y = k" by auto
  then have s: "succ_of (sl_nodes sl) as k = Some y" by (rule succ_of_hit [OF rep_sorted [OF r]])
  obtain n where n: "sl_nodes sl y = Some n" using rep_live [OF heap_rep_rep [OF r]] y(1) by auto
  have "node_map (sl_nodes sl) as k = Some (n_pid n)"
    using node_map_Some [OF rep_sorted [OF r]] y n by (auto simp: pid_of_def)
  moreover have "key_is (sl_nodes sl) (Some y) k = Some True"
    using key_is_ok [OF r, of k] True s by simp
  ultimately show ?thesis using s n
    by (simp add: rd_pred_ok [OF r] rd_pid_def sl_abs_rep [OF r] idx_get_def)
next
  case False
  then have "node_map (sl_nodes sl) as k = None" by (simp add: node_map_None)
  with False show ?thesis
    by (simp add: rd_pred_ok [OF r] key_is_ok [OF r] sl_abs_rep [OF r] idx_get_def)
qed

lemma lookup_rep:
  assumes r: "sl_rep sl hdr as"
  shows "pid_skiplist_lookup_rcu sl k = Some (idx_get (sl_abs sl) k)"
proof -
  have "sl_header sl = Some hdr" using r by (simp add: sl_rep_def)
  then show ?thesis using lookup_tail [OF r, of k]
    by (simp add: pid_skiplist_lookup_rcu_def sl_seek_ok [OF r start_ok_hdr])
qed

lemma rep_keys_ge:
  assumes r: "sl_rep sl hdr as"
  shows "idx_keys_ge (sl_abs sl) k
     = map (key_of (sl_nodes sl)) (filter (\<lambda>a. k \<le> key_of (sl_nodes sl) a) as)"
proof -
  let ?ks = "map (key_of (sl_nodes sl)) (filter (\<lambda>a. k \<le> key_of (sl_nodes sl) a) as)"
  have "sorted_wrt (<) ?ks" by (rule sorted_wrt_filter_map [OF rep_sorted [OF r]])
  then have "sorted_list_of_set (set ?ks) = ?ks"
    unfolding strict_sorted_iff by (blast intro: sorted_list_of_set.idem_if_sorted_distinct)
  moreover have "set ?ks = {j \<in> dom (sl_abs sl). k \<le> j}"
    by (auto simp: sl_abs_rep [OF r] dom_node_map)
  ultimately show ?thesis by (simp add: idx_keys_ge_def)
qed

lemma rep_pids_ge:
  assumes r: "sl_rep sl hdr as"
  shows "map (idx_get (sl_abs sl)) (idx_keys_ge (sl_abs sl) k)
     = map (pid_of (sl_nodes sl)) (filter (\<lambda>a. k \<le> key_of (sl_nodes sl) a) as)"
proof -
  have "idx_get (sl_abs sl) (key_of (sl_nodes sl) a) = pid_of (sl_nodes sl) a" if "a \<in> set as" for a
    using that node_map_Some [OF rep_sorted [OF r], of "key_of (sl_nodes sl) a" "pid_of (sl_nodes sl) a"]
    by (auto simp: idx_get_def sl_abs_rep [OF r])
  then show ?thesis by (simp add: rep_keys_ge [OF r])
qed

lemma rep_rd_pid:
  assumes "sl_rep sl hdr as" and "a \<in> set as"
  shows "rd_pid (sl_nodes sl) a = Some (pid_of (sl_nodes sl) a)"
proof -
  obtain n where "sl_nodes sl a = Some n" using rep_live [OF heap_rep_rep [OF assms(1)]] assms(2) by auto
  then show ?thesis by (simp add: rd_pid_def pid_of_def)
qed

lemma succ_tail:
  assumes r: "sl_rep sl hdr as"
  shows "rd_fwd (sl_nodes sl) (pred_at (sl_nodes sl) hdr as k 0) 0
     = Some (case filter (\<lambda>a. k \<le> key_of (sl_nodes sl) a) as of [] \<Rightarrow> None | y # _ \<Rightarrow> Some y)"
  by (simp add: rd_pred_ok [OF r] succ_of_def find_filter)

lemma find_ge_tail:
  assumes r: "sl_rep sl hdr as"
  shows "do { nx \<leftarrow> rd_fwd (sl_nodes sl) (pred_at (sl_nodes sl) hdr as k 0) 0;
       (case nx of None \<Rightarrow> Some None | Some y \<Rightarrow> rd_pid (sl_nodes sl) y) }
     = Some (idx_find_ge (sl_abs sl) k)"
proof -
  let ?Q = "filter (\<lambda>a. k \<le> key_of (sl_nodes sl) a) as"
  have spec: "idx_find_ge (sl_abs sl) k = (case ?Q of [] \<Rightarrow> None | y # _ \<Rightarrow> pid_of (sl_nodes sl) y)"
    using rep_pids_ge [OF r, of k] rep_keys_ge [OF r, of k]
    by (cases ?Q) (simp_all add: idx_find_ge_def)
  have "set ?Q \<subseteq> set as" by simp
  with spec rep_rd_pid [OF r] show ?thesis
    by (cases ?Q) (auto simp: succ_tail [OF r])
qed

lemma find_ge_rep:
  assumes r: "sl_rep sl hdr as"
  shows "pid_skiplist_find_ge_rcu sl k = Some (idx_find_ge (sl_abs sl) k)"
proof -
  have "sl_header sl = Some hdr" using r by (simp add: sl_rep_def)
  then show ?thesis using find_ge_tail [OF r, of k]
    by (simp add: pid_skiplist_find_ge_rcu_def sl_seek_ok [OF r start_ok_hdr])
qed

lemma remove_hit:
  assumes r: "sl_rep sl hdr as" and y: "y \<in> set as" and k: "key_of (sl_nodes sl) y = k"
  shows "\<exists>sl'. pid_skiplist_remove sl k = Some sl' \<and> sl_rep sl' hdr (remove1 y as) \<and>
     sl_abs sl' = (sl_abs sl)(k := None) \<and> sl_rcu sl' = y # sl_rcu sl \<and>
     core (sl_nodes sl') = core (sl_nodes sl) \<and>
     (\<forall>j. rd_fwd (sl_nodes sl') y j = rd_fwd (sl_nodes sl) y j)"
proof -
  have hd: "sl_header sl = Some hdr" using r by (simp add: sl_rep_def)
  obtain u where u: "sl_search (sl_nodes sl) k (sl_level sl) hdr update_init
      = Some (pred_at (sl_nodes sl) hdr as k 0, u)" "upd_ok (sl_nodes sl) hdr as k (sl_level sl) u"
    using sl_search_ok [OF r] start_ok_hdr by blast
  have s: "succ_of (sl_nodes sl) as k = Some y"
    using succ_of_hit [OF rep_sorted [OF r] y k] .
  have hit: "key_is (sl_nodes sl) (Some y) k = Some True"
    using key_is_ok [OF r, of k] y k s by auto
  obtain h' l' where h': "sl_unlink (sl_nodes sl) u y 0 (sl_level sl) = Some h'"
     "sl_trim h' hdr (sl_level sl) = Some l'"
     "sl_rep (sl\<lparr>sl_nodes := h', sl_level := l', sl_rcu := y # sl_rcu sl\<rparr>) hdr (remove1 y as)"
     "node_map h' (remove1 y as) = (node_map (sl_nodes sl) as)(k := None)"
     "core h' = core (sl_nodes sl)" "\<forall>j. rd_fwd h' y j = rd_fwd (sl_nodes sl) y j"
    using rep_unlink [OF r y, of u] u(2) k by blast
  have "pid_skiplist_remove sl k = Some (sl\<lparr>sl_nodes := h', sl_level := l', sl_rcu := y # sl_rcu sl\<rparr>)"
    using hd u(1) rd_pred_ok [OF r, of k] s hit h'(1,2) by (simp add: pid_skiplist_remove_def)
  then show ?thesis using h' sl_abs_rep [OF r] sl_abs_rep [OF h'(3)] by simp
qed

lemma remove_miss:
  assumes r: "sl_rep sl hdr as" and k: "k \<notin> key_of (sl_nodes sl) ` set as"
  shows "pid_skiplist_remove sl k = Some sl"
proof -
  have hd: "sl_header sl = Some hdr" using r by (simp add: sl_rep_def)
  obtain u where u: "sl_search (sl_nodes sl) k (sl_level sl) hdr update_init
      = Some (pred_at (sl_nodes sl) hdr as k 0, u)"
    using sl_search_ok [OF r] start_ok_hdr by blast
  show ?thesis
    using hd u rd_pred_ok [OF r, of k] key_is_ok [OF r, of k] k
    by (simp add: pid_skiplist_remove_def)
qed

section \<open>The provider of the interface\<close>

definition skiplist_ops :: "pid_skiplist index_ops" where
  "skiplist_ops = \<lparr>op_init = pid_skiplist_init, op_destroy = pid_skiplist_destroy,
     op_insert = pid_skiplist_insert, op_lookup = pid_skiplist_lookup_rcu,
     op_remove = pid_skiplist_remove, op_iter_next = pid_skiplist_iter_next_rcu,
     op_find_ge = pid_skiplist_find_ge_rcu, op_header = sl_header\<rparr>"

lemma insert_cases:
  assumes "sl_inv sl"
  shows "\<exists>sl'. pid_skiplist_insert d sl k p g
       = Some (if k \<in> dom (sl_abs sl) \<or> node_alloc_ok d g then 0 else - ENOMEM, sl') \<and>
     sl_inv sl' \<and> sl_rcu sl' = sl_rcu sl \<and>
     sl_abs sl' = (if k \<in> dom (sl_abs sl) \<or> node_alloc_ok d g then (sl_abs sl)(k \<mapsto> p) else sl_abs sl)"
proof -
  obtain hdr as where r: "sl_rep sl hdr as" and a: "sl_abs sl = node_map (sl_nodes sl) as"
    using assms by (rule sl_invE)
  have d: "k \<in> dom (sl_abs sl) \<longleftrightarrow> k \<in> key_of (sl_nodes sl) ` set as"
    by (simp add: a dom_node_map)
  show ?thesis
  proof (cases "k \<in> key_of (sl_nodes sl) ` set as")
    case True
    then obtain y where "y \<in> set as" "key_of (sl_nodes sl) y = k" by auto
    from insert_hit [OF r this, of d p g] True d show ?thesis unfolding sl_inv_def by auto
  next
    case False
    with insert_new [OF r False, of d g p] insert_nomem [OF r False, of d g p] d
    show ?thesis unfolding sl_inv_def by (cases "node_alloc_ok d g") auto
  qed
qed

lemma remove_cases:
  assumes "sl_inv sl"
  shows "\<exists>sl'. pid_skiplist_remove sl k = Some sl' \<and> sl_inv sl' \<and> sl_abs sl' = (sl_abs sl)(k := None)"
proof -
  obtain hdr as where r: "sl_rep sl hdr as" and a: "sl_abs sl = node_map (sl_nodes sl) as"
    using assms by (rule sl_invE)
  show ?thesis
  proof (cases "k \<in> key_of (sl_nodes sl) ` set as")
    case True
    then obtain y where "y \<in> set as" "key_of (sl_nodes sl) y = k" by auto
    from remove_hit [OF r this] show ?thesis unfolding sl_inv_def by auto
  next
    case False
    then have "(sl_abs sl)(k := None) = sl_abs sl" by (auto simp: a node_map_None [symmetric])
    with remove_miss [OF r False] assms show ?thesis by auto
  qed
qed

text \<open>
  The iteration, for any operations whose first step finds the successor of the key and whose later
  steps follow level 0: it visits the pids at or above the key up to the first \<^verbatim>\<open>NULL\<close>.
\<close>

definition iter_steps_ok ::
  "'s index_ops \<Rightarrow> 's \<Rightarrow> 'z node_heap \<Rightarrow> bool" where
  "iter_steps_ok ops s h \<longleftrightarrow> (\<forall>c k. op_iter_next ops s (Some c) k = do {
     nx \<leftarrow> rd_fwd h c 0;
     (case nx of None \<Rightarrow> Some (None, Some c)
      | Some y \<Rightarrow> do { p \<leftarrow> rd_pid h y; Some (p, Some y) }) })"

lemma iter_collect_from:
  assumes ok: "iter_steps_ok ops s h" and "chain h 0 c xs None"
    and "\<forall>x \<in> set xs. rd_pid h x = Some (pid_of h x)"
  shows "iter_collect ops s (Some c) k = Some (until_null (map (pid_of h) xs))"
  using assms(2,3)
proof (induction xs arbitrary: c)
  case Nil
  then show ?case using ok by (subst iter_collect.simps) (simp add: iter_steps_ok_def)
next
  case (Cons x xs)
  then have "iter_collect ops s (Some x) k = Some (until_null (map (pid_of h) xs))" by simp
  with Cons.prems ok show ?case
    by (subst iter_collect.simps) (cases "pid_of h x", simp_all add: iter_steps_ok_def)
qed

lemma iter_collect_rep:
  assumes r: "sl_rep sl hdr as" and ok: "iter_steps_ok ops s (sl_nodes sl)"
    and first: "op_iter_next ops s None k = do {
       nx \<leftarrow> rd_fwd (sl_nodes sl) (pred_at (sl_nodes sl) hdr as k 0) 0;
       (case nx of None \<Rightarrow> Some (None, None)
        | Some y \<Rightarrow> do { n \<leftarrow> sl_nodes sl y;
            if n_key n < k then Some (None, None) else Some (n_pid n, Some y) }) }"
  shows "iter_collect ops s None k = Some (idx_iter (sl_abs sl) k)"
proof -
  let ?h = "sl_nodes sl"
  let ?Q = "filter (\<lambda>a. k \<le> key_of ?h a) as"
  have spec: "idx_iter (sl_abs sl) k = until_null (map (pid_of ?h) ?Q)"
    by (simp add: idx_iter_def rep_pids_ge [OF r])
  show ?thesis
  proof (cases ?Q)
    case Nil
    with spec show ?thesis by (subst iter_collect.simps) (simp add: first succ_tail [OF r])
  next
    case (Cons y ys)
    have "set (y # ys) \<subseteq> {a \<in> set as. k \<le> key_of ?h a}" unfolding Cons [symmetric] by auto
    then have y: "y \<in> set as" "k \<le> key_of ?h y" and sub: "set ys \<subseteq> set as" by auto
    then obtain n where n: "?h y = Some n" using rep_live [OF heap_rep_rep [OF r]] by auto
    have "as = filter (\<lambda>a. key_of ?h a < k) as @ y # ys"
      using filter_split_sorted [OF rep_sorted [OF r], of k] Cons by (simp add: not_less)
    then have "chain ?h 0 y ys None"
      using rep_chain_0 [OF r] by (metis chain_append)
    then have rest: "iter_collect ops s (Some y) k = Some (until_null (map (pid_of ?h) ys))"
      using rep_rd_pid [OF r] sub by (intro iter_collect_from [OF ok]) auto
    have "n_key n = key_of ?h y" "n_pid n = pid_of ?h y" using n by (simp_all add: key_of_def pid_of_def)
    then have "op_iter_next ops s None k = Some (pid_of ?h y, Some y)"
      using Cons n y(2) by (simp add: first succ_tail [OF r])
    with spec Cons rest show ?thesis
      by (subst iter_collect.simps) (cases "pid_of ?h y", simp_all)
  qed
qed

lemma iter_rep:
  assumes r: "sl_rep sl hdr as"
  shows "iter_collect skiplist_ops sl None k = Some (idx_iter (sl_abs sl) k)"
proof (rule iter_collect_rep [OF r])
  have hd: "sl_header sl = Some hdr" using r by (simp add: sl_rep_def)
  show "iter_steps_ok skiplist_ops sl (sl_nodes sl)"
    using hd by (simp add: iter_steps_ok_def skiplist_ops_def pid_skiplist_iter_next_rcu_def)
  show "op_iter_next skiplist_ops sl None k = do {
       nx \<leftarrow> rd_fwd (sl_nodes sl) (pred_at (sl_nodes sl) hdr as k 0) 0;
       (case nx of None \<Rightarrow> Some (None, None)
        | Some y \<Rightarrow> do { n \<leftarrow> sl_nodes sl y;
            if n_key n < k then Some (None, None) else Some (n_pid n, Some y) }) }"
    using hd sl_seek_ok [OF r start_ok_hdr]
    by (simp add: skiplist_ops_def pid_skiplist_iter_next_rcu_def)
qed

interpretation skip: pid_index skiplist_ops sl_inv sl_abs "\<lambda>_. True"
proof
  fix sl :: pid_skiplist and k :: int
  assume inv: "sl_inv sl"
  then obtain hdr as where r: "sl_rep sl hdr as" and a: "sl_abs sl = node_map (sl_nodes sl) as"
    by (rule sl_invE)
  show "op_header skiplist_ops sl \<noteq> None" using r by (simp add: skiplist_ops_def sl_rep_def)
  show "finite (dom (sl_abs sl))" by (simp add: a dom_node_map)
  show "op_lookup skiplist_ops sl k = Some (idx_get (sl_abs sl) k)"
    by (simp add: skiplist_ops_def lookup_rep [OF r])
  show "\<exists>sl'. op_remove skiplist_ops sl k = Some sl' \<and> sl_inv sl' \<and> sl_abs sl' = (sl_abs sl)(k := None)"
    using remove_cases [OF inv] by (simp add: skiplist_ops_def)
  show "op_find_ge skiplist_ops sl k = Some (idx_find_ge (sl_abs sl) k)"
    by (simp add: skiplist_ops_def find_ge_rep [OF r])
  show "iter_collect skiplist_ops sl None k = Some (idx_iter (sl_abs sl) k)"
    by (rule iter_rep [OF r])
next
  fix sl :: pid_skiplist and k p g and d :: draw
  assume "sl_inv sl"
  from insert_cases [OF this, of d k p g]
  show "\<exists>r sl'. op_insert skiplist_ops d sl k p g = Some (r, sl') \<and> sl_inv sl' \<and>
        (r = 0 \<and> sl_abs sl' = (sl_abs sl)(k \<mapsto> p)
         \<or> r = - ENOMEM \<and> k \<notin> dom (sl_abs sl) \<and> sl_abs sl' = sl_abs sl)"
    by (auto simp: skiplist_ops_def split: if_splits)
next
  fix sl :: pid_skiplist and k p g r sl' and d :: draw
  assume "sl_inv sl" "\<And>g. kzalloc_ok d g \<and> kcalloc_ok d g"
    "op_insert skiplist_ops d sl k p g = Some (r, sl')"
  with insert_cases [of sl d k p g] show "r = 0"
    by (auto simp: skiplist_ops_def node_alloc_ok_def)
qed

end
