(* ===== verification/Pid_Rb_Correct.thy ===== *)
theory Pid_Rb_Correct
  imports Pid_Rb_Skiplist Pid_Skiplist_Correct
begin

text \<open>
  The red-black variant against the abstract map.  \<open>rb_rep\<close> extends the representation of the plain
  list: the tree holds, in their order, exactly the nodes of the maximal level, and these are the nodes
  whose flag \<^verbatim>\<open>in_rb_tree\<close> is set.

  The search starts at the node that \<^verbatim>\<open>rb_find_le\<close> returns, the last one of the tree whose key is at
  most the key searched for.  For a key that no node of the tree holds this is a proper start, and the
  operations do what those of the plain list do.  For a key of the tree the search starts at the very
  node it looks for and walks past it; the lemmas of the last section describe what happens then.
\<close>

section \<open>Representation\<close>

definition in_tree :: "rb_heap \<Rightarrow> addr \<Rightarrow> bool" where
  "in_tree h a = (case h a of None \<Rightarrow> False | Some n \<Rightarrow> in_rb_tree n)"

definition rb_rep :: "pid_rb_skiplist \<Rightarrow> addr \<Rightarrow> addr list \<Rightarrow> bool" where
  "rb_rep sl hdr as \<longleftrightarrow> sl_rep sl hdr as \<and>
     inorder (top_rb_root sl) = filter (\<lambda>a. height (sl_nodes sl) a = PID_SL_MAX_LEVEL) as \<and>
     (\<forall>a \<in> set as. in_tree (sl_nodes sl) a \<longleftrightarrow> height (sl_nodes sl) a = PID_SL_MAX_LEVEL)"

definition rb_inv :: "pid_rb_skiplist \<Rightarrow> bool" where
  "rb_inv sl \<longleftrightarrow> (\<exists>hdr as. rb_rep sl hdr as)"

definition tree_keys :: "pid_rb_skiplist \<Rightarrow> int set" where
  "tree_keys sl = key_of (sl_nodes sl) ` set_tree (top_rb_root sl)"

lemma rb_invE:
  assumes "rb_inv sl"
  obtains hdr as where "rb_rep sl hdr as" "sl_rep sl hdr as" "sl_abs sl = node_map (sl_nodes sl) as"
  using assms unfolding rb_inv_def rb_rep_def by (blast intro: sl_abs_rep)

lemma rb_rep_tree:
  assumes "rb_rep sl hdr as"
  shows "set_tree (top_rb_root sl) = {a \<in> set as. height (sl_nodes sl) a = PID_SL_MAX_LEVEL}"
    and "sorted_wrt (<) (map (key_of (sl_nodes sl)) (inorder (top_rb_root sl)))"
    and "\<forall>a \<in> set (inorder (top_rb_root sl)). sl_nodes sl a \<noteq> None"
    and "distinct (inorder (top_rb_root sl))"
proof -
  have r: "sl_rep sl hdr as"
    and t: "inorder (top_rb_root sl) = filter (\<lambda>a. height (sl_nodes sl) a = PID_SL_MAX_LEVEL) as"
    using assms by (auto simp: rb_rep_def)
  from t show "set_tree (top_rb_root sl) = {a \<in> set as. height (sl_nodes sl) a = PID_SL_MAX_LEVEL}"
    by (metis set_filter set_inorder)
  show "sorted_wrt (<) (map (key_of (sl_nodes sl)) (inorder (top_rb_root sl)))"
    unfolding t by (rule sorted_wrt_filter_map [OF rep_sorted [OF r]])
  show "\<forall>a \<in> set (inorder (top_rb_root sl)). sl_nodes sl a \<noteq> None"
    unfolding t using rep_live [OF heap_rep_rep [OF r]] by fastforce
  show "distinct (inorder (top_rb_root sl))" unfolding t using r by (auto simp: sl_rep_def)
qed

section \<open>Descents of the tree\<close>

lemma rb_find_le_loop_ok:
  assumes "sorted_wrt (<) (map (key_of h) (inorder t))" and "\<forall>a \<in> set (inorder t). h a \<noteq> None"
  shows "rb_find_le_loop h k t x = Some (last (x # filter (\<lambda>a. key_of h a \<le> k) (inorder t)))"
  using assms
proof (induction t arbitrary: x)
  case (Node l a r)
  from Node.prems obtain n where n: "h a = Some n" by auto
  then have key: "key_of h a = n_key n" by (simp add: key_of_def)
  have srt: "\<forall>b \<in> set (inorder l). key_of h b < n_key n" "\<forall>b \<in> set (inorder r). n_key n < key_of h b"
    using Node.prems(1) key by (auto simp: sorted_wrt_append)
  show ?case
  proof (cases "n_key n \<le> k")
    case True
    have "rb_find_le_loop h k r a = Some (last (a # filter (\<lambda>a. key_of h a \<le> k) (inorder r)))"
      using Node.prems by (intro Node.IH(2)) (auto simp: sorted_wrt_append)
    with True n key show ?thesis by simp
  next
    case False
    have "rb_find_le_loop h k l x = Some (last (x # filter (\<lambda>a. key_of h a \<le> k) (inorder l)))"
      using Node.prems by (intro Node.IH(1)) (auto simp: sorted_wrt_append)
    moreover have "filter (\<lambda>a. key_of h a \<le> k) (inorder r) = []"
      using srt(2) False by (force simp: filter_empty_conv)
    ultimately show ?thesis using False n key by simp
  qed
qed simp

lemma rb_find_le_ok:
  assumes "rb_rep sl hdr as"
  shows "rb_find_le sl k = Some (last (hdr # filter (\<lambda>a. key_of (sl_nodes sl) a \<le> k)
     (inorder (top_rb_root sl))))"
proof -
  have "sl_header sl = Some hdr" using assms by (simp add: rb_rep_def sl_rep_def)
  then show ?thesis using rb_find_le_loop_ok [OF rb_rep_tree(2,3) [OF assms]]
    by (simp add: rb_find_le_def)
qed

text \<open>A key that the tree does not hold: the search starts where it may.\<close>

lemma rb_find_le_start:
  assumes r: "rb_rep sl hdr as" and k: "k \<notin> tree_keys sl"
  shows "\<exists>x. rb_find_le sl k = Some x \<and> start_ok (sl_nodes sl) hdr as k (sl_level sl) x"
proof -
  let ?x = "last (hdr # filter (\<lambda>a. key_of (sl_nodes sl) a \<le> k) (inorder (top_rb_root sl)))"
  have "?x = hdr \<or> ?x \<in> set_tree (top_rb_root sl) \<and> key_of (sl_nodes sl) ?x \<le> k"
    using last_Cons_mem [of hdr "filter (\<lambda>a. key_of (sl_nodes sl) a \<le> k) (inorder (top_rb_root sl))"]
    by auto
  moreover have "sl_level sl \<le> PID_SL_MAX_LEVEL" using r by (simp add: rb_rep_def sl_rep_def)
  ultimately have "start_ok (sl_nodes sl) hdr as k (sl_level sl) ?x"
    using k rb_rep_tree(1) [OF r] unfolding start_ok_def tree_keys_def
    by (metis (mono_tags, lifting) image_eqI mem_Collect_eq order_neq_le_trans)
  then show ?thesis using rb_find_le_ok [OF r] by blast
qed

lemma rb_find_le_hit:
  assumes r: "rb_rep sl hdr as" and y: "y \<in> set_tree (top_rb_root sl)"
  shows "rb_find_le sl (key_of (sl_nodes sl) y) = Some y"
proof -
  let ?k = "key_of (sl_nodes sl)"
  obtain us vs where t: "inorder (top_rb_root sl) = us @ y # vs"
    using y by (metis set_inorder split_list)
  have "filter (\<lambda>a. ?k a \<le> ?k y) vs = []"
    using rb_rep_tree(2) [OF r] t by (auto simp: filter_empty_conv sorted_wrt_append)
  then show ?thesis using rb_find_le_ok [OF r] t by simp
qed

lemma rb_descend_link_ok:
  assumes "sorted_wrt (<) (map (key_of h) (inorder t))" and "\<forall>a \<in> set (inorder t). h a \<noteq> None"
    and "k \<notin> key_of h ` set (inorder t)"
  shows "\<exists>t'. rb_descend_link h y k t = Some (Some t') \<and> inorder t' = ins_sorted h k y (inorder t)"
  using assms
proof (induction t)
  case (Node l a r)
  from Node.prems obtain n where n: "h a = Some n" by auto
  then have key: "key_of h a = n_key n" by (simp add: key_of_def)
  have srt: "\<forall>b \<in> set (inorder l). key_of h b < n_key n" "\<forall>b \<in> set (inorder r). n_key n < key_of h b"
    using Node.prems(1) key by (auto simp: sorted_wrt_append)
  have "k \<noteq> n_key n" using Node.prems(3) key by auto
  then consider "k < n_key n" | "n_key n < k" by linarith
  then show ?case
  proof cases
    case 1
    have "\<exists>t'. rb_descend_link h y k l = Some (Some t') \<and> inorder t' = ins_sorted h k y (inorder l)"
      using Node.prems by (intro Node.IH(1)) (auto simp: sorted_wrt_append)
    moreover have "filter (\<lambda>b. key_of h b < k) (inorder r) = []"
        "filter (\<lambda>b. \<not> key_of h b < k) (inorder r) = inorder r"
      using srt(2) 1 by (force simp: filter_empty_conv filter_id_conv)+
    ultimately show ?thesis using 1 n key by (auto simp: ins_sorted_def)
  next
    case 2
    have "\<exists>t'. rb_descend_link h y k r = Some (Some t') \<and> inorder t' = ins_sorted h k y (inorder r)"
      using Node.prems by (intro Node.IH(2)) (auto simp: sorted_wrt_append)
    moreover have "filter (\<lambda>b. \<not> key_of h b < k) (inorder l) = []"
        "filter (\<lambda>b. key_of h b < k) (inorder l) = inorder l"
      using srt(1) 2 by (force simp: filter_empty_conv filter_id_conv)+
    ultimately show ?thesis using 2 n key by (auto simp: ins_sorted_def)
  qed
qed (simp add: ins_sorted_def)

section \<open>Readers\<close>

lemma rb_lookup_rep:
  assumes r: "rb_rep sl hdr as" and k: "k \<notin> tree_keys sl"
  shows "pid_rb_skiplist_lookup_rcu sl k = Some (idx_get (sl_abs sl) k)"
proof -
  have s: "sl_rep sl hdr as" "sl_header sl = Some hdr" using r by (auto simp: rb_rep_def sl_rep_def)
  obtain x where "rb_find_le sl k = Some x" "start_ok (sl_nodes sl) hdr as k (sl_level sl) x"
    using rb_find_le_start [OF r k] by blast
  then show ?thesis using lookup_tail [OF s(1), of k] s
    by (simp add: pid_rb_skiplist_lookup_rcu_def sl_seek_ok [OF s(1)])
qed

lemma rb_find_ge_rep:
  assumes r: "rb_rep sl hdr as" and k: "k \<notin> tree_keys sl"
  shows "pid_rb_skiplist_find_ge_rcu sl k = Some (idx_find_ge (sl_abs sl) k)"
proof -
  have s: "sl_rep sl hdr as" "sl_header sl = Some hdr" using r by (auto simp: rb_rep_def sl_rep_def)
  obtain x where "rb_find_le sl k = Some x" "start_ok (sl_nodes sl) hdr as k (sl_level sl) x"
    using rb_find_le_start [OF r k] by blast
  then show ?thesis using find_ge_tail [OF s(1), of k] s
    by (simp add: pid_rb_skiplist_find_ge_rcu_def sl_seek_ok [OF s(1)])
qed

section \<open>Changes that keep the tree\<close>

lemma sl_rep_root [simp]: "sl_rep (sl\<lparr>top_rb_root := t\<rparr>) hdr as = sl_rep sl hdr as"
  by (simp add: sl_rep_def)

lemma rb_rep_cong:
  assumes "rb_rep sl hdr as" and "sl_rep (sl\<lparr>sl_nodes := h'\<rparr>) hdr as"
    and "height h' = height (sl_nodes sl)" and "in_tree h' = in_tree (sl_nodes sl)"
  shows "rb_rep (sl\<lparr>sl_nodes := h'\<rparr>) hdr as"
  using assms by (simp add: rb_rep_def)

lemma in_tree_core: "core h' = core h \<Longrightarrow> in_tree h' = in_tree h"
proof (rule ext)
  fix a assume "core h' = core h"
  from core_field [OF this, of in_rb_tree a] show "in_tree h' a = in_tree h a"
    by (cases "h a"; cases "h' a") (auto simp: in_tree_def)
qed

text \<open>Writing the flag of a node changes nothing else.\<close>

lemma rep_upd_flag:
  fixes sl :: pid_rb_skiplist
  assumes r: "sl_rep sl hdr as" and y: "y \<in> set as"
  shows "\<exists>h'. upd_node (sl_nodes sl) y (\<lambda>n. n\<lparr>in_rb_tree := b\<rparr>) = Some h' \<and>
     sl_rep (sl\<lparr>sl_nodes := h'\<rparr>) hdr as \<and> node_map h' = node_map (sl_nodes sl) \<and>
     rd_fwd h' = rd_fwd (sl_nodes sl) \<and> height h' = height (sl_nodes sl) \<and>
     key_of h' = key_of (sl_nodes sl) \<and> in_tree h' = (in_tree (sl_nodes sl))(y := b)"
proof -
  let ?h = "sl_nodes sl"
  obtain n where n: "?h y = Some n" using rep_live [OF heap_rep_rep [OF r]] y by auto
  let ?h' = "?h(y \<mapsto> n\<lparr>in_rb_tree := b\<rparr>)"
  have u: "upd_node ?h y (\<lambda>n. n\<lparr>in_rb_tree := b\<rparr>) = Some ?h'" using n by (simp add: upd_node_def)
  have v: "rd_fwd ?h' = rd_fwd ?h" "height ?h' = height ?h" "dom ?h' = dom ?h"
    using upd_node_rd [OF u] by auto
  have w: "key_of ?h' = key_of ?h" "pid_of ?h' = pid_of ?h" "in_tree ?h' = (in_tree ?h)(y := b)"
    "map_option (\<lambda>n. unat (n_level n)) (?h' a) = map_option (\<lambda>n. unat (n_level n)) (?h a)" for a
    using n by (auto simp: key_of_def pid_of_def in_tree_def fun_eq_iff)
  from r v w have "sl_rep (sl\<lparr>sl_nodes := ?h'\<rparr>) hdr as"
    unfolding sl_rep_def by (simp add: heap_rep_cong [of ?h])
  moreover have "node_map ?h' = node_map ?h" by (rule ext) (simp add: node_map_def w)
  ultimately show ?thesis using u v w by blast
qed

section \<open>Insertion\<close>

lemma rb_alloc_ok:
  "node_alloc_ok d g \<Longrightarrow> rb_pid_sl_node_alloc d lvl g sl =
     (Some (sl_brk sl), sl\<lparr>sl_nodes := (sl_nodes sl)(sl_brk sl \<mapsto>
        \<lparr>n_key = 0, n_pid = None, n_forward = replicate lvl None, n_level = of_nat lvl,
         in_rb_tree = False\<rparr>),
        sl_brk := Suc (sl_brk sl)\<rparr>)"
  by (simp add: rb_pid_sl_node_alloc_def node_alloc_ok_def Let_def)

lemma rb_alloc_fail:
  "\<not> node_alloc_ok d g \<Longrightarrow> \<exists>b \<ge> sl_brk sl. rb_pid_sl_node_alloc d lvl g sl = (None, sl\<lparr>sl_brk := b\<rparr>)"
  by (auto simp: rb_pid_sl_node_alloc_def node_alloc_ok_def Let_def
      intro: exI [of _ "sl_brk sl"] exI [of _ "Suc (sl_brk sl)"])

lemma pid_rb_skiplist_init_rep:
  assumes "nofail_promise d" and "sl_nodes sl = Map.empty" and "sl_rcu sl = []"
  shows "\<exists>sl'. pid_rb_skiplist_init d g sl = Some sl' \<and> rb_rep sl' (sl_brk sl) [] \<and>
     top_rb_root sl' = Leaf"
proof -
  have ok: "node_alloc_ok d (insert GFP_NOFAIL_BIT g)" using assms(1) by (simp add: node_alloc_nofail)
  have "unat (of_nat PID_SL_MAX_LEVEL :: 8 word) = PID_SL_MAX_LEVEL"
    by (simp add: PID_SL_MAX_LEVEL_def)
  then show ?thesis using assms(2,3)
    by (auto simp: pid_rb_skiplist_init_def rb_alloc_ok [OF ok] upd_node_def rb_rep_def sl_rep_def
        heap_rep_def height_def tall_def rd_fwd_def PID_SL_MAX_LEVEL_def)
qed

lemma rb_hdr_level:
  assumes "sl_rep sl hdr as"
  shows "\<exists>hn. sl_nodes sl hdr = Some hn \<and> unat (n_level hn) = PID_SL_MAX_LEVEL"
  using assms by (cases "sl_nodes sl hdr") (auto simp: sl_rep_def heap_rep_def)

text \<open>The search of an insertion, from whichever of the two starts the code takes.\<close>

lemma rb_insert_search:
  assumes r: "rb_rep sl hdr as" and k: "k \<notin> tree_keys sl"
  shows "\<exists>hn x0 u. sl_nodes sl hdr = Some hn \<and> unat (n_level hn) = PID_SL_MAX_LEVEL \<and>
     (if sl_level sl = PID_SL_MAX_LEVEL then rb_find_le sl k else Some hdr) = Some x0 \<and>
     sl_search (sl_nodes sl) k (sl_level sl) x0 update_init
       = Some (pred_at (sl_nodes sl) hdr as k 0, u) \<and>
     upd_ok (sl_nodes sl) hdr as k (sl_level sl) u"
proof -
  have s: "sl_rep sl hdr as" using r by (simp add: rb_rep_def)
  obtain x0 where x0: "(if sl_level sl = PID_SL_MAX_LEVEL then rb_find_le sl k else Some hdr) = Some x0"
      "start_ok (sl_nodes sl) hdr as k (sl_level sl) x0"
    using rb_find_le_start [OF r k] start_ok_hdr by (metis (no_types, lifting))
  from sl_search_ok [OF s x0(2)] rb_hdr_level [OF s] x0(1) show ?thesis by blast
qed

lemma rb_insert_hit:
  assumes r: "rb_rep sl hdr as" and nt: "k \<notin> tree_keys sl"
    and y: "y \<in> set as" and k: "key_of (sl_nodes sl) y = k"
  shows "\<exists>sl'. pid_rb_skiplist_insert api d sl k p g = Some (0, sl') \<and> rb_rep sl' hdr as \<and>
     sl_abs sl' = (sl_abs sl)(k \<mapsto> p) \<and> sl_rcu sl' = sl_rcu sl \<and> top_rb_root sl' = top_rb_root sl"
proof -
  have s: "sl_rep sl hdr as" using r by (simp add: rb_rep_def)
  obtain hn x0 u where u: "sl_nodes sl hdr = Some hn" "unat (n_level hn) = PID_SL_MAX_LEVEL"
     "(if sl_level sl = PID_SL_MAX_LEVEL then rb_find_le sl k else Some hdr) = Some x0"
     "sl_search (sl_nodes sl) k (sl_level sl) x0 update_init = Some (pred_at (sl_nodes sl) hdr as k 0, u)"
    using rb_insert_search [OF r nt] by blast
  have succ: "succ_of (sl_nodes sl) as k = Some y"
    using succ_of_hit [OF rep_sorted [OF s] y k] .
  have hit: "key_is (sl_nodes sl) (Some y) k = Some True"
    using key_is_ok [OF s, of k] y k succ by auto
  obtain h' where h': "upd_node (sl_nodes sl) y (\<lambda>n. n\<lparr>n_pid := p\<rparr>) = Some h'"
      "sl_rep (sl\<lparr>sl_nodes := h'\<rparr>) hdr as" "node_map h' as = (node_map (sl_nodes sl) as)(k \<mapsto> p)"
    using rep_upd_pid [OF s y, of p] k by blast
  have "height h' = height (sl_nodes sl)" by (rule upd_node_rd(2) [OF h'(1)]) simp
  moreover have "in_tree h' = in_tree (sl_nodes sl)"
  proof (rule ext)
    fix a
    from h'(1) show "in_tree h' a = in_tree (sl_nodes sl) a"
      by (cases "a = y") (auto simp: upd_node_Some_iff in_tree_def)
  qed
  ultimately have r': "rb_rep (sl\<lparr>sl_nodes := h'\<rparr>) hdr as" by (rule rb_rep_cong [OF r h'(2)])
  have "sl_header sl = Some hdr" using s by (simp add: sl_rep_def)
  then have "pid_rb_skiplist_insert api d sl k p g = Some (0, sl\<lparr>sl_nodes := h'\<rparr>)"
    using u rd_pred_ok [OF s, of k] succ hit h'(1) by (simp add: pid_rb_skiplist_insert_def)
  then show ?thesis using h' r' sl_abs_rep [OF s] sl_abs_rep [OF h'(2)] by simp
qed

text \<open>The nodes of the maximal level after a node has come in.\<close>

lemma ins_sorted_cong:
  "\<forall>a \<in> set as. key_of h' a = key_of h a \<Longrightarrow> ins_sorted h' k y as = ins_sorted h k y as"
  by (simp add: ins_sorted_def cong: filter_cong)

lemma filter_ins_sorted:
  assumes "sorted_wrt (<) (map (key_of h) as)" and "\<forall>a \<in> set as. Q' a = Q a"
  shows "filter Q' (ins_sorted h k y as) = (if Q' y then ins_sorted h k y (filter Q as) else filter Q as)"
proof -
  have eq: "filter Q' (filter P as) = filter P (filter Q as)" for P
    using assms(2) by (simp add: conj_commute cong: filter_cong)
  have "filter Q as = filter (\<lambda>a. key_of h a < k) (filter Q as) @ filter (\<lambda>a. \<not> key_of h a < k) (filter Q as)"
    by (rule filter_split_sorted [OF sorted_wrt_filter_map [OF assms(1)]])
  then show ?thesis by (simp add: ins_sorted_def eq del: filter_filter)
qed

lemma rb_insert_node_ok:
  assumes api: "rb_api_ok api" and s: "sl_rep sl hdr as" and y: "y \<in> set as"
    and t: "sorted_wrt (<) (map (key_of (sl_nodes sl)) (inorder (top_rb_root sl)))"
      "set (inorder (top_rb_root sl)) \<subseteq> set as"
      "key_of (sl_nodes sl) y \<notin> key_of (sl_nodes sl) ` set (inorder (top_rb_root sl))"
  shows "\<exists>h t'. rb_insert_node api sl y = Some (sl\<lparr>sl_nodes := h, top_rb_root := t'\<rparr>) \<and>
     sl_rep (sl\<lparr>sl_nodes := h\<rparr>) hdr as \<and> node_map h = node_map (sl_nodes sl) \<and>
     height h = height (sl_nodes sl) \<and> key_of h = key_of (sl_nodes sl) \<and> in_tree h = (in_tree (sl_nodes sl))(y := True) \<and>
     inorder t' = ins_sorted (sl_nodes sl) (key_of (sl_nodes sl) y) y (inorder (top_rb_root sl))"
proof -
  let ?h = "sl_nodes sl" and ?t = "top_rb_root sl"
  obtain n where n: "?h y = Some n" using rep_live [OF heap_rep_rep [OF s]] y by auto
  then have key: "key_of ?h y = n_key n" by (simp add: key_of_def)
  have "\<forall>a \<in> set (inorder ?t). ?h a \<noteq> None"
    using t(2) rep_live [OF heap_rep_rep [OF s]] by fastforce
  then obtain t' where t': "rb_descend_link ?h y (n_key n) ?t = Some (Some t')"
      "inorder t' = ins_sorted ?h (n_key n) y (inorder ?t)"
    using rb_descend_link_ok [OF t(1)] t(3) key by metis
  obtain h where h: "upd_node ?h y (\<lambda>n. n\<lparr>in_rb_tree := True\<rparr>) = Some h"
     "sl_rep (sl\<lparr>sl_nodes := h\<rparr>) hdr as" "node_map h = node_map ?h" "height h = height ?h" "key_of h = key_of ?h"
     "in_tree h = (in_tree ?h)(y := True)"
    using rep_upd_flag [OF s y, of True] by blast
  have "inorder (rb_insert_color api y t') = ins_sorted ?h (key_of ?h y) y (inorder ?t)"
    using api t'(2) key by (simp add: rb_api_ok_def)
  moreover have "rb_insert_node api sl y
      = Some (sl\<lparr>sl_nodes := h, top_rb_root := rb_insert_color api y t'\<rparr>)"
    using n t'(1) h(1) by (simp add: rb_insert_node_def)
  ultimately show ?thesis using h(2-6) by blast
qed

lemma rb_insert_new_search:
  assumes r: "rb_rep sl hdr as" and k: "k \<notin> key_of (sl_nodes sl) ` set as"
    and lvl: "lvl = rb_pid_sl_random_level (prandom_u32 d)"
  shows "\<exists>u. upd_ok (sl_nodes sl) hdr as k lvl u \<and> pid_rb_skiplist_insert api d sl k p g =
     (case rb_pid_sl_node_alloc d lvl g (sl\<lparr>sl_level := max (sl_level sl) lvl\<rparr>) of (new, sl2) \<Rightarrow>
       (case new of None \<Rightarrow> Some (- ENOMEM, sl2)
        | Some y \<Rightarrow> do {
            h1 \<leftarrow> upd_node (sl_nodes sl2) y (\<lambda>n. n\<lparr>n_key := k, n_pid := p\<rparr>);
            h2 \<leftarrow> sl_link h1 u y 0 lvl;
            hn' \<leftarrow> h2 hdr;
            sl3 \<leftarrow> (if lvl = sl_level sl2 \<and> lvl = unat (n_level hn')
                    then rb_insert_node api (sl2\<lparr>sl_nodes := h2\<rparr>) y else Some (sl2\<lparr>sl_nodes := h2\<rparr>));
            Some (0, sl3) }))"
proof -
  have s: "sl_rep sl hdr as" using r by (simp add: rb_rep_def)
  have hd: "sl_header sl = Some hdr"
    and hts: "\<forall>a \<in> set as. height (sl_nodes sl) a \<le> sl_level sl"
    using s by (auto simp: sl_rep_def)
  have nt: "k \<notin> tree_keys sl" using k rb_rep_tree(1) [OF r] by (auto simp: tree_keys_def)
  obtain hn x0 u where u: "sl_nodes sl hdr = Some hn" "unat (n_level hn) = PID_SL_MAX_LEVEL"
     "(if sl_level sl = PID_SL_MAX_LEVEL then rb_find_le sl k else Some hdr) = Some x0"
     "sl_search (sl_nodes sl) k (sl_level sl) x0 update_init = Some (pred_at (sl_nodes sl) hdr as k 0, u)"
     "upd_ok (sl_nodes sl) hdr as k (sl_level sl) u"
    using rb_insert_search [OF r nt] by blast
  note found = hd u(1-4) rd_pred_ok [OF s, of k] key_is_ok [OF s, of k] k
  have range: "lvl \<le> PID_SL_MAX_LEVEL"
    using random_level_range lvl by (simp add: rb_pid_sl_random_level_def pid_sl_random_level_def)
  show ?thesis
  proof (cases "sl_level sl < lvl")
    case True
    from upd_ok_fill [OF u(5) hts True range] obtain u' where
      u': "update_fill hdr (sl_level sl) (lvl - sl_level sl) u = Some u'"
        "upd_ok (sl_nodes sl) hdr as k lvl u'" by blast
    with True have "max (sl_level sl) lvl = lvl" by simp
    with True u' show ?thesis
      by (intro exI [of _ u']) (simp add: pid_rb_skiplist_insert_def found lvl [symmetric])
  next
    case False
    then have "sl\<lparr>sl_level := max (sl_level sl) lvl\<rparr> = sl" by simp
    with False upd_ok_mono [OF u(5)] show ?thesis
      by (intro exI [of _ u]) (simp add: pid_rb_skiplist_insert_def found lvl [symmetric])
  qed
qed

lemma rb_level_eq: "rb_pid_sl_random_level r = pid_sl_random_level r"
  by (simp add: rb_pid_sl_random_level_def pid_sl_random_level_def)

text \<open>The list once the new node is linked, before the tree is touched.\<close>

lemma rb_insert_linked:
  assumes r: "rb_rep sl hdr as" and k: "k \<notin> key_of (sl_nodes sl) ` set as"
    and ok: "node_alloc_ok d g" and lvl: "lvl = rb_pid_sl_random_level (prandom_u32 d)"
  shows "\<exists>sl2. pid_rb_skiplist_insert api d sl k p g = map_option (Pair 0)
       (if lvl = PID_SL_MAX_LEVEL then rb_insert_node api sl2 (sl_brk sl) else Some sl2) \<and>
     sl_rep sl2 hdr (ins_sorted (sl_nodes sl) k (sl_brk sl) as) \<and> sl_abs sl2 = (sl_abs sl)(k \<mapsto> p) \<and>
     sl_rcu sl2 = sl_rcu sl \<and> top_rb_root sl2 = top_rb_root sl \<and>
     core (sl_nodes sl2) = core ((sl_nodes sl)(sl_brk sl \<mapsto> \<lparr>n_key = k, n_pid = p,
        n_forward = replicate lvl None, n_level = of_nat lvl, in_rb_tree = False\<rparr>)) \<and>
     height (sl_nodes sl2) = (height (sl_nodes sl))(sl_brk sl := lvl)"
proof -
  let ?b = "sl_brk sl" and ?as = "ins_sorted (sl_nodes sl) k (sl_brk sl) as"
  let ?n = "\<lparr>n_key = k, n_pid = p, n_forward = replicate lvl None, n_level = of_nat lvl, in_rb_tree = False\<rparr>"
  have s: "sl_rep sl hdr as" and lev: "sl_level sl \<le> PID_SL_MAX_LEVEL"
    using r by (auto simp: rb_rep_def sl_rep_def)
  obtain u where u: "upd_ok (sl_nodes sl) hdr as k lvl u" and
    ins: "pid_rb_skiplist_insert api d sl k p g =
     (case rb_pid_sl_node_alloc d lvl g (sl\<lparr>sl_level := max (sl_level sl) lvl\<rparr>) of (new, sl2) \<Rightarrow>
       (case new of None \<Rightarrow> Some (- ENOMEM, sl2)
        | Some y \<Rightarrow> do {
            h1 \<leftarrow> upd_node (sl_nodes sl2) y (\<lambda>n. n\<lparr>n_key := k, n_pid := p\<rparr>);
            h2 \<leftarrow> sl_link h1 u y 0 lvl;
            hn' \<leftarrow> h2 hdr;
            sl3 \<leftarrow> (if lvl = sl_level sl2 \<and> lvl = unat (n_level hn')
                    then rb_insert_node api (sl2\<lparr>sl_nodes := h2\<rparr>) y else Some (sl2\<lparr>sl_nodes := h2\<rparr>));
            Some (0, sl3) }))"
    using rb_insert_new_search [OF r k lvl] by blast
  have n: "n_key ?n = k" "length (n_forward ?n) = lvl" "unat (n_level ?n) = lvl"
      "1 \<le> lvl" "lvl \<le> PID_SL_MAX_LEVEL"
    using random_level_range random_level_8bit by (auto simp: lvl rb_level_eq)
  obtain h2 where h2: "sl_link ((sl_nodes sl)(?b \<mapsto> ?n)) u ?b 0 lvl = Some h2"
     "sl_rep (sl\<lparr>sl_level := max (sl_level sl) lvl, sl_nodes := h2, sl_brk := Suc ?b\<rparr>) hdr ?as"
     "node_map h2 ?as = (node_map (sl_nodes sl) as)(k \<mapsto> p)"
     "core h2 = core ((sl_nodes sl)(?b \<mapsto> ?n))" "height h2 = height ((sl_nodes sl)(?b \<mapsto> ?n))"
    using rep_link [OF s k n u] by auto
  let ?sl2 = "sl\<lparr>sl_level := max (sl_level sl) lvl, sl_brk := Suc ?b, sl_nodes := h2\<rparr>"
  have "?sl2 = sl\<lparr>sl_level := max (sl_level sl) lvl, sl_nodes := h2, sl_brk := Suc ?b\<rparr>" by simp
  with h2(2) have s2: "sl_rep ?sl2 hdr ?as" by (simp only:)
  obtain hn where hn: "h2 hdr = Some hn" "unat (n_level hn) = PID_SL_MAX_LEVEL"
    using rb_hdr_level [OF s2] by auto
  have "pid_rb_skiplist_insert api d sl k p g = map_option (Pair 0)
      (if lvl = PID_SL_MAX_LEVEL then rb_insert_node api ?sl2 ?b else Some ?sl2)"
    unfolding ins using h2(1) hn lev
    by (auto simp: rb_alloc_ok [OF ok] upd_node_def max_def map_option_case split: option.splits)
  moreover have "sl_abs ?sl2 = (sl_abs sl)(k \<mapsto> p)"
    using sl_abs_rep [OF s] sl_abs_rep [OF s2] h2(3) by simp
  moreover have "height h2 = (height (sl_nodes sl))(?b := lvl)"
    using h2(5) by (auto simp: height_def fun_eq_iff)
  ultimately show ?thesis using s2 h2(4) by (intro exI [of _ ?sl2]) simp
qed

lemma rb_insert_new:
  assumes api: "prandom_u32 d = 0 \<Longrightarrow> rb_api_ok api" and r: "rb_rep sl hdr as" and k: "k \<notin> key_of (sl_nodes sl) ` set as"
    and ok: "node_alloc_ok d g"
  shows "\<exists>sl'. pid_rb_skiplist_insert api d sl k p g = Some (0, sl') \<and>
     rb_rep sl' hdr (ins_sorted (sl_nodes sl) k (sl_brk sl) as) \<and>
     sl_abs sl' = (sl_abs sl)(k \<mapsto> p) \<and> sl_rcu sl' = sl_rcu sl \<and>
     (if prandom_u32 d = 0 then k \<in> tree_keys sl' else top_rb_root sl' = top_rb_root sl)"
proof -
  define lvl where "lvl = rb_pid_sl_random_level (prandom_u32 d)"
  let ?b = "sl_brk sl" and ?as = "ins_sorted (sl_nodes sl) k (sl_brk sl) as" and ?t = "top_rb_root sl"
  have s: "sl_rep sl hdr as" using r by (simp add: rb_rep_def)
  obtain sl2 where ins: "pid_rb_skiplist_insert api d sl k p g = map_option (Pair 0)
       (if lvl = PID_SL_MAX_LEVEL then rb_insert_node api sl2 ?b else Some sl2)"
     and s2: "sl_rep sl2 hdr ?as" "sl_abs sl2 = (sl_abs sl)(k \<mapsto> p)" "sl_rcu sl2 = sl_rcu sl"
       "top_rb_root sl2 = ?t" "height (sl_nodes sl2) = (height (sl_nodes sl))(?b := lvl)"
     and core: "core (sl_nodes sl2) = core ((sl_nodes sl)(?b \<mapsto> \<lparr>n_key = k, n_pid = p,
        n_forward = replicate lvl None, n_level = of_nat lvl, in_rb_tree = False\<rparr>))"
    using rb_insert_linked [OF r k ok lvl_def] by blast
  let ?h = "sl_nodes sl2"
  have b: "?b \<notin> set as" using s by (auto simp: sl_rep_def)
  have old: "key_of ?h a = key_of (sl_nodes sl) a" "in_tree ?h a = in_tree (sl_nodes sl) a"
      if "a \<in> set as" for a
    using that b in_tree_core [OF core] core_views(1) [OF core] by (auto simp: key_of_def in_tree_def)
  have new: "key_of ?h ?b = k" "in_tree ?h ?b = False" "height ?h ?b = lvl"
    using in_tree_core [OF core] core_views(1) [OF core] s2(5) by (auto simp: key_of_def in_tree_def)
  have t: "inorder ?t = filter (\<lambda>a. height (sl_nodes sl) a = PID_SL_MAX_LEVEL) as"
    and fl: "\<forall>a \<in> set as. in_tree ?h a \<longleftrightarrow> height ?h a = PID_SL_MAX_LEVEL"
    using r old b by (auto simp: rb_rep_def s2(5))
  have "\<forall>a \<in> set as. (height ?h a = PID_SL_MAX_LEVEL) = (height (sl_nodes sl) a = PID_SL_MAX_LEVEL)"
    using b by (auto simp: s2(5))
  then have f: "filter (\<lambda>a. height ?h a = PID_SL_MAX_LEVEL) ?as
      = (if lvl = PID_SL_MAX_LEVEL then ins_sorted (sl_nodes sl) k ?b (inorder ?t) else inorder ?t)"
    using filter_ins_sorted [OF rep_sorted [OF s], where Q' = "\<lambda>a. height ?h a = PID_SL_MAX_LEVEL"] new(3) t
    by (simp only:)
  show ?thesis
  proof (cases "lvl = PID_SL_MAX_LEVEL")
    case False
    have "rb_rep sl2 hdr ?as" using s2 False f fl new by (auto simp: rb_rep_def)
    moreover have "prandom_u32 d \<noteq> 0" using False by (auto simp: lvl_def rb_level_eq random_level_zero)
    ultimately show ?thesis using False ins s2 by simp
  next
    case True
    then have zero: "prandom_u32 d = 0"
      using random_level_nonzero by (force simp: lvl_def rb_level_eq PID_SL_MAX_LEVEL_def)
    have sub: "set (inorder ?t) \<subseteq> set as" using t by auto
    then have eqs: "map (key_of ?h) (inorder ?t) = map (key_of (sl_nodes sl)) (inorder ?t)"
      and sub': "set (inorder ?t) \<subseteq> insert ?b (set as)"
      and nk: "k \<notin> key_of ?h ` set (inorder ?t)"
      and isc: "ins_sorted ?h k ?b (inorder ?t) = ins_sorted (sl_nodes sl) k ?b (inorder ?t)"
      using old(1) k by (auto simp: image_iff intro!: ins_sorted_cong)
    obtain h3 t' where h3: "rb_insert_node api sl2 ?b = Some (sl2\<lparr>sl_nodes := h3, top_rb_root := t'\<rparr>)"
       "sl_rep (sl2\<lparr>sl_nodes := h3\<rparr>) hdr ?as" "node_map h3 = node_map ?h" "height h3 = height ?h" "key_of h3 = key_of ?h"
       "in_tree h3 = (in_tree ?h)(?b := True)" "inorder t' = ins_sorted ?h k ?b (inorder ?t)"
      using rb_insert_node_ok [OF api [OF zero] s2(1), of ?b] eqs nk rb_rep_tree(2) [OF r] sub' new(1) s2(4) by auto
    have r': "rb_rep (sl2\<lparr>sl_nodes := h3, top_rb_root := t'\<rparr>) hdr ?as"
      using h3 True f fl isc b by (auto simp: rb_rep_def s2(5))
    then have "sl_rep (sl2\<lparr>sl_nodes := h3, top_rb_root := t'\<rparr>) hdr ?as" by (simp add: rb_rep_def)
    from sl_abs_rep [OF this] sl_abs_rep [OF s2(1)]
    have "sl_abs (sl2\<lparr>sl_nodes := h3, top_rb_root := t'\<rparr>) = sl_abs sl2" by (simp add: h3(3))
    moreover have "?b \<in> set (inorder t')" using h3(7) by simp
    then have "k \<in> tree_keys (sl2\<lparr>sl_nodes := h3, top_rb_root := t'\<rparr>)"
      using new(1) h3(5) by (auto simp: tree_keys_def intro: rev_image_eqI)
    ultimately show ?thesis using True zero ins h3(1) r' s2 by simp
  qed
qed

lemma rb_insert_nomem:
  assumes r: "rb_rep sl hdr as" and k: "k \<notin> key_of (sl_nodes sl) ` set as"
    and fail: "\<not> node_alloc_ok d g"
  shows "\<exists>sl'. pid_rb_skiplist_insert api d sl k p g = Some (- ENOMEM, sl') \<and> rb_rep sl' hdr as \<and>
     sl_abs sl' = sl_abs sl \<and> sl_rcu sl' = sl_rcu sl \<and> top_rb_root sl' = top_rb_root sl"
proof -
  define lvl where "lvl = rb_pid_sl_random_level (prandom_u32 d)"
  have s: "sl_rep sl hdr as" using r by (simp add: rb_rep_def)
  let ?sl = "sl\<lparr>sl_level := max (sl_level sl) lvl\<rparr>"
  obtain b where b: "sl_brk sl \<le> b" "rb_pid_sl_node_alloc d lvl g ?sl = (None, ?sl\<lparr>sl_brk := b\<rparr>)"
    using rb_alloc_fail [OF fail, of ?sl lvl] by auto
  have s': "sl_rep (?sl\<lparr>sl_brk := b\<rparr>) hdr as"
    using sl_rep_weaken [OF s, of "max (sl_level sl) lvl" b] b(1) s random_level_range
    by (auto simp: lvl_def sl_rep_def rb_pid_sl_random_level_def pid_sl_random_level_def)
  then have "rb_rep (?sl\<lparr>sl_brk := b\<rparr>) hdr as" using r by (simp add: rb_rep_def)
  moreover have "pid_rb_skiplist_insert api d sl k p g = Some (- ENOMEM, ?sl\<lparr>sl_brk := b\<rparr>)"
    using rb_insert_new_search [OF r k lvl_def, of api p g] b(2) by auto
  moreover have "sl_abs (?sl\<lparr>sl_brk := b\<rparr>) = sl_abs sl"
    using sl_abs_rep [OF s] sl_abs_rep [OF s'] by simp
  ultimately show ?thesis by (intro exI [of _ "?sl\<lparr>sl_brk := b\<rparr>"]) simp
qed

section \<open>Removal\<close>

lemma filter_remove1_not: "\<not> Q y \<Longrightarrow> filter Q (remove1 y xs) = filter Q xs"
  by (induction xs) auto

lemma rb_remove_hit:
  assumes r: "rb_rep sl hdr as" and nt: "k \<notin> tree_keys sl"
    and y: "y \<in> set as" and k: "key_of (sl_nodes sl) y = k"
  shows "\<exists>sl'. pid_rb_skiplist_remove api sl k = Some sl' \<and> rb_rep sl' hdr (remove1 y as) \<and>
     sl_abs sl' = (sl_abs sl)(k := None) \<and> sl_rcu sl' = y # sl_rcu sl \<and>
     top_rb_root sl' = top_rb_root sl"
proof -
  have s: "sl_rep sl hdr as" and hd: "sl_header sl = Some hdr" and d: "distinct as"
    and t: "inorder (top_rb_root sl) = filter (\<lambda>a. height (sl_nodes sl) a = PID_SL_MAX_LEVEL) as"
    using r by (auto simp: rb_rep_def sl_rep_def)
  obtain x0 where x0: "rb_find_le sl k = Some x0" "start_ok (sl_nodes sl) hdr as k (sl_level sl) x0"
    using rb_find_le_start [OF r nt] by blast
  obtain u where u: "sl_search (sl_nodes sl) k (sl_level sl) x0 update_init
      = Some (pred_at (sl_nodes sl) hdr as k 0, u)" "upd_ok (sl_nodes sl) hdr as k (sl_level sl) u"
    using sl_search_ok [OF s x0(2)] by blast
  have succ: "succ_of (sl_nodes sl) as k = Some y" using succ_of_hit [OF rep_sorted [OF s] y k] .
  have hit: "key_is (sl_nodes sl) (Some y) k = Some True"
    using key_is_ok [OF s, of k] y k succ by auto
  have ht: "height (sl_nodes sl) y \<noteq> PID_SL_MAX_LEVEL"
    using nt y k rb_rep_tree(1) [OF r] by (auto simp: tree_keys_def)
  obtain n where n: "sl_nodes sl y = Some n" using rep_live [OF heap_rep_rep [OF s]] y by auto
  have "\<not> in_tree (sl_nodes sl) y" using r y ht unfolding rb_rep_def by blast
  then have nf: "\<not> in_rb_tree n" using n by (simp add: in_tree_def)
  obtain h' l' where h': "sl_unlink (sl_nodes sl) u y 0 (sl_level sl) = Some h'"
     "sl_trim h' hdr (sl_level sl) = Some l'"
     "sl_rep (sl\<lparr>sl_nodes := h', sl_level := l', sl_rcu := y # sl_rcu sl\<rparr>) hdr (remove1 y as)"
     "node_map h' (remove1 y as) = (node_map (sl_nodes sl) as)(k := None)"
     "core h' = core (sl_nodes sl)" "height h' = height (sl_nodes sl)"
    using rep_unlink [OF s y, of u] u(2) k by blast
  let ?sl = "sl\<lparr>sl_nodes := h', sl_level := l', sl_rcu := y # sl_rcu sl\<rparr>"
  have "pid_rb_skiplist_remove api sl k = Some ?sl"
    using hd x0(1) u(1) rd_pred_ok [OF s, of k] succ hit n nf h'(1,2)
    by (simp add: pid_rb_skiplist_remove_def)
  moreover have "rb_rep ?sl hdr (remove1 y as)"
  proof -
    have "inorder (top_rb_root ?sl) = filter (\<lambda>a. height (sl_nodes ?sl) a = PID_SL_MAX_LEVEL) (remove1 y as)"
      using t ht by (simp add: h'(6) filter_remove1_not)
    moreover have "\<forall>a \<in> set (remove1 y as). in_tree (sl_nodes ?sl) a \<longleftrightarrow> height (sl_nodes ?sl) a = PID_SL_MAX_LEVEL"
      using r set_remove1_subset [of y as] unfolding rb_rep_def by (simp add: in_tree_core [OF h'(5)] h'(6)) blast
    ultimately show ?thesis using h'(3) by (simp only: rb_rep_def simp_thms)
  qed
  ultimately show ?thesis using h'(4) sl_abs_rep [OF s] sl_abs_rep [OF h'(3)] by simp
qed

lemma rb_remove_miss:
  assumes r: "rb_rep sl hdr as" and k: "k \<notin> key_of (sl_nodes sl) ` set as"
  shows "pid_rb_skiplist_remove api sl k = Some sl"
proof -
  have s: "sl_rep sl hdr as" and hd: "sl_header sl = Some hdr" using r by (auto simp: rb_rep_def sl_rep_def)
  have "k \<notin> tree_keys sl" using k rb_rep_tree(1) [OF r] by (auto simp: tree_keys_def)
  then obtain x0 where x0: "rb_find_le sl k = Some x0" "start_ok (sl_nodes sl) hdr as k (sl_level sl) x0"
    using rb_find_le_start [OF r] by blast
  with sl_search_ok [OF s x0(2)] rd_pred_ok [OF s, of k] key_is_ok [OF s, of k] k hd show ?thesis
    by (auto simp: pid_rb_skiplist_remove_def)
qed

section \<open>Keys held by the tree\<close>

text \<open>From a node that holds the key itself every level stays where it is.\<close>

lemma next_above:
  assumes rep: "heap_rep h hdr as" and y: "y \<in> set as" and i: "i < height h y" "i < PID_SL_MAX_LEVEL"
  shows "\<exists>nx. rd_fwd h y i = Some nx \<and> (case nx of None \<Rightarrow> True
     | Some z \<Rightarrow> z \<in> set as \<and> h z \<noteq> None \<and> key_of h y < key_of h z)"
proof -
  have "y \<in> set (tall h i as)" using y i by (simp add: tall_def)
  then obtain us vs where t: "tall h i as = us @ y # vs" by (auto dest: split_list)
  have "chain h i hdr (us @ y # vs) None" using rep i(2) t [symmetric] by (simp add: heap_rep_def)
  then have ch: "chain h i y vs None" by (simp add: chain_append)
  show ?thesis
  proof (cases vs)
    case Nil
    with ch show ?thesis by simp
  next
    case (Cons z zs)
    then have "z \<in> set as" using t by (metis filter_is_subset in_set_conv_decomp list.set_intros(1,2) subsetD tall_def Un_iff set_append)
    moreover have "key_of h y < key_of h z"
      using tall_sorted [OF rep, of i] t Cons by (simp add: sorted_wrt_append)
    ultimately show ?thesis using ch Cons rep_live [OF rep, of z] by auto
  qed
qed

lemma search_stays:
  assumes rep: "heap_rep h hdr as" and y: "y \<in> set as" and l: "l \<le> height h y" "l \<le> PID_SL_MAX_LEVEL"
  shows "sl_seek h (key_of h y) l y = Some y"
    and "\<exists>u'. sl_search h (key_of h y) l y update_init = Some (y, u')"
proof -
  have walk: "sl_walk h (key_of h y) i y = Some y" if "i < l" for i
    using next_above [OF rep y, of i] that l
    by (subst sl_walk.simps) (auto simp: key_of_def split: option.splits)
  then show seek: "sl_seek h (key_of h y) l y = Some y" by (induction l) auto
  show "\<exists>u'. sl_search h (key_of h y) l y update_init = Some (y, u')"
  proof -
    have "map_option fst (sl_search h (key_of h y) l y update_init) = Some y"
      using sl_seek_search [of l update_init h "key_of h y" y] seek l(2) by (simp add: update_init_def)
    then show ?thesis by (cases "sl_search h (key_of h y) l y update_init") auto
  qed
qed

text \<open>
  So a number whose node is in the tree is invisible: the search ends at its node and looks at the
  successor.
\<close>

lemma rb_tree_key_invisible:
  assumes r: "rb_rep sl hdr as" and k: "k \<in> tree_keys sl"
  shows "pid_rb_skiplist_lookup_rcu sl k = Some None" and "pid_rb_skiplist_remove api sl k = Some sl"
    and "pid_rb_skiplist_find_ge_rcu sl k = Some (idx_find_ge (sl_abs sl) (k + 1))"
proof -
  have s: "sl_rep sl hdr as" and hd: "sl_header sl = Some hdr"
    and lev: "sl_level sl \<le> PID_SL_MAX_LEVEL" "0 < sl_level sl"
    using r by (auto simp: rb_rep_def sl_rep_def)
  note rep = heap_rep_rep [OF s]
  obtain y where y: "y \<in> set as" "height (sl_nodes sl) y = PID_SL_MAX_LEVEL"
      "key_of (sl_nodes sl) y = k" "rb_find_le sl k = Some y"
    using k rb_rep_tree(1) [OF r] rb_find_le_hit [OF r] by (auto simp: tree_keys_def)
  have l: "sl_level sl \<le> height (sl_nodes sl) y" using y(2) lev by simp
  obtain nx where nx: "rd_fwd (sl_nodes sl) y 0 = Some nx" "case nx of None \<Rightarrow> True
     | Some z \<Rightarrow> z \<in> set as \<and> sl_nodes sl z \<noteq> None \<and> k < key_of (sl_nodes sl) z"
    using next_above [OF rep y(1), of 0] y(2,3) by (auto simp: PID_SL_MAX_LEVEL_def)
  have miss: "key_is (sl_nodes sl) nx k = Some False"
    using nx(2) by (auto simp: key_is_def key_of_def split: option.splits)
  note st = search_stays [OF rep y(1) l lev(1), unfolded y(3)]
  show "pid_rb_skiplist_lookup_rcu sl k = Some None"
    using hd y(4) st(1) nx(1) miss by (simp add: pid_rb_skiplist_lookup_rcu_def)
  show "pid_rb_skiplist_remove api sl k = Some sl"
    using hd y(4) st(2) nx(1) miss by (auto simp: pid_rb_skiplist_remove_def)
  obtain us vs where as: "as = us @ y # vs" using y(1) by (auto dest: split_list)
  have "filter (\<lambda>a. key_of (sl_nodes sl) a < k + 1) vs = []"
    using rep_sorted [OF s] as y(3) by (auto simp: filter_empty_conv sorted_wrt_append)
  then have "pred_at (sl_nodes sl) hdr as (k + 1) 0 = y"
    using y(3) unfolding pred_at_def tall_0 [OF rep] by (simp add: as)
  then show "pid_rb_skiplist_find_ge_rcu sl k = Some (idx_find_ge (sl_abs sl) (k + 1))"
    using hd y(4) st(1) find_ge_tail [OF s, of "k + 1"] by (simp add: pid_rb_skiplist_find_ge_rcu_def)
qed

section \<open>Freeing the list\<close>

lemma rb_free_chain_ok:
  assumes "rb_api_ok api" and "chain (sl_nodes sl) 0 b xs None" and "distinct (b # xs)"
    and "distinct (inorder (top_rb_root sl))"
  shows "\<exists>sl'. rb_free_chain api sl (Some b) = Some sl' \<and> sl_nodes sl' = sl_nodes sl |` (- set (b # xs)) \<and>
     inorder (top_rb_root sl') = filter (\<lambda>a. \<not> (a \<in> set (b # xs) \<and> in_tree (sl_nodes sl) a))
       (inorder (top_rb_root sl)) \<and> sl_rcu sl' = sl_rcu sl"
  using assms(2-4)
proof (induction xs arbitrary: b sl)
  case Nil
  then obtain n where n: "sl_nodes sl b = Some n" by (auto simp: rd_fwd_def split: option.splits)
  with Nil assms(1) show ?case
    by (subst rb_free_chain.simps, simp, subst rb_free_chain.simps)
      (auto simp: rb_free_node_def kfree_node_def in_tree_def restrict_map_def rb_api_ok_def
        distinct_remove1_removeAll removeAll_filter_not_eq fun_eq_iff intro!: filter_cong)
next
  case (Cons c xs)
  then obtain n where n: "sl_nodes sl b = Some n" by (auto simp: rd_fwd_def split: option.splits)
  define sl1 where "sl1 = (if in_rb_tree n then sl\<lparr>top_rb_root := rb_erase api b (top_rb_root sl)\<rparr> else sl)
    \<lparr>sl_nodes := (sl_nodes sl)(b := None)\<rparr>"
  have f: "rb_free_node api sl b = Some sl1"
    using n by (simp add: rb_free_node_def kfree_node_def sl1_def)
  have sl1: "sl_nodes sl1 = (sl_nodes sl)(b := None)" "sl_rcu sl1 = sl_rcu sl"
     "inorder (top_rb_root sl1) = filter (\<lambda>a. \<not> (a = b \<and> in_tree (sl_nodes sl) b)) (inorder (top_rb_root sl))"
    using assms(1) Cons.prems(3) n
    by (auto simp: sl1_def rb_api_ok_def in_tree_def distinct_remove1_removeAll
        removeAll_filter_not_eq intro!: filter_cong)
  have "chain (sl_nodes sl1) 0 c xs None = chain (sl_nodes sl) 0 c xs None"
    using Cons.prems(2) by (intro chain_cong) (auto simp: rd_fwd_def sl1)
  then have "\<exists>sl'. rb_free_chain api sl1 (Some c) = Some sl' \<and>
     sl_nodes sl' = sl_nodes sl1 |` (- set (c # xs)) \<and>
     inorder (top_rb_root sl') = filter (\<lambda>a. \<not> (a \<in> set (c # xs) \<and> in_tree (sl_nodes sl1) a))
       (inorder (top_rb_root sl1)) \<and> sl_rcu sl' = sl_rcu sl1"
    using Cons.prems by (intro Cons.IH) (auto simp: sl1(3))
  moreover have "sl_nodes sl1 |` (- set (c # xs)) = sl_nodes sl |` (- set (b # c # xs))"
    by (auto simp: restrict_map_def sl1)
  moreover have "filter (\<lambda>a. \<not> (a \<in> set (c # xs) \<and> in_tree (sl_nodes sl1) a)) (inorder (top_rb_root sl1))
     = filter (\<lambda>a. \<not> (a \<in> set (b # c # xs) \<and> in_tree (sl_nodes sl) a)) (inorder (top_rb_root sl))"
    using Cons.prems(2) by (auto simp: sl1 in_tree_def intro!: filter_cong)
  moreover have "rb_free_chain api sl (Some b) = rb_free_chain api sl1 (Some c)"
    using Cons.prems(1) f by (subst rb_free_chain.simps) simp
  ultimately show ?case by (simp only: sl1(2))
qed

lemma rb_free_chain_rep:
  assumes api: "rb_api_ok api" and r: "rb_rep sl hdr as"
  shows "\<exists>nx sl'. rd_fwd (sl_nodes sl) hdr 0 = Some nx \<and> rb_free_chain api sl nx = Some sl' \<and>
     sl_nodes sl' = sl_nodes sl |` (- set as) \<and> top_rb_root sl' = Leaf \<and> sl_rcu sl' = sl_rcu sl"
proof -
  have s: "sl_rep sl hdr as" and d: "distinct as" using r by (auto simp: rb_rep_def sl_rep_def)
  have t: "\<forall>a \<in> set (inorder (top_rb_root sl)). a \<in> set as \<and> in_tree (sl_nodes sl) a"
    using r unfolding rb_rep_def by auto
  show ?thesis
  proof (cases as)
    case Nil
    with t have "top_rb_root sl = Leaf" by (cases "top_rb_root sl") auto
    with Nil rep_chain_0 [OF s] show ?thesis
      by (simp add: rb_free_chain.simps restrict_map_def)
  next
    case (Cons b xs)
    obtain sl' where sl': "rb_free_chain api sl (Some b) = Some sl'"
       "sl_nodes sl' = sl_nodes sl |` (- set as)" "sl_rcu sl' = sl_rcu sl"
       "inorder (top_rb_root sl') = filter (\<lambda>a. \<not> (a \<in> set as \<and> in_tree (sl_nodes sl) a)) (inorder (top_rb_root sl))"
      using rb_free_chain_ok [OF api, of sl b xs] rep_chain_0 [OF s] rb_rep_tree(4) [OF r] d Cons by auto
    have "inorder (top_rb_root sl') = []" unfolding sl'(4) using t by (simp add: filter_empty_conv)
    then have "top_rb_root sl' = Leaf" by (cases "top_rb_root sl'") auto
    with sl' rep_chain_0 [OF s] Cons show ?thesis by simp
  qed
qed

section \<open>The provider of the interface\<close>

definition rb_skiplist_ops :: "rb_api \<Rightarrow> pid_rb_skiplist index_ops" where
  "rb_skiplist_ops api = \<lparr>op_init = pid_rb_skiplist_init, op_destroy = pid_rb_skiplist_destroy api,
     op_insert = pid_rb_skiplist_insert api, op_lookup = pid_rb_skiplist_lookup_rcu,
     op_remove = pid_rb_skiplist_remove api, op_iter_next = pid_rb_skiplist_iter_next_rcu,
     op_find_ge = pid_rb_skiplist_find_ge_rcu, op_header = sl_header\<rparr>"

lemma rb_iter_rep:
  assumes r: "rb_rep sl hdr as" and k: "k \<notin> tree_keys sl"
  shows "iter_collect (rb_skiplist_ops api) sl None k = Some (idx_iter (sl_abs sl) k)"
proof -
  have s: "sl_rep sl hdr as" and hd: "sl_header sl = Some hdr" using r by (auto simp: rb_rep_def sl_rep_def)
  obtain x where x: "rb_find_le sl k = Some x" "start_ok (sl_nodes sl) hdr as k (sl_level sl) x"
    using rb_find_le_start [OF r k] by blast
  show ?thesis
    using hd x sl_seek_ok [OF s x(2)]
    by (intro iter_collect_rep [OF s])
      (simp_all add: iter_steps_ok_def rb_skiplist_ops_def pid_rb_skiplist_iter_next_rcu_def)
qed

lemma rb_insert_cases:
  assumes "rb_inv sl" and "k \<notin> tree_keys sl" and api: "prandom_u32 d = 0 \<Longrightarrow> rb_api_ok api"
  shows "\<exists>sl'. pid_rb_skiplist_insert api d sl k p g
       = Some (if k \<in> dom (sl_abs sl) \<or> node_alloc_ok d g then 0 else - ENOMEM, sl') \<and>
     rb_inv sl' \<and> sl_rcu sl' = sl_rcu sl \<and>
     sl_abs sl' = (if k \<in> dom (sl_abs sl) \<or> node_alloc_ok d g then (sl_abs sl)(k \<mapsto> p) else sl_abs sl) \<and>
     (prandom_u32 d \<noteq> 0 \<longrightarrow> top_rb_root sl' = top_rb_root sl)"
proof -
  obtain hdr as where r: "rb_rep sl hdr as" and a: "sl_abs sl = node_map (sl_nodes sl) as"
    using assms(1) by (rule rb_invE)
  have d: "k \<in> dom (sl_abs sl) \<longleftrightarrow> k \<in> key_of (sl_nodes sl) ` set as"
    by (simp add: a dom_node_map)
  show ?thesis
  proof (cases "k \<in> key_of (sl_nodes sl) ` set as")
    case True
    then obtain y where "y \<in> set as" "key_of (sl_nodes sl) y = k" by auto
    from rb_insert_hit [OF r assms(2) this, of api d p g] True d show ?thesis unfolding rb_inv_def by auto
  next
    case False
    with rb_insert_new [OF api r False, of d g p] rb_insert_nomem [OF r False, of d g api p] d
    show ?thesis unfolding rb_inv_def by (cases "node_alloc_ok d g") auto
  qed
qed

lemma rb_remove_cases:
  assumes "rb_inv sl" and "k \<notin> tree_keys sl"
  shows "\<exists>sl'. pid_rb_skiplist_remove api sl k = Some sl' \<and> rb_inv sl' \<and>
     sl_abs sl' = (sl_abs sl)(k := None) \<and> top_rb_root sl' = top_rb_root sl"
proof -
  obtain hdr as where r: "rb_rep sl hdr as" and a: "sl_abs sl = node_map (sl_nodes sl) as"
    using assms(1) by (rule rb_invE)
  show ?thesis
  proof (cases "k \<in> key_of (sl_nodes sl) ` set as")
    case True
    then obtain y where "y \<in> set as" "key_of (sl_nodes sl) y = k" by auto
    from rb_remove_hit [OF r assms(2) this, of api] show ?thesis unfolding rb_inv_def by auto
  next
    case False
    then have "(sl_abs sl)(k := None) = sl_abs sl" by (auto simp: a node_map_None [symmetric])
    with rb_remove_miss [OF r False] assms(1) show ?thesis by auto
  qed
qed

text \<open>
  With an empty tree no key is held by it, and it stays empty as long as the random number of an
  insertion is not zero: under that condition the variant provides the interface.
\<close>

definition rb_flat :: "pid_rb_skiplist \<Rightarrow> bool" where
  "rb_flat sl \<longleftrightarrow> rb_inv sl \<and> top_rb_root sl = Leaf"

lemma rb_flat_keys: "rb_flat sl \<Longrightarrow> k \<notin> tree_keys sl"
  by (simp add: rb_flat_def tree_keys_def)

interpretation rbskip: pid_index "rb_skiplist_ops api" rb_flat sl_abs "\<lambda>d. prandom_u32 d \<noteq> 0" for api
proof
  fix sl :: pid_rb_skiplist and k :: int
  assume flat: "rb_flat sl"
  then obtain hdr as where r: "rb_rep sl hdr as" and a: "sl_abs sl = node_map (sl_nodes sl) as"
    unfolding rb_flat_def by (blast elim: rb_invE)
  note nk = rb_flat_keys [OF flat]
  show "op_header (rb_skiplist_ops api) sl \<noteq> None" using r by (simp add: rb_skiplist_ops_def rb_rep_def sl_rep_def)
  show "finite (dom (sl_abs sl))" by (simp add: a dom_node_map)
  show "op_lookup (rb_skiplist_ops api) sl k = Some (idx_get (sl_abs sl) k)"
    by (simp add: rb_skiplist_ops_def rb_lookup_rep [OF r nk])
  show "\<exists>sl'. op_remove (rb_skiplist_ops api) sl k = Some sl' \<and> rb_flat sl' \<and> sl_abs sl' = (sl_abs sl)(k := None)"
    using rb_remove_cases [OF _ nk, of api] flat by (fastforce simp: rb_skiplist_ops_def rb_flat_def)
  show "op_find_ge (rb_skiplist_ops api) sl k = Some (idx_find_ge (sl_abs sl) k)"
    by (simp add: rb_skiplist_ops_def rb_find_ge_rep [OF r nk])
  show "iter_collect (rb_skiplist_ops api) sl None k = Some (idx_iter (sl_abs sl) k)"
    by (rule rb_iter_rep [OF r nk])
next
  fix sl :: pid_rb_skiplist and k p g and d :: draw
  assume "rb_flat sl" "prandom_u32 d \<noteq> 0"
  with rb_insert_cases [OF _ rb_flat_keys, of sl d api k p g]
  show "\<exists>r sl'. op_insert (rb_skiplist_ops api) d sl k p g = Some (r, sl') \<and> rb_flat sl' \<and>
        (r = 0 \<and> sl_abs sl' = (sl_abs sl)(k \<mapsto> p)
         \<or> r = - ENOMEM \<and> k \<notin> dom (sl_abs sl) \<and> sl_abs sl' = sl_abs sl)"
    by (auto simp: rb_skiplist_ops_def rb_flat_def split: if_splits)
next
  fix sl :: pid_rb_skiplist and k p g r sl' and d :: draw
  assume "rb_flat sl" "prandom_u32 d \<noteq> 0" "\<And>g. kzalloc_ok d g \<and> kcalloc_ok d g"
    "op_insert (rb_skiplist_ops api) d sl k p g = Some (r, sl')"
  with rb_insert_cases [OF _ rb_flat_keys, of sl d api k p g] show "r = 0"
    by (auto simp: rb_skiplist_ops_def rb_flat_def node_alloc_ok_def)
qed

end
