(* ===== verification/Index_Life.thy ===== *)
theory Index_Life
  imports Pid_Rb_Correct
begin

text \<open>
  The rest of the interface between the namespaces and their index: the index of a new namespace is
  initialised from zeroed memory, and that of a dying one is destroyed.  Both structures provide it.
\<close>

section \<open>The contract\<close>

locale pid_index_life = pid_index +
  fixes zero :: 'a
  assumes init: "nofail_promise d \<Longrightarrow> \<exists>s. op_init ops d g zero = Some s \<and> inv s \<and> abs s = Map.empty"
    and destroy: "inv s \<Longrightarrow> \<exists>s'. op_destroy ops s = Some s'"

section \<open>The skip list\<close>

definition zero_sl :: pid_skiplist where
  "zero_sl = \<lparr>sl_level = 0, sl_header = None, sl_nodes = Map.empty, sl_brk = 0, sl_rcu = []\<rparr>"

lemma init_abs:
  assumes "nofail_promise d" and "sl_nodes sl = Map.empty" and "sl_rcu sl = []"
  shows "\<exists>sl'. pid_skiplist_init d g sl = Some sl' \<and> sl_inv sl' \<and> sl_abs sl' = Map.empty"
proof -
  obtain sl' where sl': "pid_skiplist_init d g sl = Some sl'" "sl_rep sl' (sl_brk sl) []"
    using pid_skiplist_init_rep [OF assms] by blast
  then show ?thesis using sl_abs_rep [OF sl'(2)] by (auto simp: sl_inv_def node_map_def)
qed

lemma destroy_rep:
  assumes r: "sl_rep sl hdr as"
  shows "pid_skiplist_destroy sl = Some (sl\<lparr>sl_nodes := (sl_nodes sl |` (- set as))(hdr := None)\<rparr>)"
proof -
  let ?h = "sl_nodes sl |` (- set as)"
  obtain nx where nx: "rd_fwd (sl_nodes sl) hdr 0 = Some nx" "sl_free_chain (sl_nodes sl) nx = Some ?h"
    using rep_free_chain [OF r] by blast
  have hd: "sl_header sl = Some hdr" and d: "distinct (hdr # as)" and dom: "hdr \<in> dom (sl_nodes sl)"
    using r by (auto simp: sl_rep_def)
  then obtain n where "?h hdr = Some n" by (auto simp: restrict_map_def)
  then show ?thesis using nx hd by (simp add: pid_skiplist_destroy_def kfree_node_def)
qed

interpretation skiplife: pid_index_life skiplist_ops sl_inv sl_abs "\<lambda>_. True" zero_sl
proof
  fix d g assume "nofail_promise d"
  then show "\<exists>s. op_init skiplist_ops d g zero_sl = Some s \<and> sl_inv s \<and> sl_abs s = Map.empty"
    using init_abs [of d zero_sl g] by (simp add: skiplist_ops_def zero_sl_def)
next
  fix sl :: pid_skiplist assume "sl_inv sl"
  then obtain hdr as where "sl_rep sl hdr as" by (auto simp: sl_inv_def)
  from destroy_rep [OF this] show "\<exists>s'. op_destroy skiplist_ops sl = Some s'" by (simp add: skiplist_ops_def)
qed

section \<open>The skip list with the tree\<close>

definition zero_rb :: pid_rb_skiplist where
  "zero_rb = \<lparr>sl_level = 0, sl_header = None, sl_nodes = Map.empty, sl_brk = 0, sl_rcu = [],
     top_rb_root = Leaf\<rparr>"

lemma rb_init_abs:
  assumes "nofail_promise d" and "sl_nodes sl = Map.empty" and "sl_rcu sl = []"
  shows "\<exists>sl'. pid_rb_skiplist_init d g sl = Some sl' \<and> rb_flat sl' \<and> sl_abs sl' = Map.empty"
proof -
  obtain sl' where sl': "pid_rb_skiplist_init d g sl = Some sl'" "rb_rep sl' (sl_brk sl) []"
      "top_rb_root sl' = Leaf"
    using pid_rb_skiplist_init_rep [OF assms] by blast
  then have "sl_rep sl' (sl_brk sl) []" by (simp add: rb_rep_def)
  from sl_abs_rep [OF this] sl' show ?thesis by (auto simp: rb_flat_def rb_inv_def node_map_def)
qed

text \<open>Freeing the nodes does not depend on what the tree functions do.\<close>

lemma rb_free_chain_total:
  assumes "chain (sl_nodes sl) 0 b xs None" and "distinct (b # xs)"
  shows "\<exists>sl'. rb_free_chain api sl (Some b) = Some sl' \<and> sl_nodes sl' = sl_nodes sl |` (- set (b # xs))"
  using assms
proof (induction xs arbitrary: b sl)
  case Nil
  then obtain n where n: "sl_nodes sl b = Some n" by (auto simp: rd_fwd_def split: option.splits)
  with Nil show ?case
    by (subst rb_free_chain.simps, simp, subst rb_free_chain.simps)
      (auto simp: rb_free_node_def kfree_node_def restrict_map_def fun_eq_iff)
next
  case (Cons c xs)
  then obtain n where n: "sl_nodes sl b = Some n" by (auto simp: rd_fwd_def split: option.splits)
  then obtain sl1 where f: "rb_free_node api sl b = Some sl1" "sl_nodes sl1 = (sl_nodes sl)(b := None)"
    by (cases "in_rb_tree n") (simp_all add: rb_free_node_def kfree_node_def Let_def)
  have "chain (sl_nodes sl1) 0 c xs None = chain (sl_nodes sl) 0 c xs None"
    using Cons.prems(2) by (intro chain_cong) (auto simp: rd_fwd_def f)
  then obtain sl' where sl': "rb_free_chain api sl1 (Some c) = Some sl'"
     "sl_nodes sl' = sl_nodes sl1 |` (- set (c # xs))"
    using Cons.IH [of sl1 c] Cons.prems by auto
  have "sl_nodes sl1 |` (- set (c # xs)) = sl_nodes sl |` (- set (b # c # xs))"
    by (auto simp: restrict_map_def f)
  moreover have "rb_free_chain api sl (Some b) = rb_free_chain api sl1 (Some c)"
    using Cons.prems(1) f(1) by (subst rb_free_chain.simps) simp
  ultimately show ?case using sl' by simp
qed

lemma rb_destroy_total:
  assumes s: "sl_rep sl hdr as"
  shows "\<exists>sl'. pid_rb_skiplist_destroy api sl = Some sl'"
proof -
  have hd: "sl_header sl = Some hdr" and d: "distinct (hdr # as)" and dom: "hdr \<in> dom (sl_nodes sl)"
    using s by (auto simp: sl_rep_def)
  have "\<exists>nx sl1. rd_fwd (sl_nodes sl) hdr 0 = Some nx \<and> rb_free_chain api sl nx = Some sl1 \<and> hdr \<in> dom (sl_nodes sl1)"
  proof (cases as)
    case Nil
    with rep_chain_0 [OF s] dom show ?thesis by (simp add: rb_free_chain.simps)
  next
    case (Cons b xs)
    with rb_free_chain_total [of sl b xs api] rep_chain_0 [OF s] d dom show ?thesis by (auto simp: restrict_map_def)
  qed
  then obtain nx sl1 n where "rd_fwd (sl_nodes sl) hdr 0 = Some nx" "rb_free_chain api sl nx = Some sl1"
    "sl_nodes sl1 hdr = Some n" by auto
  with hd show ?thesis by (simp add: pid_rb_skiplist_destroy_def kfree_node_def)
qed

interpretation rblife: pid_index_life "rb_skiplist_ops api" rb_flat sl_abs "\<lambda>d. prandom_u32 d \<noteq> 0" zero_rb for api
proof
  fix d g assume "nofail_promise d"
  then show "\<exists>s. op_init (rb_skiplist_ops api) d g zero_rb = Some s \<and> rb_flat s \<and> sl_abs s = Map.empty"
    using rb_init_abs [of d zero_rb g] by (simp add: rb_skiplist_ops_def zero_rb_def)
next
  fix sl :: pid_rb_skiplist assume "rb_flat sl"
  then obtain hdr as where "sl_rep sl hdr as" by (auto simp: rb_flat_def elim: rb_invE)
  from rb_destroy_total [OF this] show "\<exists>s'. op_destroy (rb_skiplist_ops api) sl = Some s'"
    by (simp add: rb_skiplist_ops_def)
qed

end
