(* ===== verification/Pid_Ns_Correct.thy ===== *)
theory Pid_Ns_Correct
  imports Pid_Free_Correct Pid_Namespace Index_Life
begin

text \<open>
  Reference counting of the namespace hierarchy: the last reference to a namespace destroys it and
  then drops the reference to the parent.  The loop ends, never touches a destroyed namespace, and
  destroys no namespace that somebody refers to.
\<close>

section \<open>References\<close>

definition ns_children :: "'sl kernel \<Rightarrow> nsaddr \<Rightarrow> nsaddr set" where
  "ns_children k b = {a. \<exists>n. live k a n \<and> ns_parent n = Some b}"

text \<open>Only the initial namespace has no parent.\<close>

definition ns_root :: "'sl kernel \<Rightarrow> bool" where
  "ns_root k \<longleftrightarrow> (\<forall>a n. live k a n \<longrightarrow> (ns_parent n = None \<longleftrightarrow> a = init_pid_ns))"

text \<open>
  Each child refers to its parent; \<open>h\<close> counts the references that are held by others: pids, namespace
  proxies, open files, callers.
\<close>

definition ns_refs :: "(nsaddr \<Rightarrow> nat) \<Rightarrow> 'sl kernel \<Rightarrow> bool" where
  "ns_refs h k \<longleftrightarrow> (\<forall>a n. live k a n \<longrightarrow> a \<noteq> init_pid_ns \<longrightarrow> card (ns_children k a) + h a \<le> kref n)"

definition ns_ok :: "('sl \<Rightarrow> bool) \<Rightarrow> (nsaddr \<Rightarrow> nat) \<Rightarrow> 'sl kernel \<Rightarrow> bool" where
  "ns_ok I h k \<longleftrightarrow> ns_wf I k \<and> ns_root k \<and> ns_bound k \<and> ns_refs h k"

lemma finite_children: "ns_bound k \<Longrightarrow> finite (ns_children k b)"
  by (rule finite_subset [of _ "{..< k_brk k}"]) (auto simp: ns_children_def ns_bound_def live_def)

lemma ns_refsD: "ns_ok I h k \<Longrightarrow> live k a n \<Longrightarrow> a \<noteq> init_pid_ns \<Longrightarrow> card (ns_children k a) + h a \<le> kref n"
  by (simp add: ns_ok_def ns_refs_def)

lemma ns_parentE:
  assumes "ns_wf I k" and "ns_root k" and "live k a n" and "a \<noteq> init_pid_ns"
  obtains b m where "ns_parent n = Some b" "live k b m" "ns_level n = Suc (ns_level m)"
proof -
  from assms(2-4) obtain b where b: "ns_parent n = Some b" by (auto simp: ns_root_def)
  have "case ns_parent n of None \<Rightarrow> ns_level n = 0 | Some b \<Rightarrow> \<exists>m. live k b m \<and> ns_level n = Suc (ns_level m)"
    using assms(1,3) by (simp add: ns_wf_def)
  with b that show ?thesis by auto
qed

text \<open>
  What dropping references has done: \<open>ds\<close> are the namespaces that were destroyed, each of which is
  queued once to be freed after a grace period; the others still have their index, level and parent.
\<close>

definition ns_dropped :: "'sl kernel \<Rightarrow> nsaddr list \<Rightarrow> 'sl kernel \<Rightarrow> bool" where
  "ns_dropped k ds k' \<longleftrightarrow> distinct ds \<and> k_rcu k' = k_rcu k @ map DelayedFreePidns ds \<and> k_pids k' = k_pids k \<and>
     k_brk k' = k_brk k \<and> dom (k_ns k') = dom (k_ns k) \<and>
     (\<forall>a \<in> set ds. (\<exists>n. live k a n) \<and> \<not> (\<exists>n'. live k' a n')) \<and>
     (\<forall>a n. live k a n \<longrightarrow> a \<notin> set ds \<longrightarrow> (\<exists>n'. live k' a n' \<and> pid_sl n' = pid_sl n \<and> ns_level n' = ns_level n \<and>
        ns_parent n' = ns_parent n)) \<and>
     (\<forall>a n'. live k' a n' \<longrightarrow> (\<exists>n. live k a n))"

lemma ns_dropped_refl: "ns_dropped k [] k"
  by (auto simp: ns_dropped_def)

text \<open>Dropping a reference that is not the last.\<close>

lemma ns_ok_kref:
  assumes ok: "ns_ok I h k" and n: "live k a n" and c: "0 < c"
    and h': "\<forall>b. b \<noteq> a \<longrightarrow> h' b \<le> h b" "a \<noteq> init_pid_ns \<Longrightarrow> card (ns_children k a) + h' a \<le> c"
  shows "ns_ok I h' (k\<lparr>k_ns := (k_ns k)(a \<mapsto> n\<lparr>kref := c\<rparr>)\<rparr>)"
    and "ns_dropped k [] (k\<lparr>k_ns := (k_ns k)(a \<mapsto> n\<lparr>kref := c\<rparr>)\<rparr>)"
proof -
  let ?k = "k\<lparr>k_ns := (k_ns k)(a \<mapsto> n\<lparr>kref := c\<rparr>)\<rparr>"
  have na: "k_ns k a = Some n" "0 < kref n" using n by (auto simp: live_def)
  have same: "ns_same k ?k" by (rule ns_same_kref [OF na c])
  have lv: "live ?k b m \<longleftrightarrow> (if b = a then m = n\<lparr>kref := c\<rparr> else live k b m)" for b m
    using c by (auto simp: live_def)
  have ch: "ns_children ?k b = ns_children k b" for b
    using n c by (auto simp: ns_children_def lv live_def split: if_splits)
  have wf: "ns_wf I ?k" using ok ns_same_wf [OF same] by (simp add: ns_ok_def)
  have root: "ns_root ?k" using ok n by (auto simp: ns_ok_def ns_root_def lv)
  have bound: "ns_bound ?k" using ok ns_bound_dom [of ?k k] na by (auto simp: ns_ok_def)
  have refs: "ns_refs h' ?k"
    unfolding ns_refs_def ch lv
  proof (intro allI impI)
    fix b m assume m: "if b = a then m = n\<lparr>kref := c\<rparr> else live k b m" "b \<noteq> init_pid_ns"
    show "card (ns_children k b) + h' b \<le> kref m"
    proof (cases "b = a")
      case False
      with m ok have "card (ns_children k b) + h b \<le> kref m" by (auto simp: ns_ok_def ns_refs_def)
      moreover have "h' b \<le> h b" using h'(1) False by simp
      ultimately show ?thesis by simp
    qed (use m h'(2) in auto)
  qed
  show "ns_ok I h' ?k" using wf root bound refs by (simp add: ns_ok_def)
  show "ns_dropped k [] ?k" using n na c by (auto simp: ns_dropped_def lv live_def)
qed

text \<open>Destroying a namespace without children: its reference to the parent is left over.\<close>

lemma ns_ok_dead:
  assumes ok: "ns_ok I h k" and n: "live k a n" "ns_parent n = Some b" and one: "kref n = 1" "0 < h a" "a \<noteq> init_pid_ns"
    and k1: "k_ns k1 = (k_ns k)(a \<mapsto> n1)" "kref n1 = 0" "k_brk k1 = k_brk k"
  shows "ns_ok I (h(a := h a - 1, b := Suc (h b))) k1" and "\<And>c m. live k1 c m \<longleftrightarrow> c \<noteq> a \<and> live k c m"
    and "h a = 1" and "a \<noteq> b"
proof -
  show lv: "live k1 c m \<longleftrightarrow> c \<noteq> a \<and> live k c m" for c m using k1 by (auto simp: live_def)
  have le: "card (ns_children k a) + h a \<le> 1" using ns_refsD [OF ok n(1) one(3)] one(1) by simp
  then show ha: "h a = 1" using one(2) by simp
  have fin: "finite (ns_children k a)" using ok by (simp add: ns_ok_def finite_children)
  have "card (ns_children k a) = 0" using le one(2) by linarith
  with fin have "ns_children k a = {}" by simp
  then have nochild: "ns_parent m \<noteq> Some a" if "live k c m" for c m using that by (auto simp: ns_children_def)
  show ab: "a \<noteq> b" using nochild n by blast
  have ch: "ns_children k1 c = ns_children k c - {a}" for c by (auto simp: ns_children_def lv)
  have "ns_wf I k1" unfolding ns_wf_def
  proof (intro allI impI)
    fix c m assume "live k1 c m"
    then have c: "c \<noteq> a" "live k c m" by (auto simp: lv)
    then have "I (pid_sl m) \<and> (case ns_parent m of None \<Rightarrow> ns_level m = 0
      | Some b \<Rightarrow> \<exists>m'. live k b m' \<and> ns_level m = Suc (ns_level m'))" using ok by (simp add: ns_ok_def ns_wf_def)
    with nochild [OF c(2)] show "I (pid_sl m) \<and> (case ns_parent m of None \<Rightarrow> ns_level m = 0
      | Some b \<Rightarrow> \<exists>m'. live k1 b m' \<and> ns_level m = Suc (ns_level m'))"
      by (auto simp: lv split: option.splits)
  qed
  moreover have "ns_root k1" using ok by (auto simp: ns_ok_def ns_root_def lv)
  moreover have "ns_bound k1" using ok n k1 by (intro ns_bound_dom [of k1 k]) (auto simp: ns_ok_def live_def)
  moreover have "ns_refs (h(a := h a - 1, b := Suc (h b))) k1"
    unfolding ns_refs_def lv ch
  proof (intro allI impI)
    fix c m assume c: "c \<noteq> a \<and> live k c m" "c \<noteq> init_pid_ns"
    then have le: "card (ns_children k c) + h c \<le> kref m" using ok by (auto simp: ns_ok_def ns_refs_def)
    show "card (ns_children k c - {a}) + (h(a := h a - 1, b := Suc (h b))) c \<le> kref m"
    proof (cases "c = b")
      case True
      have mem: "a \<in> ns_children k b" using n by (auto simp: ns_children_def)
      have fin: "finite (ns_children k b)" using finite_children ok by (auto simp: ns_ok_def)
      have "Suc (card (ns_children k b - {a})) = card (ns_children k b)" by (rule card_Suc_Diff1 [OF fin mem])
      with le True show ?thesis by simp
    next
      case False
      have "a \<notin> ns_children k c" using n False by (auto simp: ns_children_def live_def)
      with le False c show ?thesis by simp
    qed
  qed
  ultimately show "ns_ok I (h(a := h a - 1, b := Suc (h b))) k1" by (simp add: ns_ok_def)
qed

text \<open>The client that also creates and destroys indexes.\<close>

locale ns_kernel = pid_kernel + pid_index_life

context ns_kernel
begin

lemma kref_put_last:
  assumes "k_ns k a = Some n" and "kref n = 1" and "inv (pid_sl n)"
  shows "\<exists>k1 n1. kref_put ops a k = Some (True, k1) \<and> k_ns k1 = (k_ns k)(a \<mapsto> n1) \<and> kref n1 = 0 \<and>
     k_rcu k1 = k_rcu k @ [DelayedFreePidns a] \<and> k_pids k1 = k_pids k \<and> k_brk k1 = k_brk k"
proof -
  obtain sl' where "op_destroy ops (pid_sl n) = Some sl'" using destroy [OF assms(3)] by blast
  with assms show ?thesis
    by (auto simp: kref_put_def refcount_dec_def ns_upd_def free_pid_ns_def destroy_pid_namespace_def log_event_def
        call_rcu_def)
qed

theorem put_pid_ns_ok:
  assumes "ns_ok inv h k" and "live k a n" and "a = init_pid_ns \<or> 0 < h a"
  shows "\<exists>k' ds. put_pid_ns ops (Some a) k = Some k' \<and> ns_ok inv (h(a := h a - 1)) k' \<and> ns_dropped k ds k' \<and>
     (\<forall>b \<in> set ds. (h(a := h a - 1)) b = 0)"
  using assms
proof (induction "ns_level n" arbitrary: a n k h rule: less_induct)
  case less
  note ok = less.prems(1) and n = less.prems(2)
  have na: "k_ns k a = Some n" "0 < kref n" and inv: "inv (pid_sl n)"
    using n ok by (auto simp: live_def ns_ok_def ns_wf_def)
  show ?case
  proof (cases "a = init_pid_ns")
    case True
    have "ns_ok inv (h(a := h a - 1)) k" using ok True by (auto simp: ns_ok_def ns_refs_def)
    with True show ?thesis by (intro exI [of _ k] exI [of _ "[]"]) (simp add: put_pid_ns.simps ns_dropped_refl)
  next
    case False
    then have ha: "0 < h a" using less.prems(3) by simp
    obtain b m where b: "ns_parent n = Some b" "live k b m" "ns_level n = Suc (ns_level m)"
      using ok ns_parentE [OF _ _ n False] by (auto simp: ns_ok_def)
    have put: "put_pid_ns ops (Some a) k = (case kref_put ops a k of None \<Rightarrow> None
        | Some r \<Rightarrow> if \<not> fst r then Some (snd r) else put_pid_ns ops (ns_parent n) (snd r))"
      using False na by (subst put_pid_ns.simps) simp
    have le: "card (ns_children k a) + h a \<le> kref n" by (rule ns_refsD [OF ok n False])
    show ?thesis
    proof (cases "kref n = 1")
      case one: True
      obtain k1 n1 where k1: "kref_put ops a k = Some (True, k1)" "k_ns k1 = (k_ns k)(a \<mapsto> n1)" "kref n1 = 0"
         "k_rcu k1 = k_rcu k @ [DelayedFreePidns a]" "k_pids k1 = k_pids k" "k_brk k1 = k_brk k"
        using kref_put_last [OF na(1) one inv] by blast
      note dead = ns_ok_dead [OF ok n b(1) one ha False k1(2,3,6)]
      have b1: "live k1 b m" using b(2) dead(2,4) by simp
      have "ns_level m < ns_level n" using b(3) by simp
      from less.hyps [OF this dead(1) b1] obtain k' ds where
        k': "put_pid_ns ops (Some b) k1 = Some k'" "ns_ok inv (h(a := h a - 1)) k'" "ns_dropped k1 ds k'"
           "\<forall>c \<in> set ds. (h(a := h a - 1)) c = 0"
        using dead(4) by (auto simp: fun_upd_twist)
      have "ns_dropped k (a # ds) k'"
        using k'(3) k1(2,4,5,6) dead(2) n na(1) by (auto simp: ns_dropped_def)
      moreover have "\<forall>c \<in> set (a # ds). (h(a := h a - 1)) c = 0" using k'(4) dead(3) by auto
      moreover have "put_pid_ns ops (Some a) k = Some k'" using put k1(1) b(1) k'(1) by simp
      ultimately show ?thesis using k'(2) by blast
    next
      case more: False
      let ?k = "k\<lparr>k_ns := (k_ns k)(a \<mapsto> n\<lparr>kref := kref n - 1\<rparr>)\<rparr>"
      have "kref_put ops a k = Some (False, ?k)"
        using na more by (simp add: kref_put_def refcount_dec_def ns_upd_def)
      moreover have "ns_ok inv (h(a := h a - 1)) ?k" "ns_dropped k [] ?k"
        using ns_ok_kref [OF ok n, of "kref n - 1" "h(a := h a - 1)"] na(2) more le ha by auto
      ultimately show ?thesis using put by (intro exI [of _ ?k] exI [of _ "[]"]) simp
    qed
  qed
qed

end

section \<open>Creation of a namespace\<close>

text \<open>The state \<open>k'\<close> has the new namespace \<open>N\<close> at \<open>a\<close>, a child of that at \<open>b\<close>, which got a reference.\<close>

definition ns_added :: "'sl kernel \<Rightarrow> 'sl kernel \<Rightarrow> nsaddr \<Rightarrow> 'sl pid_namespace \<Rightarrow> nsaddr \<Rightarrow> 'sl pid_namespace \<Rightarrow> bool" where
  "ns_added k k' b pn a N \<longleftrightarrow> k_ns k a = None \<and> live k b pn \<and>
     k_ns k' = (if b = init_pid_ns then k_ns k else (k_ns k)(b \<mapsto> pn\<lparr>kref := Suc (kref pn)\<rparr>))(a \<mapsto> N) \<and>
     kref N = 1 \<and> ns_level N = Suc (ns_level pn) \<and> ns_parent N = Some b"

lemma ns_added_live:
  assumes "ns_added k k' b pn a N"
  shows "live k' a m \<longleftrightarrow> m = N"
    and "live k c m \<Longrightarrow> \<exists>m'. live k' c m' \<and> ns_level m' = ns_level m \<and> ns_parent m' = ns_parent m"
    and "live k' c m \<Longrightarrow> c \<noteq> a \<Longrightarrow> \<exists>m0. live k c m0 \<and> pid_sl m0 = pid_sl m \<and> ns_level m0 = ns_level m \<and> ns_parent m0 = ns_parent m \<and>
      kref m0 + (if c = b \<and> b \<noteq> init_pid_ns then 1 else 0) = kref m"
proof -
  have fresh: "k_ns k a = None" and b: "live k b pn" using assms by (auto simp: ns_added_def)
  have lv: "live k' c m \<longleftrightarrow> (if c = a then m = N else if c = b \<and> b \<noteq> init_pid_ns then m = pn\<lparr>kref := Suc (kref pn)\<rparr> else live k c m)" for c m
    using assms by (auto simp: ns_added_def live_def)
  then show "live k' a m \<longleftrightarrow> m = N" by simp
  show "\<exists>m'. live k' c m' \<and> ns_level m' = ns_level m \<and> ns_parent m' = ns_parent m" if "live k c m"
    using that fresh b by (cases "c = b \<and> b \<noteq> init_pid_ns"; cases "c = a") (auto simp: lv live_def [of k])
  show "\<exists>m0. live k c m0 \<and> pid_sl m0 = pid_sl m \<and> ns_level m0 = ns_level m \<and> ns_parent m0 = ns_parent m \<and>
      kref m0 + (if c = b \<and> b \<noteq> init_pid_ns then 1 else 0) = kref m" if "live k' c m" "c \<noteq> a"
    using that b by (auto simp: lv split: if_splits)
qed

lemma ns_added_children:
  assumes "ns_added k k' b pn a N"
  shows "ns_children k' c = (if c = b then insert a (ns_children k c) else ns_children k c)" and "a \<notin> ns_children k c"
proof -
  note l = ns_added_live [OF assms]
  have N: "ns_parent N = Some b" using assms by (simp add: ns_added_def)
  have e: "x \<in> ns_children k' c \<longleftrightarrow> (if x = a then c = b else x \<in> ns_children k c)" for x
    using l(3) [of x] l(2) [of x] l(1) N by (cases "x = a") (auto simp: ns_children_def, metis, metis)
  show na: "a \<notin> ns_children k c" using assms by (simp add: ns_children_def ns_added_def live_def)
  show "ns_children k' c = (if c = b then insert a (ns_children k c) else ns_children k c)"
    by (rule set_eqI, unfold e) (use na in \<open>simp split: if_splits\<close>)
qed

lemma ns_added_wf:
  assumes ad: "ns_added k k' b pn a N" and wf: "ns_wf I k" and N: "I (pid_sl N)"
  shows "ns_wf I k'"
proof -
  note l = ns_added_live [OF ad]
  have b: "\<exists>m. live k' b m \<and> ns_level m = ns_level pn" using l(2) [of b pn] ad by (auto simp: ns_added_def)
  have "I (pid_sl m) \<and> (case ns_parent m of None \<Rightarrow> ns_level m = 0
      | Some c \<Rightarrow> \<exists>m'. live k' c m' \<and> ns_level m = Suc (ns_level m'))" if m: "live k' c m" for c m
  proof (cases "c = a")
    case True
    then show ?thesis using m N b l(1) ad by (auto simp: ns_added_def)
  next
    case False
    from l(3) [OF m this] obtain m0 where m0: "live k c m0" "pid_sl m0 = pid_sl m" "ns_level m0 = ns_level m"
      "ns_parent m0 = ns_parent m" by blast
    have "I (pid_sl m0) \<and> (case ns_parent m0 of None \<Rightarrow> ns_level m0 = 0
      | Some d \<Rightarrow> \<exists>m'. live k d m' \<and> ns_level m0 = Suc (ns_level m'))" using wf m0(1) unfolding ns_wf_def by blast
    with m0 l(2) show ?thesis by (fastforce split: option.splits)
  qed
  then show ?thesis by (simp add: ns_wf_def)
qed

lemma ns_added_refs:
  assumes ad: "ns_added k k' b pn a N" and ok: "ns_ok I h k"
  shows "ns_refs (h(a := 1)) k'" unfolding ns_refs_def
proof (intro allI impI)
  note l = ns_added_live [OF ad] and ch = ns_added_children [OF ad]
  fix c m assume m: "live k' c m" "c \<noteq> init_pid_ns"
  show "card (ns_children k' c) + (h(a := 1)) c \<le> kref m"
  proof (cases "c = a")
    case True
    have "a \<noteq> b" "\<not> live k a n" for n using ad by (auto simp: ns_added_def live_def)
    moreover have "\<exists>m'. live k a m'" if "x \<in> ns_children k a" for x
      using that ok by (fastforce simp: ns_children_def ns_ok_def ns_wf_def)
    ultimately have "ns_children k' a = {}" using ch(1) [of a] by auto
    with True m l(1) ad show ?thesis by (simp add: ns_added_def)
  next
    case False
    from l(3) [OF m(1) False] obtain m0 where m0: "live k c m0"
      "kref m0 + (if c = b \<and> b \<noteq> init_pid_ns then 1 else 0) = kref m" by blast
    have "finite (ns_children k c)" using finite_children ok by (auto simp: ns_ok_def)
    then show ?thesis using ns_refsD [OF ok m0(1) m(2)] m0(2) False m(2) ch by auto
  qed
qed

lemma ns_ok_new:
  assumes ok: "ns_ok I h k" and b: "live k b pn" and a: "a = k_brk k"
    and k': "k_ns k' = (if b = init_pid_ns then k_ns k else (k_ns k)(b \<mapsto> pn\<lparr>kref := Suc (kref pn)\<rparr>))(a \<mapsto> N)"
      "k_brk k' = Suc (k_brk k)"
    and N: "kref N = 1" "I (pid_sl N)" "ns_level N = Suc (ns_level pn)" "ns_parent N = Some b"
  shows "ns_ok I (h(a := 1)) k'" and "a \<noteq> b" and "a \<noteq> init_pid_ns" and "k_ns k a = None"
proof -
  have bound: "c < a" if "k_ns k c = Some m" for c m using ok a that by (auto simp: ns_ok_def ns_bound_def)
  have nb: "k_ns k b = Some pn" using b by (simp add: live_def)
  show "a \<noteq> b" and fresh: "k_ns k a = None" using bound [OF nb] bound [of a] by (cases "k_ns k a"; auto)+
  show a0: "a \<noteq> init_pid_ns" using bound [OF nb] by (simp add: init_pid_ns_def)
  have ad: "ns_added k k' b pn a N" using fresh b k'(1) N by (simp add: ns_added_def)
  note l = ns_added_live [OF ad]
  have "(ns_parent m = None) = (c = init_pid_ns)" if m: "live k' c m" for c m
  proof (cases "c = a")
    case False
    from l(3) [OF m this] ok show ?thesis unfolding ns_ok_def ns_root_def by metis
  qed (use m l(1) N(4) a0 in auto)
  then have "ns_root k'" by (simp add: ns_root_def)
  moreover have "c < Suc (k_brk k)" if "k_ns k' c = Some m" for c m
  proof -
    have "c = a \<or> (\<exists>m0. k_ns k c = Some m0)" using that k'(1) nb by (auto split: if_splits)
    then show ?thesis using bound [of c] a by (auto intro: less_SucI)
  qed
  then have "ns_bound k'" by (simp add: ns_bound_def k'(2))
  ultimately show "ns_ok I (h(a := 1)) k'" using ns_added_wf [of k k' b pn a N I, OF ad _ N(2)] ns_added_refs [OF ad ok] ok by (simp add: ns_ok_def)
qed

text \<open>
  What a call of \<^verbatim>\<open>create_pid_namespace\<close> may return, and why.  The new namespace is empty, one level
  below its parent, open for pids, and has one reference; the parent has one more.
\<close>

definition create_result :: "kenv \<Rightarrow> ('sl \<Rightarrow> idx) \<Rightarrow> 'sl kernel \<Rightarrow> nat \<Rightarrow> nsaddr \<Rightarrow> 'sl pid_namespace \<Rightarrow> nsaddr errptr \<Rightarrow> 'sl kernel
    \<Rightarrow> bool" where
  "create_result e A k user b pn r k' \<longleftrightarrow> k_pids k' = k_pids k \<and> k_rcu k' = k_rcu k \<and> k_tasks k' = k_tasks k \<and>
     k_brk k \<le> k_brk k' \<and> (case r of
       NullPtr \<Rightarrow> False
     | ErrPtr c \<Rightarrow> k_ns k' = k_ns k \<and>
         (c = - EINVAL \<and> \<not> in_userns e (user_ns pn) user
          \<or> c = - ENOSPC \<and> (MAX_PID_NS_LEVEL \<le> ns_level pn \<or> (\<exists>t. inc_ucount e t user = None))
          \<or> c = - ENOMEM \<and> ((\<exists>t. \<not> kmem_cache_alloc_ok e t) \<or> (\<exists>t. kmem_cache_create e t (Suc (ns_level pn)) = None))
          \<or> c \<noteq> 0 \<and> (\<exists>t. ns_alloc_inum e t = c))
     | ValidPtr a \<Rightarrow> k_ns k a = None \<and> ns_level pn < MAX_PID_NS_LEVEL \<and> in_userns e (user_ns pn) user \<and>
         (\<exists>N. k_ns k' = (if b = init_pid_ns then k_ns k else (k_ns k)(b \<mapsto> pn\<lparr>kref := Suc (kref pn)\<rparr>))(a \<mapsto> N) \<and>
           A (pid_sl N) = Map.empty \<and> kref N = 1 \<and> last_pid N = 0 \<and> pid_allocated N = PIDNS_ADDING \<and>
           child_reaper N = None \<and> pid_cachep N \<noteq> None \<and> ns_level N = Suc (ns_level pn) \<and> ns_parent N = Some b \<and>
           user_ns N = user \<and> reboot N = 0))"

lemma create_pid_cachep_ok:
  assumes "0 < level" and "level \<le> MAX_PID_NS_LEVEL"
  shows "\<exists>kc t c. create_pid_cachep e level k = Some (kc, k\<lparr>pid_cache := c, k_tick := t\<rparr>) \<and>
     (kc = None \<longrightarrow> (\<exists>t. kmem_cache_create e t level = None))"
proof (cases "pid_cache k (level - 1)")
  case None
  with assms show ?thesis by (auto simp: create_pid_cachep_def Let_def tick_def intro!: exI)
next
  case (Some kc)
  moreover have "k = k\<lparr>pid_cache := pid_cache k, k_tick := k_tick k\<rparr>" by simp
  ultimately show ?thesis using assms
    by (intro exI [of _ "Some kc"] exI [of _ "k_tick k"] exI [of _ "pid_cache k"]) (simp add: create_pid_cachep_def)
qed

lemma ns_ok_cong:
  assumes ok: "ns_ok I h k" and k': "k_ns k' = k_ns k" "k_brk k \<le> k_brk k'"
  shows "ns_ok I h k'"
proof -
  have lv: "live k' = live k" using k'(1) by (simp add: fun_eq_iff live_def)
  have "ns_bound k'" using ok k' ns_bound_dom [of k' k] by (simp add: ns_ok_def)
  with ok show ?thesis unfolding ns_ok_def ns_wf_def ns_root_def ns_refs_def ns_children_def lv by simp
qed

context ns_kernel
begin

lemma create_out_free_ok:
  assumes "k_ns k1 = (k_ns k)(a \<mapsto> N)" and "inv (pid_sl N)" and "k_ns k a = None"
  shows "\<exists>k'. create_out_free ops a uc err k1 = Some (ERR_PTR err, k') \<and> k_ns k' = k_ns k \<and> k_pids k' = k_pids k1 \<and>
     k_rcu k' = k_rcu k1 \<and> k_tasks k' = k_tasks k1 \<and> k_brk k' = k_brk k1"
proof -
  obtain sl' where "op_destroy ops (pid_sl N) = Some sl'" using destroy [OF assms(2)] by blast
  moreover have "((k_ns k)(a \<mapsto> N))(a := None) = k_ns k" using assms(3) by (simp add: fun_upd_idem)
  ultimately show ?thesis using assms(1) by (simp add: create_out_free_def dec_pid_namespaces_def log_event_def)
qed

text \<open>The part of \<^verbatim>\<open>create_pid_namespace\<close> after the checks and the allocation.\<close>

lemma create_attach:
  assumes ok: "ns_ok inv h k" and b: "live k b pn" and k5: "k_ns k5 = (k_ns k)(k_brk k \<mapsto> N)" "k_pids k5 = k_pids k" "k_rcu k5 = k_rcu k"
      "k_tasks k5 = k_tasks k" "k_brk k5 = Suc (k_brk k)"
    and N: "inv (pid_sl N)" "abs (pid_sl N) = Map.empty" "last_pid N = 0" "child_reaper N = None" "pid_cachep N \<noteq> None" "reboot N = 0"
    and lev: "ns_level pn < MAX_PID_NS_LEVEL" and us: "in_userns e (user_ns pn) user"
  shows "\<exists>k7 k8. get_pid_ns b (tick k5) = Some k7 \<and> ns_upd (log_event (GetUserNs user) k7) (k_brk k)
       (\<lambda>n. n\<lparr>kref := 1, ns_level := Suc (ns_level pn), ns_parent := Some b, user_ns := user, ucounts := uc, pid_allocated := PIDNS_ADDING\<rparr>) = Some k8 \<and>
     ns_ok inv (h(k_brk k := 1)) k8 \<and> create_result e abs k user b pn (ValidPtr (k_brk k)) k8"
proof -
  let ?a = "k_brk k"
  have nb: "k_ns k b = Some pn" using b by (simp add: live_def)
  have fresh: "k_ns k ?a = None" using ok by (cases "k_ns k ?a") (auto simp: ns_ok_def ns_bound_def)
  have ab: "?a \<noteq> b" using fresh nb by auto
  have b6: "live (tick k5) b pn" using b ab k5(1) by (simp add: live_def tick_def)
  obtain k7 where k7: "get_pid_ns b (tick k5) = Some k7" "k7 = (tick k5)\<lparr>k_ns := k_ns k7\<rparr>"
    "k_ns k7 = (if b = init_pid_ns then k_ns (tick k5) else (k_ns (tick k5))(b \<mapsto> pn\<lparr>kref := Suc (kref pn)\<rparr>))"
    using get_pid_ns_ok [OF b6] by blast
  define N' where "N' = N\<lparr>kref := 1, ns_level := Suc (ns_level pn), ns_parent := Some b, user_ns := user, ucounts := uc,
    pid_allocated := PIDNS_ADDING\<rparr>"
  define k8 where "k8 = (log_event (GetUserNs user) k7)\<lparr>k_ns := (k_ns k7)(?a \<mapsto> N')\<rparr>"
  have f7: "k_pids k7 = k_pids k5" "k_rcu k7 = k_rcu k5" "k_tasks k7 = k_tasks k5" "k_brk k7 = k_brk k5"
    by (subst k7(2), simp add: tick_def)+
  have a7: "k_ns k7 ?a = Some N" using k7(3) k5(1) ab by (simp add: tick_def)
  have ns8: "k_ns k8 = (if b = init_pid_ns then k_ns k else (k_ns k)(b \<mapsto> pn\<lparr>kref := Suc (kref pn)\<rparr>))(?a \<mapsto> N')"
    using k7(3) k5(1) ab by (auto simp: k8_def tick_def fun_upd_twist)
  have f8: "k_pids k8 = k_pids k" "k_rcu k8 = k_rcu k" "k_tasks k8 = k_tasks k" "k_brk k8 = Suc ?a"
    using f7 k5 by (simp_all add: k8_def log_event_def)
  have "ns_ok inv (h(?a := 1)) k8"
    by (rule ns_ok_new(1) [OF ok b refl ns8 f8(4)]) (simp_all add: N'_def N(1))
  moreover have "\<exists>N. k_ns k8 = (if b = init_pid_ns then k_ns k else (k_ns k)(b \<mapsto> pn\<lparr>kref := Suc (kref pn)\<rparr>))(?a \<mapsto> N) \<and>
       abs (pid_sl N) = Map.empty \<and> kref N = 1 \<and> last_pid N = 0 \<and> pid_allocated N = PIDNS_ADDING \<and>
       child_reaper N = None \<and> pid_cachep N \<noteq> None \<and> ns_level N = Suc (ns_level pn) \<and> ns_parent N = Some b \<and>
       user_ns N = user \<and> reboot N = 0"
    by (intro exI [of _ N'] conjI ns8) (use N in \<open>simp_all add: N'_def\<close>)
  then have "create_result e abs k user b pn (ValidPtr ?a) k8" using f8 fresh lev us by (simp add: create_result_def)
  moreover have "ns_upd (log_event (GetUserNs user) k7) ?a
       (\<lambda>n. n\<lparr>kref := 1, ns_level := Suc (ns_level pn), ns_parent := Some b, user_ns := user, ucounts := uc, pid_allocated := PIDNS_ADDING\<rparr>) = Some k8"
    using a7 by (simp add: ns_upd_def log_event_def k8_def N'_def)
  ultimately show ?thesis using k7(1) by blast
qed

lemma create_build:
  assumes ok: "ns_ok inv h k" and b: "live k b pn" and lev: "ns_level pn < MAX_PID_NS_LEVEL" and draws: "\<forall>t. nofail_promise (e_draw e t)"
    and ac: "in_userns e (user_ns pn) user" "inc_ucount e (k_tick k) user = Some uc" "kmem_cache_alloc_ok e (Suc (k_tick k))"
  shows "\<exists>r k'. create_pid_namespace ops zero e user b k = Some (r, k') \<and> create_result e abs k user b pn r k' \<and>
     ns_ok inv (case r of ValidPtr a \<Rightarrow> h(a := 1) | _ \<Rightarrow> h) k'"
proof -
  let ?a = "k_brk k" and ?lev = "Suc (ns_level pn)"
  have nb: "k_ns k b = Some pn" using b by (simp add: live_def)
  have fresh: "k_ns k ?a = None" using ok by (cases "k_ns k ?a") (auto simp: ns_ok_def ns_bound_def)
  have ab: "?a \<noteq> b" using fresh nb by auto
  obtain sl where sl: "op_init ops (e_draw e (Suc (Suc (k_tick k)))) GFP_KERNEL zero = Some sl" "inv sl" "abs sl = Map.empty"
    using init draws by blast
  define N where "N kc = \<lparr>kref = 0, pid_sl = sl, last_pid = 0, pid_allocated = 0, child_reaper = None, pid_cachep = kc,
      ns_level = 0, ns_parent = None, user_ns = 0, ucounts = 0, reboot = 0\<rparr>" for kc
  define k3 where "k3 = k\<lparr>k_tick := Suc (Suc (Suc (k_tick k))), k_brk := Suc ?a, k_ns := (k_ns k)(?a \<mapsto> N None)\<rparr>"
  obtain kc t c where cc: "create_pid_cachep e ?lev k3 = Some (kc, k3\<lparr>pid_cache := c, k_tick := t\<rparr>)"
    "kc = None \<longrightarrow> (\<exists>t. kmem_cache_create e t ?lev = None)"
    using create_pid_cachep_ok [of ?lev e k3] lev by auto
  define k5 where "k5 = k3\<lparr>pid_cache := c, k_tick := t, k_ns := (k_ns k)(?a \<mapsto> N kc)\<rparr>"
  have k5: "k_ns k5 = (k_ns k)(?a \<mapsto> N kc)" "k_pids k5 = k_pids k" "k_rcu k5 = k_rcu k" "k_tasks k5 = k_tasks k"
    "k_brk k5 = Suc ?a" by (simp_all add: k5_def k3_def)
  have upd: "ns_upd (k3\<lparr>pid_cache := c, k_tick := t\<rparr>) ?a (\<lambda>n. n\<lparr>pid_cachep := kc\<rparr>) = Some k5"
    by (simp add: ns_upd_def k5_def k3_def N_def)
  have cr: "create_pid_namespace ops zero e user b k = (if kc = None then create_out_free ops ?a uc (- ENOMEM) k5
     else let err = ns_alloc_inum e (k_tick k5); k6 = tick k5 in
       if err \<noteq> 0 then create_out_free ops ?a uc err k6
       else do { k7 \<leftarrow> get_pid_ns b k6;
         k8 \<leftarrow> ns_upd (log_event (GetUserNs user) k7) ?a
           (\<lambda>n. n\<lparr>kref := 1, ns_level := ?lev, ns_parent := Some b, user_ns := user, ucounts := uc, pid_allocated := PIDNS_ADDING\<rparr>);
         Some (ValidPtr ?a, k8) })"
  proof -
    have z: "(case zalloc_ns zero (tick (tick k)) of (ns, k2) \<Rightarrow> ns_upd (tick k2) ns (\<lambda>n. n\<lparr>pid_sl := sl, last_pid := 0\<rparr>)) = Some k3"
      by (simp add: zalloc_ns_def tick_def ns_upd_def k3_def N_def)
    then show ?thesis
      using nb ac lev sl(1) cc(1) upd
      by (simp add: create_pid_namespace_def inc_pid_namespaces_def tick_def zalloc_ns_def Let_def)
  qed
  have fail: "\<exists>k'. create_out_free ops ?a uc err kx = Some (ERR_PTR err, k') \<and> k_ns k' = k_ns k \<and> k_pids k' = k_pids k \<and>
      k_rcu k' = k_rcu k \<and> k_tasks k' = k_tasks k \<and> k_brk k \<le> k_brk k' \<and> ns_ok inv h k'"
    if "kx = k5\<lparr>k_tick := t\<rparr>" for err kx t
    using create_out_free_ok [of kx k ?a "N kc" uc err] ns_ok_cong [OF ok] that sl(2) fresh k5 by (fastforce simp: N_def)
  show ?thesis
  proof (cases "kc = None \<or> ns_alloc_inum e (k_tick k5) \<noteq> 0")
    case True
    define kx where "kx = (if kc = None then k5 else tick k5)"
    define err where "err = (if kc = None then - ENOMEM else ns_alloc_inum e (k_tick k5))"
    have "kx = k5\<lparr>k_tick := (if kc = None then k_tick k5 else Suc (k_tick k5))\<rparr>" by (simp add: kx_def tick_def)
    from fail [OF this, of err] obtain k' where k': "create_out_free ops ?a uc err kx = Some (ERR_PTR err, k')"
      "k_ns k' = k_ns k" "k_pids k' = k_pids k" "k_rcu k' = k_rcu k" "k_tasks k' = k_tasks k" "k_brk k \<le> k_brk k'" "ns_ok inv h k'" by blast
    have "create_pid_namespace ops zero e user b k = Some (ErrPtr err, k')"
      using cr k'(1) True by (auto simp: kx_def err_def ERR_PTR_def Let_def)
    with k'(2-7) True cc(2) show ?thesis by (auto simp: create_result_def err_def)
  next
    case False
    from create_attach [OF ok b k5, of e user uc] False lev ac(1) sl(2,3) cr show ?thesis
      by (fastforce simp: N_def Let_def)
  qed
qed

theorem create_pid_namespace_ok:
  assumes ok: "ns_ok inv h k" and b: "live k b pn" and draws: "\<forall>t. nofail_promise (e_draw e t)"
  shows "\<exists>r k'. create_pid_namespace ops zero e user b k = Some (r, k') \<and> create_result e abs k user b pn r k' \<and>
     ns_ok inv (case r of ValidPtr a \<Rightarrow> h(a := 1) | _ \<Rightarrow> h) k'"
proof -
  have nb: "k_ns k b = Some pn" using b by (simp add: live_def)
  have early: ?thesis if "create_pid_namespace ops zero e user b k = Some (ErrPtr c, k')"
    "k_ns k' = k_ns k" "k_brk k' = k_brk k" "create_result e abs k user b pn (ErrPtr c) k'" for c k'
    using that ns_ok_cong [OF ok] by auto
  consider (user) "\<not> in_userns e (user_ns pn) user"
    | (lev) "in_userns e (user_ns pn) user" "MAX_PID_NS_LEVEL \<le> ns_level pn"
    | (inc) "in_userns e (user_ns pn) user" "ns_level pn < MAX_PID_NS_LEVEL" "inc_ucount e (k_tick k) user = None"
    | (mem) uc where "in_userns e (user_ns pn) user" "ns_level pn < MAX_PID_NS_LEVEL" "inc_ucount e (k_tick k) user = Some uc"
        "\<not> kmem_cache_alloc_ok e (Suc (k_tick k))"
    | (go) uc where "in_userns e (user_ns pn) user" "ns_level pn < MAX_PID_NS_LEVEL" "inc_ucount e (k_tick k) user = Some uc"
        "kmem_cache_alloc_ok e (Suc (k_tick k))"
    by (meson not_le option.exhaust)
  then show ?thesis
  proof cases
    case user
    then show ?thesis using nb
      by (intro early [of "- EINVAL" k]) (auto simp: create_pid_namespace_def create_result_def ERR_PTR_def Let_def)
  next
    case lev
    then show ?thesis using nb
      by (intro early [of "- ENOSPC" k]) (auto simp: create_pid_namespace_def create_result_def ERR_PTR_def Let_def)
  next
    case inc
    then show ?thesis using nb
      by (intro early [of "- ENOSPC" "tick k"])
        (auto simp: create_pid_namespace_def create_result_def ERR_PTR_def inc_pid_namespaces_def Let_def tick_def)
  next
    case (mem uc)
    then show ?thesis using nb
      by (intro early [of "- ENOMEM" "dec_pid_namespaces uc (tick (tick k))"])
        (auto simp: create_pid_namespace_def create_result_def ERR_PTR_def inc_pid_namespaces_def Let_def tick_def
          dec_pid_namespaces_def log_event_def)
  next
    case (go uc)
    then show ?thesis using create_build [OF ok b _ draws] by blast
  qed
qed

end

end
