(* ===== verification/Pid_Ns_Guard.thy ===== *)
theory Pid_Ns_Guard
  imports Pid_Ns_Correct
begin

text \<open>
  The checks on the hierarchy of namespaces in \<^verbatim>\<open>pidns_install\<close> and \<^verbatim>\<open>pidns_get_parent\<close>, and the shutdown
  of a namespace.
\<close>

section \<open>Ancestors\<close>

text \<open>\<open>ns_anc k a b\<close>: the namespace at \<open>b\<close> is that at \<open>a\<close> or an ancestor of it.\<close>

inductive ns_anc :: "'sl kernel \<Rightarrow> nsaddr \<Rightarrow> nsaddr \<Rightarrow> bool" for k where
  anc_refl: "live k a n \<Longrightarrow> ns_anc k a a"
| anc_step: "live k a n \<Longrightarrow> ns_parent n = Some c \<Longrightarrow> ns_anc k c b \<Longrightarrow> ns_anc k a b"

inductive_cases ns_ancE: "ns_anc k a b"

lemma live_unique: "live k a n \<Longrightarrow> live k a m \<Longrightarrow> n = m"
  by (simp add: live_def)

lemma ns_anc_iff:
  assumes "live k a n"
  shows "ns_anc k a b \<longleftrightarrow> a = b \<or> (\<exists>p. ns_parent n = Some p \<and> ns_anc k p b)"
proof
  assume "ns_anc k a b"
  then show "a = b \<or> (\<exists>p. ns_parent n = Some p \<and> ns_anc k p b)"
  proof (cases rule: ns_anc.cases)
    case (anc_step n' c)
    with live_unique [OF assms anc_step(1)] show ?thesis by blast
  qed simp
next
  assume "a = b \<or> (\<exists>p. ns_parent n = Some p \<and> ns_anc k p b)"
  with assms show "ns_anc k a b" by (blast intro: anc_refl anc_step)
qed

lemma ns_wf_at:
  assumes "ns_wf I k" and "live k a n"
  shows "case ns_parent n of None \<Rightarrow> ns_level n = 0 | Some b \<Rightarrow> \<exists>m. live k b m \<and> ns_level n = Suc (ns_level m)"
  using assms by (simp add: ns_wf_def)

lemma ns_wf_parent:
  assumes "ns_wf I k" and "live k a n" and "ns_parent n = Some b"
  obtains m where "live k b m" "ns_level n = Suc (ns_level m)"
  using ns_wf_at [OF assms(1,2)] assms(3) by auto

lemma ns_wf_top: "ns_wf I k \<Longrightarrow> live k a n \<Longrightarrow> ns_parent n = None \<Longrightarrow> ns_level n = 0"
  using ns_wf_at [of I k a n] by simp

lemma ns_anc_level:
  assumes "ns_wf I k"
  shows "ns_anc k a b \<Longrightarrow> live k a n \<Longrightarrow> live k b m \<Longrightarrow> ns_level m \<le> ns_level n \<and> (ns_level m = ns_level n \<longrightarrow> a = b)"
proof (induction arbitrary: n rule: ns_anc.induct)
  case (anc_refl a n')
  then show ?case by (auto dest: live_unique)
next
  case (anc_step a n' c b)
  obtain mc where mc: "live k c mc" "ns_level n' = Suc (ns_level mc)"
    using ns_wf_parent [OF assms anc_step.hyps(1,2)] by blast
  with anc_step.IH [OF mc(1) anc_step.prems(2)] live_unique [OF anc_step.hyps(1) anc_step.prems(1)] show ?case by auto
qed

lemma ns_anc_unique:
  assumes wf: "ns_wf I k" and c: "live k c m'" and l: "ns_level m' = ns_level m"
  shows "ns_anc k a b \<Longrightarrow> ns_anc k a c \<Longrightarrow> live k b m \<Longrightarrow> b = c"
proof (induction rule: ns_anc.induct)
  case (anc_refl a n)
  then show ?case using ns_anc_level [OF wf anc_refl.prems(1,2) c] l by simp
next
  case (anc_step a n p b)
  obtain mp where mp: "live k p mp" "ns_level n = Suc (ns_level mp)"
    using ns_wf_parent [OF wf anc_step.hyps(1,2)] by blast
  have lb: "ns_level m \<le> ns_level mp" using ns_anc_level [OF wf anc_step.hyps(3) mp(1) anc_step.prems(2)] by simp
  have "a \<noteq> c" using live_unique [OF anc_step.hyps(1)] c l lb mp(2) by auto
  then have "ns_anc k p c" using anc_step.prems(1) anc_step.hyps(2) by (simp add: ns_anc_iff [OF anc_step.hyps(1)])
  from anc_step.IH [OF this anc_step.prems(2)] show ?case .
qed

lemma ancestor_at_ok:
  assumes wf: "ns_wf I k"
  shows "live k a n \<Longrightarrow> l \<le> ns_level n \<Longrightarrow>
    \<exists>c m. ancestor_at k l (Some a) = Some c \<and> live k c m \<and> ns_level m = l \<and> ns_anc k a c"
proof (induction "ns_level n" arbitrary: a n rule: less_induct)
  case less
  have na: "k_ns k a = Some n" using less.prems(1) by (simp add: live_def)
  show ?case
  proof (cases "l < ns_level n")
    case True
    then obtain b where b: "ns_parent n = Some b" using ns_wf_top [OF wf less.prems(1)] by (cases "ns_parent n") auto
    then obtain m where m: "live k b m" "ns_level n = Suc (ns_level m)"
      using ns_wf_parent [OF wf less.prems(1)] by blast
    with True obtain c mc where c: "ancestor_at k l (Some b) = Some c" "live k c mc" "ns_level mc = l" "ns_anc k b c"
      using less.hyps [of m b] by auto
    have "ancestor_at k l (Some a) = Some c" using na True b c(1) by (subst ancestor_at.simps) simp
    with c anc_step [OF less.prems(1) b c(4)] show ?thesis by blast
  next
    case False
    then have "ancestor_at k l (Some a) = Some a" using na by (subst ancestor_at.simps) simp
    with False less.prems anc_refl [OF less.prems(1)] show ?thesis by fastforce
  qed
qed

text \<open>The loop of \<^verbatim>\<open>pidns_install\<close> decides whether the active namespace is an ancestor.\<close>

lemma ancestor_at_iff:
  assumes wf: "ns_wf I k" and a: "live k a n" and b: "live k b m" and l: "ns_level m \<le> ns_level n"
  shows "\<exists>c. ancestor_at k (ns_level m) (Some a) = Some c \<and> (c = b \<longleftrightarrow> ns_anc k a b)"
proof -
  obtain c mc where c: "ancestor_at k (ns_level m) (Some a) = Some c" "live k c mc" "ns_level mc = ns_level m" "ns_anc k a c"
    using ancestor_at_ok [OF wf a l] by blast
  with ns_anc_unique [OF wf c(2,3) _ c(4) b] show ?thesis by blast
qed

lemma parent_visible_ok:
  assumes wf: "ns_wf I k"
  shows "live k a n \<Longrightarrow> parent_visible k act (Some a) = Some (\<exists>b. act = Some b \<and> ns_anc k a b)"
proof (induction "ns_level n" arbitrary: a n rule: less_induct)
  case less
  have na: "k_ns k a = Some n" using less.prems by (simp add: live_def)
  show ?case
  proof (cases "act = Some a")
    case True
    then show ?thesis using anc_refl [OF less.prems] by (subst parent_visible.simps) auto
  next
    case False
    then have pv: "parent_visible k act (Some a) = parent_visible k act (ns_parent n)"
      using na by (subst parent_visible.simps) auto
    show ?thesis
    proof (cases "ns_parent n")
      case None
      have "\<not> ns_anc k a b" if "act = Some b" for b
        using that False None by (simp add: ns_anc_iff [OF less.prems])
      with None show ?thesis unfolding pv by (subst parent_visible.simps) auto
    next
      case (Some p)
      then obtain m where m: "live k p m" "ns_level n = Suc (ns_level m)"
        using ns_wf_parent [OF wf less.prems] by blast
      have "ns_anc k a b = ns_anc k p b" if "act = Some b" for b
        using that False Some by (simp add: ns_anc_iff [OF less.prems])
      with less.hyps [OF _ m(1)] m(2) Some show ?thesis unfolding pv by auto
    qed
  qed
qed

section \<open>Entering a namespace\<close>

lemma ns_ok_get:
  assumes ok: "ns_ok I h k" and n: "live k a n"
  shows "\<exists>k'. get_pid_ns a k = Some k' \<and> ns_ok I (h(a := Suc (h a))) k' \<and> k' = k\<lparr>k_ns := k_ns k'\<rparr> \<and> ns_same k k'"
proof (cases "a = init_pid_ns")
  case True
  then have "ns_ok I (h(a := Suc (h a))) k" using ok by (simp add: ns_ok_def ns_refs_def)
  with True show ?thesis by (simp add: get_pid_ns_def)
next
  case False
  have na: "k_ns k a = Some n" "0 < kref n" using n by (auto simp: live_def)
  let ?k = "k\<lparr>k_ns := (k_ns k)(a \<mapsto> n\<lparr>kref := Suc (kref n)\<rparr>)\<rparr>"
  have "ns_ok I (h(a := Suc (h a))) ?k"
    by (rule ns_ok_kref(1) [OF ok n]) (use ns_refsD [OF ok n False] in auto)
  moreover have "get_pid_ns a k = Some ?k"
    using False na by (simp add: get_pid_ns_def refcount_inc_def ns_upd_def)
  moreover have "ns_same k ?k" by (rule ns_same_kref [OF na]) simp
  ultimately show ?thesis by auto
qed

text \<open>What \<^verbatim>\<open>pidns_install\<close> returns; \<open>act\<close> is the namespace of the caller.\<close>

definition install_code :: "kenv \<Rightarrow> 'sl kernel \<Rightarrow> nsaddr \<Rightarrow> nsaddr \<Rightarrow> 'sl pid_namespace \<Rightarrow> int" where
  "install_code e k act new nn =
     (if \<not> ns_capable e (user_ns nn) \<or> \<not> ns_capable e (current_user_ns e) then - EPERM
      else if \<not> ns_anc k new act then - EINVAL else 0)"

context ns_kernel
begin

theorem pidns_install_ok:
  assumes ok: "ns_ok inv h k" and act: "task_active_pid_ns e (k_current k) k = Some (Some act)" "live k act an"
    and new: "live k new nn" and px: "k_nsproxies k px = Some old" "live k old on" "old = init_pid_ns \<or> 0 < h old"
    and held: "0 < (h(old := h old - 1)) new"
  shows "\<exists>k'. pidns_install ops e px new k = Some (install_code e k act new nn, k') \<and>
     (if install_code e k act new nn = 0
      then k_nsproxies k' px = Some new \<and> ns_ok inv (h(old := h old - 1, new := Suc ((h(old := h old - 1)) new))) k'
      else k' = k)"
proof -
  have wf: "ns_wf inv k" using ok by (simp add: ns_ok_def)
  have na: "k_ns k act = Some an" "k_ns k new = Some nn" using act new by (auto simp: live_def)
  show ?thesis
  proof (cases "install_code e k act new nn = 0")
    case False
    have "\<not> ns_anc k new act" if "ns_level nn < ns_level an"
      using ns_anc_level [OF wf _ new act(2)] that by auto
    with ancestor_at_iff [OF wf new act(2)] False show ?thesis
      using act(1) na by (auto simp: pidns_install_def install_code_def not_less split: if_splits)
  next
    case True
    then have cap: "ns_capable e (user_ns nn)" "ns_capable e (current_user_ns e)" and anc: "ns_anc k new act"
      by (auto simp: install_code_def split: if_splits)
    have lev: "ns_level an \<le> ns_level nn" using ns_anc_level [OF wf anc new act(2)] by simp
    then have at: "ancestor_at k (ns_level an) (Some new) = Some act"
      using ancestor_at_iff [OF wf new act(2) lev] anc by auto
    obtain k1 ds where k1: "put_pid_ns ops (Some old) k = Some k1" "ns_ok inv (h(old := h old - 1)) k1" "ns_dropped k ds k1"
      "\<forall>b \<in> set ds. (h(old := h old - 1)) b = 0" using put_pid_ns_ok [OF ok px(2,3)] by blast
    have "new \<notin> set ds" using k1(4) held by auto
    then obtain n1 where n1: "live k1 new n1" using k1(3) new unfolding ns_dropped_def by blast
    obtain k2 where k2: "get_pid_ns new k1 = Some k2"
      "ns_ok inv (h(old := h old - 1, new := Suc ((h(old := h old - 1)) new))) k2"
      using ns_ok_get [OF k1(2) n1] by auto
    let ?k = "k2\<lparr>k_nsproxies := (k_nsproxies k2)(px \<mapsto> new)\<rparr>"
    have "pidns_install ops e px new k = Some (0, ?k)"
      using act(1) na cap lev at px(1) k1(1) k2(1) by (simp add: pidns_install_def)
    moreover have "ns_ok inv (h(old := h old - 1, new := Suc ((h(old := h old - 1)) new))) ?k"
      by (rule ns_ok_cong [OF k2(2)]) simp_all
    ultimately show ?thesis using True by simp
  qed
qed

end

section \<open>Shutdown\<close>

text \<open>The signals sent for the pids \<open>ps\<close>: to the first task of each, unless it is dying already.\<close>

definition kill_log :: "kenv \<Rightarrow> 'sl kernel \<Rightarrow> paddr list \<Rightarrow> event list" where
  "kill_log e k ps = concat (map (\<lambda>p. case k_pids k p of None \<Rightarrow> []
     | Some P \<Rightarrow> (case p_tasks P PIDTYPE_PID of [] \<Rightarrow> []
         | t # _ \<Rightarrow> if fatal_signal_pending e t then [] else [SendSigkill (Some t)])) ps)"

lemma kill_log_events: "kill_log e (k\<lparr>k_events := x\<rparr>) ps = kill_log e k ps"
  by (simp add: kill_log_def)

lemma zap_kill_collect:
  assumes "iter_collect ops (pid_sl n) c 2 = Some ps" and "k_ns k ns = Some n" and "\<forall>p \<in> set ps. k_pids k p \<noteq> None"
  shows "zap_kill ops e ns c k = Some (k\<lparr>k_events := k_events k @ kill_log e k ps\<rparr>)"
  using assms
proof (induction ps arbitrary: c k)
  case Nil
  then obtain c' where "op_iter_next ops (pid_sl n) c 2 = Some (None, c')"
    by (subst (asm) iter_collect.simps) (auto split: option.splits prod.splits bind_splits)
  with Nil.prems(2) show ?case by (subst zap_kill.simps) (simp add: kill_log_def)
next
  case (Cons p ps)
  then obtain c' where c': "op_iter_next ops (pid_sl n) c 2 = Some (Some p, c')" "iter_collect ops (pid_sl n) c' 2 = Some ps"
    by (subst (asm) iter_collect.simps) (auto split: option.splits prod.splits bind_splits)
  obtain P where P: "k_pids k p = Some P" using Cons.prems(3) by auto
  define x where "x = kill_log e k [p]"
  have step: "zap_kill ops e ns c k = zap_kill ops e ns c' (k\<lparr>k_events := k_events k @ x\<rparr>)"
    using Cons.prems(2) c'(1) P
    by (subst zap_kill.simps) (auto simp: pid_task_def x_def kill_log_def log_event_def split: list.splits)
  have "kill_log e k (p # ps) = x @ kill_log e k ps" by (simp add: x_def kill_log_def)
  with Cons.IH [OF c'(2), of "k\<lparr>k_events := k_events k @ x\<rparr>"] Cons.prems(2,3) show ?case
    by (simp add: step kill_log_events)
qed

text \<open>
  The rest of the kernel as the two waiting loops rely on it, under an invariant \<open>J\<close> of the state:
  \<^verbatim>\<open>kernel_wait4\<close> runs out of children, and as long as other pids are left in the namespace the other
  tasks make progress.
\<close>

definition reaps :: "('sl kernel \<Rightarrow> bool) \<Rightarrow> ('sl kernel \<Rightarrow> nat) \<Rightarrow> ('sl kernel \<Rightarrow> (int \<times> 'sl kernel) option) \<Rightarrow> bool" where
  "reaps J f wait4 \<longleftrightarrow> (\<forall>k. J k \<longrightarrow> (\<exists>r k'. wait4 k = Some (r, k') \<and> J k' \<and> (r = - ECHILD \<or> f k' < f k)))"

definition yields :: "('sl kernel \<Rightarrow> bool) \<Rightarrow> ('sl kernel \<Rightarrow> nat) \<Rightarrow> nsaddr \<Rightarrow> 32 word \<Rightarrow> ('sl kernel \<Rightarrow> 'sl kernel option) \<Rightarrow> bool" where
  "yields J g ns c schedule \<longleftrightarrow> (\<forall>k n. J k \<longrightarrow> k_ns k ns = Some n \<longrightarrow> pid_allocated n \<noteq> c \<longrightarrow>
     (\<exists>k'. schedule k = Some k' \<and> J k' \<and> g k' < g k))"

lemma zap_reap_ends:
  assumes "reaps J f wait4"
  shows "J k \<Longrightarrow> \<exists>k'. zap_reap wait4 k = Some k' \<and> J k'"
proof (induction "f k" arbitrary: k rule: less_induct)
  case less
  obtain r k1 where k1: "wait4 k = Some (r, k1)" "J k1" "r = - ECHILD \<or> f k1 < f k"
    using assms less.prems by (auto simp: reaps_def)
  with less.hyps [of k1] show ?case by (subst zap_reap.simps) auto
qed

lemma zap_wait_ends:
  assumes "yields J g ns c schedule" and ex: "\<And>k. J k \<Longrightarrow> k_ns k ns \<noteq> None"
  shows "J k \<Longrightarrow> \<exists>k' n'. zap_wait schedule ns c k = Some k' \<and> J k' \<and> k_ns k' ns = Some n' \<and> pid_allocated n' = c"
proof (induction "g k" arbitrary: k rule: less_induct)
  case less
  obtain n where n: "k_ns k ns = Some n" using ex [OF less.prems] by auto
  show ?case
  proof (cases "pid_allocated n = c")
    case False
    then obtain k1 where k1: "schedule k = Some k1" "J k1" "g k1 < g k"
      using assms(1) less.prems n by (auto simp: yields_def)
    with less.hyps [of k1] n False show ?thesis by (subst zap_wait.simps) simp
  qed (use n less.prems in \<open>auto simp: zap_wait.simps\<close>)
qed

text \<open>The state after the signals have been sent.\<close>

definition zap_killed :: "kenv \<Rightarrow> ('sl \<Rightarrow> idx) \<Rightarrow> nsaddr \<Rightarrow> 'sl pid_namespace \<Rightarrow> 'sl kernel \<Rightarrow> 'sl kernel" where
  "zap_killed e A ns n k = k\<lparr>k_ns := (k_ns k)(ns \<mapsto> n\<lparr>pid_allocated := pid_allocated n AND NOT PIDNS_ADDING\<rparr>),
     k_events := k_events k @ IgnoreSigchld # kill_log e k (idx_iter (A (pid_sl n)) 2)\<rparr>"

context pid_kernel
begin

lemma iter_pids:
  assumes ki: "kinv inv abs k" and n: "live k ns n"
  shows "\<forall>p \<in> set (idx_iter (abs (pid_sl n)) c). k_pids k p \<noteq> None"
proof
  fix p assume "p \<in> set (idx_iter (abs (pid_sl n)) c)"
  moreover have "q \<in> set (until_null xs) \<Longrightarrow> Some q \<in> set xs" for q and xs :: "paddr option list"
    by (induction xs rule: until_null.induct) auto
  ultimately obtain j where "idx_get (abs (pid_sl n)) j = Some p" unfolding idx_iter_def by fastforce
  with ki n show "k_pids k p \<noteq> None" by (fastforce simp: kinv_def index_wf_def pid_has_def)
qed

theorem zap_ok:
  assumes ki: "kinv inv abs k" and n: "live k ns n"
    and J: "J (zap_killed e abs ns n k)" "\<And>k. J k \<Longrightarrow> k_ns k ns \<noteq> None"
    and env: "reaps J f wait4" "yields J g ns (if thread_group_leader e (k_current k) then 1 else 2) schedule"
  shows "\<exists>k4 k5 n5. zap_reap wait4 (zap_killed e abs ns n k) = Some k4 \<and>
     zap_wait schedule ns (if thread_group_leader e (k_current k) then 1 else 2) k4 = Some k5 \<and> J k5 \<and> k_ns k5 ns = Some n5 \<and>
     pid_allocated n5 = (if thread_group_leader e (k_current k) then 1 else 2) \<and>
     zap_pid_ns_processes ops e wait4 schedule ns k = Some (k5\<lparr>k_events := k_events k5 @
       (if reboot n5 \<noteq> 0 then [GroupExitCode (reboot n5)] else []) @ [AcctExitNs ns]\<rparr>)"
proof -
  let ?c = "if thread_group_leader e (k_current k) then 1 else 2 :: 32 word"
  let ?n = "n\<lparr>pid_allocated := pid_allocated n AND NOT PIDNS_ADDING\<rparr>"
  let ?k = "k\<lparr>k_ns := (k_ns k)(ns \<mapsto> ?n), k_events := k_events k @ [IgnoreSigchld]\<rparr>"
  have na: "k_ns k ns = Some n" and inv: "inv (pid_sl n)" using ki n by (auto simp: live_def kinv_def ns_wf_def)
  have dis: "map_option (log_event IgnoreSigchld) (disable_pid_allocation ns k) = Some ?k"
    using na by (simp add: disable_pid_allocation_def ns_upd_def log_event_def)
  have kl: "kill_log e ?k ps = kill_log e k ps" for ps by (simp add: kill_log_def)
  have "zap_kill ops e ns None ?k = Some (?k\<lparr>k_events := k_events ?k @ kill_log e ?k (idx_iter (abs (pid_sl n)) 2)\<rparr>)"
    by (rule zap_kill_collect [of ops ?n]) (use iter [OF inv] iter_pids [OF ki n] in auto)
  then have kill: "zap_kill ops e ns None ?k = Some (zap_killed e abs ns n k)"
    by (simp add: kl zap_killed_def)
  obtain k4 where k4: "zap_reap wait4 (zap_killed e abs ns n k) = Some k4" "J k4"
    using zap_reap_ends [OF env(1) J(1)] by blast
  obtain k5 n5 where k5: "zap_wait schedule ns ?c k4 = Some k5" "J k5" "k_ns k5 ns = Some n5" "pid_allocated n5 = ?c"
    using zap_wait_ends [OF env(2) J(2) k4(2)] by blast
  have "zap_pid_ns_processes ops e wait4 schedule ns k = Some (k5\<lparr>k_events := k_events k5 @
       (if reboot n5 \<noteq> 0 then [GroupExitCode (reboot n5)] else []) @ [AcctExitNs ns]\<rparr>)"
    using dis kill k4(1) k5(1,3) by (auto simp: zap_pid_ns_processes_def log_event_def Let_def)
  with k4(1) k5 show ?thesis by blast
qed

end

end
