(* ===== verification/Pid_Tasks_Correct.thy ===== *)
theory Pid_Tasks_Correct
  imports Pid_Free_Correct
begin

text \<open>
  The lists of tasks of a pid, the translation between pids and numbers, and the reference counts of
  pids.
\<close>

section \<open>Links between tasks and pids\<close>

text \<open>With \<^verbatim>\<open>PIDTYPE_PID\<close> the loop over the tasks of a pid visits the task that \<^verbatim>\<open>pid_task\<close> returns, and no other.\<close>

lemma each_pid_task_pid:
  "each_pid_task pid PIDTYPE_PID k = map_option (\<lambda>t. case t of None \<Rightarrow> [] | Some t \<Rightarrow> [t]) (pid_task pid PIDTYPE_PID k)"
  by (cases pid) (auto simp: each_pid_task_def pid_task_def take_Suc_conv_app_nth split: option.splits list.splits bind_splits)

text \<open>
  A task is on the list of a type of a pid exactly if its link of that type points there, and it is
  there once.
\<close>

definition link_wf :: "'sl kernel \<Rightarrow> bool" where
  "link_wf k \<longleftrightarrow>
     (\<forall>p P ty. k_pids k p = Some P \<longrightarrow> distinct (p_tasks P ty) \<and>
        (\<forall>t \<in> set (p_tasks P ty). \<exists>T. k_tasks k t = Some T \<and> pid_links T ty = Some p)) \<and>
     (\<forall>t T ty p. k_tasks k t = Some T \<longrightarrow> pid_links T ty = Some p \<longrightarrow>
        (\<exists>P. k_pids k p = Some P \<and> t \<in> set (p_tasks P ty)))"

lemma link_wf_pid:
  "link_wf k \<Longrightarrow> k_pids k p = Some P \<Longrightarrow> distinct (p_tasks P ty) \<and>
     (\<forall>t \<in> set (p_tasks P ty). \<exists>T. k_tasks k t = Some T \<and> pid_links T ty = Some p)"
  by (simp add: link_wf_def)

lemma link_wf_task:
  "link_wf k \<Longrightarrow> k_tasks k t = Some T \<Longrightarrow> pid_links T ty = Some p \<Longrightarrow> \<exists>P. k_pids k p = Some P \<and> t \<in> set (p_tasks P ty)"
  by (simp add: link_wf_def)

lemma link_wf_cong: "link_wf k \<Longrightarrow> k_pids k' = k_pids k \<Longrightarrow> k_tasks k' = k_tasks k \<Longrightarrow> link_wf k'"
  by (simp add: link_wf_def)

lemma link_wf_links:
  assumes wf: "link_wf k" and p: "k_pids k' = k_pids k" and l: "\<forall>s. map_option pid_links (k_tasks k' s) = map_option pid_links (k_tasks k s)"
  shows "link_wf k'"
proof -
  have fwd: "\<exists>S'. k_tasks k' s = Some S' \<and> pid_links S' ty = x" if "\<exists>S. k_tasks k s = Some S \<and> pid_links S ty = x" for s ty x
    using l [rule_format, of s] that by (cases "k_tasks k' s") auto
  have bwd: "\<exists>S. k_tasks k s = Some S \<and> pid_links S = pid_links S'" if "k_tasks k' s = Some S'" for s S'
    using l [rule_format, of s] that by (cases "k_tasks k s") auto
  have "\<exists>P. k_pids k q = Some P \<and> s \<in> set (p_tasks P ty)" if s: "k_tasks k' s = Some S'" "pid_links S' ty = Some q" for s S' ty q
  proof -
    obtain S where "k_tasks k s = Some S" "pid_links S = pid_links S'" using bwd [OF s(1)] by blast
    then show ?thesis using link_wf_task [OF wf, of s S ty q] s(2) by simp
  qed
  moreover have "distinct (p_tasks P ty) \<and> (\<forall>t \<in> set (p_tasks P ty). \<exists>T. k_tasks k' t = Some T \<and> pid_links T ty = Some q)"
    if "k_pids k q = Some P" for q P ty
    using link_wf_pid [OF wf that, of ty] fwd by simp
  ultimately show ?thesis unfolding link_wf_def p by blast
qed

text \<open>The states after a link was added, deleted and handed over.\<close>

definition linked :: "taddr \<Rightarrow> pid_type \<Rightarrow> paddr \<Rightarrow> 'sl kernel \<Rightarrow> 'sl kernel" where
  "linked t ty p k = k\<lparr>k_pids := (k_pids k)(p := map_option (\<lambda>P. P\<lparr>p_tasks := (p_tasks P)(ty := t # p_tasks P ty)\<rparr>) (k_pids k p)),
     k_tasks := (k_tasks k)(t := map_option (\<lambda>T. T\<lparr>pid_links := (pid_links T)(ty := Some p)\<rparr>) (k_tasks k t))\<rparr>"

definition unlinked :: "taddr \<Rightarrow> pid_type \<Rightarrow> paddr \<Rightarrow> 'sl kernel \<Rightarrow> 'sl kernel" where
  "unlinked t ty p k = k\<lparr>k_pids := (k_pids k)(p := map_option (\<lambda>P. P\<lparr>p_tasks := (p_tasks P)(ty := remove1 t (p_tasks P ty))\<rparr>) (k_pids k p)),
     k_tasks := (k_tasks k)(t := map_option (\<lambda>T. T\<lparr>pid_links := (pid_links T)(ty := None)\<rparr>) (k_tasks k t))\<rparr>"

lemma hlist_add_head_eq:
  "k_pids k p = Some P \<Longrightarrow> k_tasks k t = Some T \<Longrightarrow> hlist_add_head t ty p k = Some (linked t ty p k)"
  by (simp add: hlist_add_head_def pid_upd_def task_upd_def linked_def)

lemma hlist_del_eq:
  "k_pids k p = Some P \<Longrightarrow> k_tasks k t = Some T \<Longrightarrow> pid_links T ty = Some p \<Longrightarrow> hlist_del t ty k = Some (unlinked t ty p k)"
  by (simp add: hlist_del_def pid_upd_def task_upd_def unlinked_def)

lemma linked_wf:
  assumes wf: "link_wf k" and P: "k_pids k p = Some P" and T: "k_tasks k t = Some T" "pid_links T ty = None"
  shows "link_wf (linked t ty p k)"
proof -
  have fresh: "t \<notin> set (p_tasks Q ty)" if "k_pids k q = Some Q" for q Q
    using link_wf_pid [OF wf that, of ty] T by auto
  have "distinct (p_tasks Q ty') \<and> (\<forall>s \<in> set (p_tasks Q ty'). \<exists>S. k_tasks (linked t ty p k) s = Some S \<and> pid_links S ty' = Some q)"
    if "k_pids (linked t ty p k) q = Some Q" for q Q ty'
    using that link_wf_pid [OF wf, of q] fresh [of q] P T
    by (cases "q = p"; cases "ty' = ty") (fastforce simp: linked_def)+
  moreover have "\<exists>Q. k_pids (linked t ty p k) q = Some Q \<and> s \<in> set (p_tasks Q ty')"
    if "k_tasks (linked t ty p k) s = Some S" "pid_links S ty' = Some q" for s S ty' q
    using that link_wf_task [OF wf, of s _ ty' q] P T
    by (cases "s = t"; cases "ty' = ty"; cases "q = p") (auto simp: linked_def)
  ultimately show ?thesis unfolding link_wf_def by blast
qed

lemma unlinked_wf:
  assumes wf: "link_wf k" and T: "k_tasks k t = Some T" "pid_links T ty = Some p"
  shows "link_wf (unlinked t ty p k)"
proof -
  obtain P where P: "k_pids k p = Some P" "t \<in> set (p_tasks P ty)" using link_wf_task [OF wf T] by blast
  have only: "q = p" if "k_pids k q = Some Q" "t \<in> set (p_tasks Q ty)" for q Q
    using link_wf_pid [OF wf that(1), of ty] that(2) T by auto
  have "distinct (p_tasks Q ty') \<and> (\<forall>s \<in> set (p_tasks Q ty'). \<exists>S. k_tasks (unlinked t ty p k) s = Some S \<and> pid_links S ty' = Some q)"
    if "k_pids (unlinked t ty p k) q = Some Q" for q Q ty'
    using that link_wf_pid [OF wf, of q _ ty'] only [of q] P T
    by (cases "q = p"; cases "ty' = ty") (fastforce simp: unlinked_def)+
  moreover have "\<exists>Q. k_pids (unlinked t ty p k) q = Some Q \<and> s \<in> set (p_tasks Q ty')"
    if "k_tasks (unlinked t ty p k) s = Some S" "pid_links S ty' = Some q" for s S ty' q
    using that link_wf_task [OF wf, of s _ ty' q] P T
    by (cases "s = t"; cases "ty' = ty"; cases "q = p") (auto simp: unlinked_def)
  ultimately show ?thesis unfolding link_wf_def by blast
qed

text \<open>\<^verbatim>\<open>attach_pid\<close> puts the task at the head of its list, where \<^verbatim>\<open>pid_task\<close> finds it.\<close>

lemma attach_pid_ok:
  assumes wf: "link_wf k" and ptr: "task_pid_ptr t ty k = Some (Some p)" and P: "k_pids k p = Some P"
    and T: "k_tasks k t = Some T" "pid_links T ty = None"
  shows "attach_pid t ty k = Some (linked t ty p k)" and "link_wf (linked t ty p k)"
    and "pid_task (Some p) ty (linked t ty p k) = Some (Some t)"
proof -
  show "attach_pid t ty k = Some (linked t ty p k)" using ptr hlist_add_head_eq [OF P T(1)] by (simp add: attach_pid_def)
  show "link_wf (linked t ty p k)" by (rule linked_wf [OF wf P T])
  show "pid_task (Some p) ty (linked t ty p k) = Some (Some t)" using P by (simp add: pid_task_def linked_def)
qed

text \<open>\<^verbatim>\<open>transfer_pid\<close>: the new task takes the place of the old one in the list.\<close>

definition replaced :: "taddr \<Rightarrow> taddr \<Rightarrow> pid_type \<Rightarrow> paddr \<Rightarrow> 'sl kernel \<Rightarrow> 'sl kernel" where
  "replaced t t' ty p k = k\<lparr>k_pids := (k_pids k)(p := map_option (\<lambda>P. P\<lparr>p_tasks := (p_tasks P)(ty :=
       map (\<lambda>s. if s = t then t' else s) (p_tasks P ty))\<rparr>) (k_pids k p)),
     k_tasks := (k_tasks k)(t := map_option (\<lambda>T. T\<lparr>pid_links := (pid_links T)(ty := None)\<rparr>) (k_tasks k t),
       t' := map_option (\<lambda>T. T\<lparr>pid_links := (pid_links T)(ty := Some p)\<rparr>) (k_tasks k t'))\<rparr>"

lemma replaced_wf:
  assumes wf: "link_wf k" and T: "k_tasks k t = Some T" "pid_links T ty = Some p"
    and T': "k_tasks k t' = Some T'" "pid_links T' ty = None" "t \<noteq> t'"
  shows "link_wf (replaced t t' ty p k)"
proof -
  obtain P where P: "k_pids k p = Some P" "t \<in> set (p_tasks P ty)" using link_wf_task [OF wf T] by blast
  have only: "q = p" if "k_pids k q = Some Q" "t \<in> set (p_tasks Q ty)" for q Q
    using link_wf_pid [OF wf that(1), of ty] that(2) T by auto
  have fresh: "t' \<notin> set (p_tasks Q ty)" if "k_pids k q = Some Q" for q Q
    using link_wf_pid [OF wf that, of ty] T' by auto
  have "distinct (map (\<lambda>s. if s = t then t' else s) (p_tasks P ty))"
    using link_wf_pid [OF wf P(1), of ty] fresh [OF P(1)] by (auto simp: distinct_map inj_on_def)
  then have "distinct (p_tasks Q ty') \<and> (\<forall>s \<in> set (p_tasks Q ty'). \<exists>S. k_tasks (replaced t t' ty p k) s = Some S \<and> pid_links S ty' = Some q)"
    if "k_pids (replaced t t' ty p k) q = Some Q" for q Q ty'
    using that link_wf_pid [OF wf, of q _ ty'] only [of q] fresh [of q] P T T'
    by (cases "q = p"; cases "ty' = ty") (fastforce simp: replaced_def)+
  moreover have "\<exists>Q. k_pids (replaced t t' ty p k) q = Some Q \<and> s \<in> set (p_tasks Q ty')"
    if "k_tasks (replaced t t' ty p k) s = Some S" "pid_links S ty' = Some q" for s S ty' q
    using that link_wf_task [OF wf, of s _ ty' q] P T T'
    by (cases "s = t"; cases "s = t'"; cases "ty' = ty"; cases "q = p") (auto simp: replaced_def)
  ultimately show ?thesis unfolding link_wf_def by blast
qed

lemma transfer_pid_ok:
  assumes wf: "link_wf k" and T: "k_tasks k t = Some T" "pid_links T ty = Some p"
    and T': "k_tasks k t' = Some T'" "pid_links T' ty = None" "t \<noteq> t'"
  shows "\<exists>k'. transfer_pid t t' ty k = Some k' \<and> link_wf k' \<and> k_pids k' = k_pids (replaced t t' ty p k) \<and>
     (\<exists>N. k_tasks k' t' = Some N \<and> pid_links N ty = Some p \<and> (ty = PIDTYPE_PID \<longrightarrow> thread_pid N = thread_pid T))"
proof -
  obtain P where P: "k_pids k p = Some P" using link_wf_task [OF wf T] by blast
  define N where "N = (if ty = PIDTYPE_PID then T'\<lparr>thread_pid := thread_pid T\<rparr> else T')"
  define k1 where "k1 = k\<lparr>k_tasks := (k_tasks k)(t' \<mapsto> N)\<rparr>"
  have N: "pid_links N = pid_links T'" by (simp add: N_def)
  have pre: "(if ty = PIDTYPE_PID then do { T \<leftarrow> k_tasks k t; task_upd k t' (\<lambda>N. N\<lparr>thread_pid := thread_pid T\<rparr>) } else Some k) = Some k1"
    using T(1) T'(1) by (auto simp: task_upd_def k1_def N_def map_upd_triv)
  have wf1: "link_wf k1" by (rule link_wf_links [OF wf]) (use T'(1) N in \<open>simp_all add: k1_def\<close>)
  have t1: "k_tasks k1 t = Some T" "k_tasks k1 t' = Some N" using T T' by (auto simp: k1_def)
  have "hlist_replace t t' ty k1 = Some (replaced t t' ty p k1)"
    using T(2) t1 T'(3) P by (simp add: hlist_replace_def pid_upd_def task_upd_def replaced_def k1_def fun_upd_twist)
  then have "transfer_pid t t' ty k = Some (replaced t t' ty p k1)" using pre by (simp add: transfer_pid_def)
  moreover have "link_wf (replaced t t' ty p k1)"
    using replaced_wf [OF wf1 t1(1) T(2) t1(2) _ T'(3)] N T'(2) by simp
  moreover have "k_pids (replaced t t' ty p k1) = k_pids (replaced t t' ty p k)" by (simp add: replaced_def k1_def)
  moreover have "\<exists>M. k_tasks (replaced t t' ty p k1) t' = Some M \<and> pid_links M ty = Some p \<and>
      (ty = PIDTYPE_PID \<longrightarrow> thread_pid M = thread_pid T)"
    using t1 by (simp add: replaced_def N_def)
  ultimately show ?thesis by blast
qed

section \<open>Leaving a pid\<close>

text \<open>Lists of tasks do not matter to the invariant.\<close>

definition pid_view :: "pid \<Rightarrow> nat \<times> nat \<times> upid option list" where
  "pid_view P = (p_count P, p_level P, p_numbers P)"

definition pids_same :: "'sl kernel \<Rightarrow> 'sl kernel \<Rightarrow> bool" where
  "pids_same k k' \<longleftrightarrow> (\<forall>p. map_option pid_view (k_pids k p) = map_option pid_view (k_pids k' p)) \<and>
     k_ns k' = k_ns k \<and> k_brk k' = k_brk k"

lemma pids_same_at:
  assumes "pids_same k k'" and "k_pids k p = Some P"
  shows "\<exists>P'. k_pids k' p = Some P' \<and> p_count P' = p_count P \<and> p_level P' = p_level P \<and> p_numbers P' = p_numbers P"
proof -
  have "map_option pid_view (k_pids k p) = map_option pid_view (k_pids k' p)" using assms(1) by (simp add: pids_same_def)
  with assms(2) show ?thesis by (cases "k_pids k' p") (auto simp: pid_view_def)
qed

lemma pids_same_sym: "pids_same k k' \<Longrightarrow> pids_same k' k"
  by (simp add: pids_same_def)

lemma pids_same_live: "pids_same k k' \<Longrightarrow> live k' = live k"
  by (simp add: pids_same_def live_def fun_eq_iff)

lemma pids_same_kinv:
  assumes s: "pids_same k k'" and ki: "kinv I A k"
  shows "kinv I A k'" and "lookup_in A k' = lookup_in A k"
proof -
  have ns: "k_ns k' = k_ns k" "k_brk k' = k_brk k" using s by (simp_all add: pids_same_def)
  have same: "ns_same k k'" by (rule ns_same_ns) (simp add: ns)
  show look: "lookup_in A k' = lookup_in A k" by (rule lookup_in_same [OF same])
  have has: "pid_has k' p l u" if "pid_has k p l u" for p l u
  proof -
    from that obtain P where "k_pids k p = Some P" "0 < p_count P" "pid_number P l = Some u" by (auto simp: pid_has_def)
    moreover from pids_same_at [OF s this(1)] obtain P' where "k_pids k' p = Some P'" "p_count P' = p_count P"
      "p_numbers P' = p_numbers P" by blast
    ultimately show ?thesis by (auto simp: pid_has_def pid_number_def split: if_splits)
  qed
  have "pids_wf k'"
    unfolding pids_wf_def
  proof (intro allI impI)
    fix p P' assume "k_pids k' p = Some P'"
    from pids_same_at [OF pids_same_sym [OF s] this] obtain P where
      "k_pids k p = Some P" "p_level P = p_level P'" "p_numbers P = p_numbers P'" by blast
    moreover from this(1) ki have "p < k_brk k" "length (p_numbers P) = Suc (p_level P)" by (auto simp: kinv_def pids_wf_def)
    ultimately show "p < k_brk k' \<and> length (p_numbers P') = Suc (p_level P')" using ns(2) by simp
  qed
  moreover have "ns_wf I k'" using ki ns_same_wf [OF same] by (simp add: kinv_def)
  moreover have "ns_bound k'" using ki ns by (simp add: kinv_def ns_bound_def)
  moreover have "index_wf A k'" using ki by (auto simp: kinv_def pids_same_live [OF s] intro!: index_wf_transfer [OF _ look] has)
  ultimately show "kinv I A k'" by (simp add: kinv_def)
qed

lemma pids_same_numbered:
  assumes s: "pids_same k k'" and n: "pid_numbered k p vs"
  shows "pid_numbered k' p vs"
proof -
  obtain P where "k_pids k p = Some P" "p_numbers P = map Some vs" "length vs = Suc (p_level P)"
    using n by (auto simp: pid_numbered_def)
  with pids_same_at [OF s this(1)] n show ?thesis by (auto simp: pid_numbered_def pids_same_live [OF s])
qed

lemma pid_types_all: "(\<exists>ty \<in> set pid_types. Q ty) \<longleftrightarrow> (\<exists>ty. Q ty)"
  by (auto simp: pid_types_def) (metis pid_type.exhaust)

text \<open>The pointer of the task after it has left the pid.\<close>

lemma set_ptr_ok:
  assumes ptr: "task_pid_ptr t ty k = Some x" and T: "k_tasks k t = Some T"
  shows "\<exists>k'. set_task_pid_ptr t ty new (unlinked t ty p k) = Some k' \<and> task_pid_ptr t ty k' = Some new \<and>
     k_pids k' = k_pids (unlinked t ty p k) \<and> k_ns k' = k_ns k \<and> k_brk k' = k_brk k \<and> k_rcu k' = k_rcu k \<and> k_events k' = k_events k \<and>
     (\<forall>s. map_option pid_links (k_tasks k' s) = map_option pid_links (k_tasks (unlinked t ty p k) s))"
  using assms
  by (cases "ty = PIDTYPE_PID") (auto simp: set_task_pid_ptr_def task_pid_ptr_def unlinked_def task_upd_def bind_eq_Some_conv)

context pid_kernel
begin

text \<open>
  \<^verbatim>\<open>__change_pid\<close>: the task leaves the list and its pointer is replaced; the pid is freed exactly if no
  task of any type is left.
\<close>

theorem change_pid_internal_ok:
  assumes ki: "kinv inv abs k" and wf: "link_wf k" and pn: "pid_numbered k p vs"
    and T: "k_tasks k t = Some T" "pid_links T ty = Some p" and ptr: "task_pid_ptr t ty k = Some (Some p)"
  shows "\<exists>k' P'. change_pid_internal ops t ty new k = Some k' \<and> kinv inv abs k' \<and> link_wf k' \<and>
     task_pid_ptr t ty k' = Some new \<and> k_pids k' = k_pids (unlinked t ty p k) \<and> k_pids k' p = Some P' \<and>
     t \<notin> set (p_tasks P' ty) \<and>
     (if \<exists>ty'. p_tasks P' ty' \<noteq> [] then lookup_in abs k' = lookup_in abs k \<and> k_rcu k' = k_rcu k
      else k_rcu k' = k_rcu k @ [DelayedPutPid p] \<and> (\<forall>a nr. lookup_in abs k' a nr =
         (if \<lparr>u_nr = nr, u_ns = a\<rparr> \<in> set vs then None else lookup_in abs k a nr)))"
proof -
  obtain P where P: "k_pids k p = Some P" "t \<in> set (p_tasks P ty)" using link_wf_task [OF wf T] by blast
  let ?u = "unlinked t ty p k" and ?P = "P\<lparr>p_tasks := (p_tasks P)(ty := remove1 t (p_tasks P ty))\<rparr>"
  have del: "hlist_del t ty k = Some ?u" by (rule hlist_del_eq [OF P(1) T])
  obtain k2 where k2: "set_task_pid_ptr t ty new ?u = Some k2" "task_pid_ptr t ty k2 = Some new" "k_pids k2 = k_pids ?u"
     "k_ns k2 = k_ns k" "k_brk k2 = k_brk k" "k_rcu k2 = k_rcu k" "k_events k2 = k_events k"
     "\<forall>s. map_option pid_links (k_tasks k2 s) = map_option pid_links (k_tasks ?u s)"
    using set_ptr_ok [OF ptr T(1)] by blast
  have p2: "k_pids k2 p = Some ?P" using k2(3) P(1) by (simp add: unlinked_def)
  have s: "pids_same k k2" using k2(3-5) by (auto simp: pids_same_def unlinked_def pid_view_def [abs_def] option.map_comp o_def)
  have ki2: "kinv inv abs k2" and look2: "lookup_in abs k2 = lookup_in abs k" using pids_same_kinv [OF s ki] by auto
  have wf2: "link_wf k2" by (rule link_wf_links [OF unlinked_wf [OF wf T] k2(3,8)])
  have nt: "t \<notin> set (p_tasks ?P ty)" using link_wf_pid [OF wf P(1), of ty] by simp
  have ch: "change_pid_internal ops t ty new k = (if \<exists>ty'. p_tasks ?P ty' \<noteq> [] then Some k2 else free_pid ops p k2)"
    using ptr del k2(1) p2 unfolding change_pid_internal_def pid_types_all by simp
  show ?thesis
  proof (cases "\<exists>ty'. p_tasks ?P ty' \<noteq> []")
    case True
    then show ?thesis using ch ki2 wf2 k2(2,3,6) p2 nt look2 by (intro exI [of _ k2] exI [of _ ?P]) simp
  next
    case False
    obtain k' where k': "free_pid ops p k2 = Some k'" "kinv inv abs k'" "free_done abs k2 p vs k'"
      using free_pid_ok [OF ki2 pids_same_numbered [OF s pn]] by blast
    have f: "k_pids k' = k_pids k2" "k_tasks k' = k_tasks k2" "k_rcu k' = k_rcu k @ [DelayedPutPid p]" "k_signals k' = k_signals k2"
       "\<forall>a nr. lookup_in abs k' a nr = (if \<lparr>u_nr = nr, u_ns = a\<rparr> \<in> set vs then None else lookup_in abs k a nr)"
      using k'(3) k2(6) look2 by (auto simp: free_done_def)
    have "task_pid_ptr t ty k' = Some new" using k2(2) unfolding task_pid_ptr_def f(2,4) .
    then show ?thesis using False ch k'(1,2) link_wf_cong [OF wf2 f(1,2)] f k2(3) p2 nt
      by (intro exI [of _ k'] exI [of _ ?P]) simp
  qed
qed

end

section \<open>Numbers and references\<close>

definition set_pid :: "paddr \<Rightarrow> pid \<Rightarrow> 'sl kernel \<Rightarrow> 'sl kernel" where
  "set_pid p P k = k\<lparr>k_pids := (k_pids k)(p \<mapsto> P)\<rparr>"

lemma set_pid_simps [simp]:
  "set_pid p P (set_pid p Q k) = set_pid p P k" "set_pid p P (tick k) = tick (set_pid p P k)"
  "k_pids (set_pid p P k) = (k_pids k)(p \<mapsto> P)" "k_tick (set_pid p P k) = k_tick k" "k_ns (set_pid p P k) = k_ns k"
  "k_tasks (set_pid p P k) = k_tasks k" "k_pids (tick k) = k_pids k" "k_ns (tick k) = k_ns k" "k_tasks (tick k) = k_tasks k"
  by (simp_all add: set_pid_def tick_def)

lemma set_pid_self: "k_pids k p = Some P \<Longrightarrow> set_pid p P k = k"
  by (simp add: set_pid_def map_upd_triv)

lemma pid_number_count [simp]: "pid_number (P\<lparr>p_count := c\<rparr>) i = pid_number P i"
  by (simp add: pid_number_def)

lemma get_pid_eq:
  assumes "k_pids k p = Some P" and "0 < p_count P"
  shows "get_pid (Some p) k = Some (Some p, set_pid p (P\<lparr>p_count := Suc (p_count P)\<rparr>) k)"
  using assms by (simp add: set_pid_def get_pid_def refcount_inc_def pid_upd_def)

lemma put_pid_eq:
  assumes "k_pids k p = Some P" and "1 < p_count P" and "pid_number P (p_level P) = Some u"
  shows "put_pid ops (Some p) k = Some (set_pid p (P\<lparr>p_count := p_count P - 1\<rparr>) k)"
  using assms by (simp add: set_pid_def put_pid_def refcount_dec_def pid_upd_def)

lemma pid_numbered_last: "pid_numbered k p vs \<Longrightarrow> k_pids k p = Some P \<Longrightarrow> \<exists>u. pid_number P (p_level P) = Some u"
  by (auto simp: pid_numbered_def pid_number_def)

text \<open>The value of \<^verbatim>\<open>pidfd_open\<close> for the number \<open>pid\<close>, of which a lookup returns \<open>found\<close>.\<close>

definition pidfd_code :: "kenv \<Rightarrow> int \<Rightarrow> 32 word \<Rightarrow> paddr option \<Rightarrow> 'sl kernel \<Rightarrow> int" where
  "pidfd_code e pid flags found k =
     (if flags \<noteq> 0 \<or> pid \<le> 0 then - EINVAL
      else (case found of None \<Rightarrow> - ESRCH
        | Some p \<Rightarrow> (case k_pids k p of None \<Rightarrow> 0
            | Some P \<Rightarrow> if p_tasks P PIDTYPE_TGID = [] then - EINVAL else anon_inode_getfd e (k_tick k))))"

text \<open>The pids after \<^verbatim>\<open>pidfd_open\<close>: a descriptor holds one reference, an error none.\<close>

definition pidfd_pids :: "int \<Rightarrow> paddr option \<Rightarrow> 'sl kernel \<Rightarrow> paddr \<Rightarrow> pid option" where
  "pidfd_pids fd found k = (case found of None \<Rightarrow> k_pids k
     | Some p \<Rightarrow> if fd < 0 then k_pids k
         else (k_pids k)(p := map_option (\<lambda>P. P\<lparr>p_count := Suc (p_count P)\<rparr>) (k_pids k p)))"

lemma pidfd_create_eq:
  assumes P: "k_pids k p = Some P" "0 < p_count P" "pid_number P (p_level P) = Some u"
  shows "pidfd_create ops e p k = (let fd = anon_inode_getfd e (k_tick k) in
     Some (fd, tick (set_pid p (P\<lparr>p_count := (if fd < 0 then p_count P else Suc (p_count P))\<rparr>) k)))"
proof -
  let ?P = "P\<lparr>p_count := Suc (p_count P)\<rparr>"
  have "put_pid ops (Some p) (tick (set_pid p ?P k)) = Some (tick (set_pid p P k))"
    using put_pid_eq [of "tick (set_pid p ?P k)" p ?P u ops] P by simp
  then show ?thesis using get_pid_eq [OF P(1,2)] by (simp add: pidfd_create_def Let_def)
qed

context pid_kernel
begin

lemma find_pid_ns_eq:
  assumes "kinv inv abs k" and "live k ns n"
  shows "find_pid_ns ops nr ns k = Some (lookup_in abs k ns nr)"
  using assms lookup [of "pid_sl n" nr] lookup_in_live [OF assms(2), of abs nr]
  by (auto simp: find_pid_ns_def kinv_def ns_wf_def live_def)

lemma lookup_has:
  assumes "kinv inv abs k" and "live k ns n" and "lookup_in abs k ns nr = Some p"
  obtains P where "k_pids k p = Some P" "0 < p_count P" "pid_number P (ns_level n) = Some \<lparr>u_nr = nr, u_ns = ns\<rparr>"
    "ns_level n \<le> p_level P"
proof -
  obtain P where P: "k_pids k p = Some P" "0 < p_count P" "pid_number P (ns_level n) = Some \<lparr>u_nr = nr, u_ns = ns\<rparr>"
    using assms unfolding kinv_def index_wf_iff pid_has_def by metis
  moreover have "length (p_numbers P) = Suc (p_level P)" using assms(1) P(1) by (auto simp: kinv_def pids_wf_def)
  ultimately have "ns_level n \<le> p_level P" by (auto simp: pid_number_def split: if_splits)
  with P that show ?thesis by blast
qed

text \<open>The number of a pid that was found by a number is that number.\<close>

theorem find_then_nr:
  assumes ki: "kinv inv abs k" and n: "live k ns n" and f: "find_pid_ns ops nr ns k = Some (Some p)"
  shows "pid_nr_ns (Some p) ns k = Some nr"
proof -
  have "lookup_in abs k ns nr = Some p" using f find_pid_ns_eq [OF ki n] by simp
  then obtain P where "k_pids k p = Some P" "pid_number P (ns_level n) = Some \<lparr>u_nr = nr, u_ns = ns\<rparr>" "ns_level n \<le> p_level P"
    using lookup_has [OF ki n] by blast
  with n show ?thesis by (simp add: pid_nr_ns_def live_def)
qed

theorem pidfd_open_ok:
  assumes ki: "kinv inv abs k" and act: "task_active_pid_ns e (k_current k) k = Some (Some a)" and n: "live k a n"
    and pn: "\<And>p. lookup_in abs k a pid = Some p \<Longrightarrow> \<exists>vs. pid_numbered k p vs"
  shows "\<exists>k'. pidfd_open ops e pid flags k = Some (pidfd_code e pid flags (lookup_in abs k a pid) k, k') \<and>
     k_ns k' = k_ns k \<and> k_tasks k' = k_tasks k \<and>
     k_pids k' = (if flags \<noteq> 0 \<or> pid \<le> 0 then k_pids k
        else pidfd_pids (pidfd_code e pid flags (lookup_in abs k a pid) k) (lookup_in abs k a pid) k)"
proof (cases "flags \<noteq> 0 \<or> pid \<le> 0")
  case True
  then show ?thesis by (auto simp: pidfd_open_def pidfd_code_def)
next
  case False
  have fv: "find_vpid ops e pid k = Some (lookup_in abs k a pid)"
    using act find_pid_ns_eq [OF ki n] by (simp add: find_vpid_def)
  show ?thesis
  proof (cases "lookup_in abs k a pid")
    case None
    with fv False show ?thesis by (auto simp: pidfd_open_def find_get_pid_def get_pid_def pidfd_code_def pidfd_pids_def)
  next
    case (Some p)
    obtain P where P: "k_pids k p = Some P" "0 < p_count P" using lookup_has [OF ki n Some] by blast
    obtain u where u: "pid_number P (p_level P) = Some u" using pn [OF Some] pid_numbered_last [OF _ P(1)] by blast
    let ?P = "P\<lparr>p_count := Suc (p_count P)\<rparr>" and ?fd = "anon_inode_getfd e (k_tick k)"
    let ?k = "set_pid p ?P k"
    have get: "find_get_pid ops e pid k = Some (Some p, ?k)"
      using fv get_pid_eq [OF P] Some by (simp add: find_get_pid_def)
    have putb: "put_pid ops (Some p) ?k = Some k"
      using put_pid_eq [of ?k p ?P u ops] P u by (simp add: set_pid_self)
    have cr: "pidfd_create ops e p ?k = Some (?fd, tick (set_pid p
        (P\<lparr>p_count := (if ?fd < 0 then Suc (p_count P) else Suc (Suc (p_count P)))\<rparr>) k))"
      using pidfd_create_eq [of ?k p ?P u ops e] u by (simp add: Let_def)
    have put: "put_pid ops (Some p) (tick (set_pid p (P\<lparr>p_count := Suc c\<rparr>) k)) = Some (tick (set_pid p (P\<lparr>p_count := c\<rparr>) k))"
      if "0 < c" for c
      using put_pid_eq [of "tick (set_pid p (P\<lparr>p_count := Suc c\<rparr>) k)" p "P\<lparr>p_count := Suc c\<rparr>" u ops] u that by simp
    show ?thesis
    proof (cases "p_tasks P PIDTYPE_TGID = []")
      case True
      then have "pidfd_open ops e pid flags k = Some (- EINVAL, k)"
        using False get putb by (simp add: pidfd_open_def pid_task_def)
      with True False Some P show ?thesis by (auto simp: pidfd_code_def pidfd_pids_def map_upd_triv)
    next
      case leader: False
      then have "pid_task (Some p) PIDTYPE_TGID ?k \<noteq> Some None" by (auto simp: pid_task_def split: list.splits)
      then have "pidfd_open ops e pid flags k = Some (?fd, tick (set_pid p
          (P\<lparr>p_count := (if ?fd < 0 then p_count P else Suc (p_count P))\<rparr>) k))"
        using False get cr put [of "p_count P"] put [of "Suc (p_count P)"] P leader
        by (auto simp: pidfd_open_def pid_task_def split: list.splits)
      with leader False Some P show ?thesis by (auto simp: pidfd_code_def pidfd_pids_def map_upd_triv)
    qed
  qed
qed

end

end
