(* ===== verification/Kernel_Reach.thy ===== *)
theory Kernel_Reach
  imports Pid_Ns_Guard Pid_Tasks_Correct
begin

text \<open>
  The kernel as a transition system: boot, then any interleaving of allocations, releases, creations
  of namespaces, shutdowns and writes to \<^verbatim>\<open>ns_last_pid\<close>.  Every reachable state satisfies the invariant,
  and no operation faults in it.
\<close>

section \<open>Steps\<close>

inductive kstep :: "'sl index_ops \<Rightarrow> 'sl \<Rightarrow> kenv \<Rightarrow> 'sl kernel \<Rightarrow> 'sl kernel \<Rightarrow> bool" for ops zero e where
  k_alloc: "live k ns n \<Longrightarrow> alloc_pid ops e ns k = Some (r, k') \<Longrightarrow> kstep ops zero e k k'"
| k_free: "k_pids k p = Some P \<Longrightarrow> free_pid ops p k = Some k' \<Longrightarrow> kstep ops zero e k k'"
| k_create: "live k ns n \<Longrightarrow> create_pid_namespace ops zero e user ns k = Some (r', k') \<Longrightarrow> kstep ops zero e k k'"
| k_disable: "live k ns n \<Longrightarrow> disable_pid_allocation ns k = Some k' \<Longrightarrow> kstep ops zero e k k'"
| k_ctl: "pid_ns_ctl_handler e write k = Some (c, k') \<Longrightarrow> kstep ops zero e k k'"

text \<open>The static data of \<^verbatim>\<open>pid.c\<close>; the initial task, user namespace and limits are parameters.\<close>

definition static_state :: "'sl \<Rightarrow> taddr \<Rightarrow> task \<Rightarrow> nat \<Rightarrow> int \<Rightarrow> int \<Rightarrow> 'sl kernel" where
  "static_state zero init_task T init_user_ns pid_max_default pid_max_limit =
     \<lparr>k_ns = [init_pid_ns \<mapsto> init_pid_ns_struct zero init_task init_user_ns], k_pids = [0 \<mapsto> init_struct_pid],
      k_tasks = [init_task \<mapsto> T], k_signals = Map.empty, k_nsproxies = Map.empty, k_brk = 1, k_tick = 0,
      k_current = init_task, pid_max = pid_max_default, pid_max_min = RESERVED_PIDS + 1, pid_max_max = pid_max_limit,
      pid_cache = Map.empty, k_rcu = [], k_events = []\<rparr>"

inductive kreach :: "'sl index_ops \<Rightarrow> 'sl \<Rightarrow> kenv \<Rightarrow> 'sl kernel \<Rightarrow> 'sl kernel \<Rightarrow> bool" for ops zero e s where
  boot: "pid_idr_init ops e s = Some k \<Longrightarrow> kreach ops zero e s k"
| step: "kreach ops zero e s k \<Longrightarrow> kstep ops zero e k k' \<Longrightarrow> kreach ops zero e s k'"

section \<open>The invariant of the system\<close>

definition ksys :: "('sl \<Rightarrow> bool) \<Rightarrow> ('sl \<Rightarrow> idx) \<Rightarrow> 'sl kernel \<Rightarrow> bool" where
  "ksys I A k \<longleftrightarrow> kinv I A k \<and> (\<exists>h. ns_ok I h k) \<and> (\<forall>p P. k_pids k p = Some P \<longrightarrow> (\<exists>vs. pid_numbered k p vs))"

text \<open>Steps that keep the hierarchy and drop no reference.\<close>

definition ns_keeps :: "'sl kernel \<Rightarrow> 'sl kernel \<Rightarrow> bool" where
  "ns_keeps k k' \<longleftrightarrow> ns_skel k' = ns_skel k \<and> (\<forall>a m. k_ns k a = Some m \<longrightarrow>
     (\<exists>m'. k_ns k' a = Some m' \<and> kref m \<le> kref m' \<and> (kref m = 0 \<longrightarrow> kref m' = 0)))"

lemma ns_keeps_krefs:
  assumes "ns_skel k' = ns_skel k" and "ns_krefs k' = ns_krefs k"
  shows "ns_keeps k k'"
  unfolding ns_keeps_def
proof (intro conjI allI impI)
  fix a m assume "k_ns k a = Some m"
  with assms(2) have "map_option kref (k_ns k' a) = Some (kref m)" by (metis ns_krefs_def option.simps(9))
  then show "\<exists>m'. k_ns k' a = Some m' \<and> kref m \<le> kref m' \<and> (kref m = 0 \<longrightarrow> kref m' = 0)" by auto
qed (rule assms(1))

lemma ns_keeps_alloc:
  assumes d: "alloc_done A k ns l p k'" and n: "live k ns n"
  shows "ns_keeps k k'"
  unfolding ns_keeps_def
proof (intro conjI allI impI)
  fix a m assume m: "k_ns k a = Some m"
  then obtain m' where m': "k_ns k' a = Some m'" "kref m' = kref m + ns_ref ns a" using d unfolding alloc_done_def by blast
  have "kref m' = 0" if "kref m = 0" using that m m'(2) n by (auto simp: ns_ref_def live_def)
  with m' show "\<exists>m'. k_ns k' a = Some m' \<and> kref m \<le> kref m' \<and> (kref m = 0 \<longrightarrow> kref m' = 0)" by auto
qed (use d in \<open>simp add: alloc_done_def\<close>)

lemma ns_skel_at:
  assumes "ns_skel k' = ns_skel k" and "k_ns k a = Some m" and "k_ns k' a = Some m'"
  shows "ns_level m' = ns_level m" and "ns_parent m' = ns_parent m"
proof -
  have "ns_skel k' a = ns_skel k a" by (simp add: assms(1))
  with assms(2,3) show "ns_level m' = ns_level m" "ns_parent m' = ns_parent m" by (simp_all add: ns_skel_def)
qed

lemma ns_keeps_live:
  assumes kp: "ns_keeps k k'" and n: "live k a n"
  shows "\<exists>n'. live k' a n' \<and> ns_level n' = ns_level n \<and> ns_parent n' = ns_parent n \<and> kref n \<le> kref n'"
proof -
  have na: "k_ns k a = Some n" "0 < kref n" using n by (auto simp: live_def)
  then obtain n' where "k_ns k' a = Some n'" "kref n \<le> kref n'" using kp by (auto simp: ns_keeps_def)
  with na ns_skel_at [OF _ na(1) this(1)] kp show ?thesis by (auto simp: live_def ns_keeps_def)
qed

lemma ns_keeps_back:
  assumes kp: "ns_keeps k k'" and n': "live k' a n'"
  shows "\<exists>n. live k a n \<and> ns_level n' = ns_level n \<and> ns_parent n' = ns_parent n \<and> kref n \<le> kref n'"
proof -
  have na: "k_ns k' a = Some n'" "0 < kref n'" using n' by (auto simp: live_def)
  have "ns_skel k' a = ns_skel k a" using kp by (simp add: ns_keeps_def)
  then obtain n where n: "k_ns k a = Some n" using na(1) by (cases "k_ns k a") (auto simp: ns_skel_def)
  then have "kref n \<le> kref n'" "kref n = 0 \<longrightarrow> kref n' = 0"
    using kp na(1) unfolding ns_keeps_def by fastforce+
  moreover have "ns_level n' = ns_level n" "ns_parent n' = ns_parent n"
    using kp ns_skel_at [OF _ n na(1)] by (auto simp: ns_keeps_def)
  ultimately show ?thesis using n na(2) by (auto simp: live_def)
qed

lemma ns_ok_keeps:
  assumes ok: "ns_ok I h k" and kp: "ns_keeps k k'" and wf: "ns_wf I k'" "ns_bound k'"
  shows "ns_ok I h k'"
proof -
  have "ns_children k' b = ns_children k b" for b
    using ns_keeps_live [OF kp] ns_keeps_back [OF kp] by (fastforce simp: ns_children_def)
  then have "ns_refs h k'" unfolding ns_refs_def
    using ns_keeps_back [OF kp] ns_refsD [OF ok] by (metis le_trans)
  moreover have "ns_root k'" unfolding ns_root_def
    using ns_keeps_back [OF kp] ok unfolding ns_ok_def ns_root_def by metis
  ultimately show ?thesis using wf by (simp add: ns_ok_def)
qed

lemma pid_numbered_keep:
  assumes "pid_numbered k p vs" and "k_pids k' p = k_pids k p" and "\<And>a n. live k a n \<Longrightarrow> \<exists>n'. live k' a n'"
  shows "pid_numbered k' p vs"
  using assms(1,2) assms(3) unfolding pid_numbered_def by metis

text \<open>A step that keeps the pids and the hierarchy.\<close>

lemma ksys_keeps:
  assumes ks: "ksys I A k" and ki: "kinv I A k'" and kp: "ns_keeps k k'"
    and new: "\<And>p P. k_pids k' p = Some P \<Longrightarrow> k_pids k' p \<noteq> k_pids k p \<Longrightarrow> \<exists>vs. pid_numbered k' p vs"
  shows "ksys I A k'"
proof -
  obtain h where "ns_ok I h k" using ks by (auto simp: ksys_def)
  then have "ns_ok I h k'" using ns_ok_keeps [OF _ kp] ki by (simp add: kinv_def)
  moreover have "\<exists>vs. pid_numbered k' p vs" if P: "k_pids k' p = Some P" for p P
  proof (cases "k_pids k' p = k_pids k p")
    case True
    then have "k_pids k p = Some P" using P by simp
    then obtain vs where "pid_numbered k p vs" using ks unfolding ksys_def by blast
    with pid_numbered_keep [OF this True] ns_keeps_live [OF kp] show ?thesis by blast
  qed (rule new [OF P])
  ultimately show ?thesis using ki by (auto simp: ksys_def)
qed

text \<open>Counters and cursors of a namespace.\<close>

lemma kinv_ns_fields:
  assumes ki: "kinv I A k" and n: "k_ns k a = Some n"
    and n': "kref n' = kref n" "pid_sl n' = pid_sl n" "ns_level n' = ns_level n" "ns_parent n' = ns_parent n"
  shows "kinv I A (k\<lparr>k_ns := (k_ns k)(a \<mapsto> n')\<rparr>)" and "ns_same k (k\<lparr>k_ns := (k_ns k)(a \<mapsto> n')\<rparr>)"
proof -
  let ?k = "k\<lparr>k_ns := (k_ns k)(a \<mapsto> n')\<rparr>"
  show same: "ns_same k ?k" using n n' by (auto simp: ns_same_def ns_view_def)
  have "index_wf A ?k"
    using ki index_wf_transfer [OF _ lookup_in_same [OF same] ns_same_level [OF same]]
    by (auto simp: kinv_def pid_has_def)
  moreover have "ns_bound ?k" using ki n by (intro ns_bound_dom [of ?k k]) (auto simp: kinv_def)
  ultimately show "kinv I A ?k" using ki ns_same_wf [OF same] by (simp add: kinv_def pids_wf_def)
qed

lemma ksys_ns_fields:
  assumes ks: "ksys I A k" and n: "k_ns k a = Some n"
    and n': "kref n' = kref n" "pid_sl n' = pid_sl n" "ns_level n' = ns_level n" "ns_parent n' = ns_parent n"
  shows "ksys I A (k\<lparr>k_ns := (k_ns k)(a \<mapsto> n')\<rparr>)"
proof -
  let ?k = "k\<lparr>k_ns := (k_ns k)(a \<mapsto> n')\<rparr>"
  have "kinv I A k" using ks by (simp add: ksys_def)
  note ki' = kinv_ns_fields(1) [OF this n n'] and same = kinv_ns_fields(2) [OF this n n']
  have "ns_krefs ?k = ns_krefs k" using n n' by (auto simp: ns_krefs_def fun_eq_iff)
  from ksys_keeps [OF ks ki' ns_keeps_krefs [OF ns_same_skel [OF same] this]] show ?thesis by simp
qed

lemma ns_dom_new:
  assumes "create_result e A k user b pn (ValidPtr a) k'" and "live k b pn"
  shows "k_ns k a = None" and "\<And>c n. live k c n \<Longrightarrow> \<exists>n'. live k' c n' \<and> ns_level n' = ns_level n \<and> pid_sl n' = pid_sl n"
    and "\<And>c n'. live k' c n' \<Longrightarrow> c \<noteq> a \<Longrightarrow> \<exists>n. live k c n \<and> ns_level n = ns_level n' \<and> pid_sl n = pid_sl n'"
    and "\<And>n'. live k' a n' \<Longrightarrow> A (pid_sl n') = Map.empty"
proof -
  obtain N where N: "k_ns k' = (if b = init_pid_ns then k_ns k else (k_ns k)(b \<mapsto> pn\<lparr>kref := Suc (kref pn)\<rparr>))(a \<mapsto> N)"
     "A (pid_sl N) = Map.empty" "k_ns k a = None" using assms(1) by (auto simp: create_result_def)
  then show "k_ns k a = None" by simp
  show "\<exists>n'. live k' c n' \<and> ns_level n' = ns_level n \<and> pid_sl n' = pid_sl n" if "live k c n" for c n
    using that N assms(2) by (cases "c = b \<and> b \<noteq> init_pid_ns") (auto simp: live_def)
  show "\<exists>n. live k c n \<and> ns_level n = ns_level n' \<and> pid_sl n = pid_sl n'" if "live k' c n'" "c \<noteq> a" for c n'
    using that N assms(2) by (auto simp: live_def split: if_splits)
  show "A (pid_sl n') = Map.empty" if "live k' a n'" for n' using that N by (simp add: live_def)
qed

lemma kinv_create:
  assumes ki: "kinv I A k" and b: "live k b pn" and r: "create_result e A k user b pn r k'" and ok: "ns_ok I h k'"
    and brk: "k_brk k \<le> k_brk k'"
  shows "kinv I A k'" and "\<And>c n. live k c n \<Longrightarrow> \<exists>n'. live k' c n'" and "k_pids k' = k_pids k"
proof -
  show pids: "k_pids k' = k_pids k" using r by (simp add: create_result_def)
  have pw: "pids_wf k'" using ki pids brk by (fastforce simp: kinv_def pids_wf_def)
  have has: "pid_has k' p l u = pid_has k p l u" for p l u by (simp add: pid_has_def pids)
  have "index_wf A k' \<and> (\<forall>c n. live k c n \<longrightarrow> (\<exists>n'. live k' c n'))"
  proof (cases r)
    case NullPtr
    with r show ?thesis by (simp add: create_result_def)
  next
    case (ErrPtr c)
    then have "k_ns k' = k_ns k" using r by (simp add: create_result_def)
    then have "live k' = live k" by (simp add: live_def fun_eq_iff)
    with ki show ?thesis by (auto simp: kinv_def index_wf_def has)
  next
    case (ValidPtr a)
    note new = ns_dom_new [OF r [unfolded ValidPtr] b]
    have "index_wf A k'" unfolding index_wf_def has
    proof (intro allI impI)
      fix c n' nr p assume c: "live k' c n'" "idx_get (A (pid_sl n')) nr = Some p"
      then have "c \<noteq> a" using new(4) by (auto simp: idx_get_def)
      from new(3) [OF c(1) this] obtain n where n: "live k c n" "ns_level n = ns_level n'" "pid_sl n = pid_sl n'" by blast
      then have "pid_has k p (ns_level n) \<lparr>u_nr = nr, u_ns = c\<rparr>" using ki c(2) unfolding kinv_def index_wf_def by metis
      with n(2) show "pid_has k p (ns_level n') \<lparr>u_nr = nr, u_ns = c\<rparr>" by simp
    qed
    with new(2) show ?thesis by blast
  qed
  with ok pw show "kinv I A k'" "\<And>c n. live k c n \<Longrightarrow> \<exists>n'. live k' c n'" by (auto simp: kinv_def ns_ok_def)
qed

section \<open>Reachable states\<close>

context ns_kernel
begin

lemma ksys_step:
  assumes ks: "ksys inv abs k" and st: "kstep ops zero e k k'"
    and draws: "\<forall>t. good (e_draw e t) \<and> nofail_promise (e_draw e t)"
  shows "ksys inv abs k'"
  using st
proof (cases rule: kstep.cases)
  case (k_alloc ns n r)
  have ki: "kinv inv abs k" using ks by (simp add: ksys_def)
  have res: "kinv inv abs k'" "alloc_result e abs k ns n r k'"
    using alloc_pid_ok [OF ki k_alloc(1)] k_alloc(2) draws by fastforce+
  show ?thesis
  proof (cases "\<exists>p. r = ValidPtr p")
    case True
    then obtain p where d: "alloc_done abs k ns (ns_level n) p k'" using res(2) by (auto simp: alloc_result_def)
    have "q = p" if "k_pids k' q \<noteq> k_pids k q" for q using d that by (auto simp: alloc_done_def split: if_splits)
    then show ?thesis
      using ksys_keeps [OF ks res(1) ns_keeps_alloc [OF d k_alloc(1)]] alloc_done_numbered [OF d] by blast
  next
    case False
    then have "unchanged abs k k'" using res(2) by (cases r) (auto simp: alloc_result_def)
    then have "k_pids k' = k_pids k" "ns_keeps k k'" by (simp_all add: unchanged_def ns_keeps_krefs)
    then show ?thesis using ksys_keeps [OF ks res(1)] by auto
  qed
next
  case (k_free p P)
  have ki: "kinv inv abs k" using ks by (simp add: ksys_def)
  obtain vs where "pid_numbered k p vs" using ks k_free(1) unfolding ksys_def by blast
  from free_pid_ok [OF ki this] k_free(2) have "kinv inv abs k'" "free_done abs k p vs k'" by auto
  moreover from this(2) have "k_pids k' = k_pids k" "ns_keeps k k'" by (simp_all add: free_done_def ns_keeps_krefs)
  ultimately show ?thesis using ksys_keeps [OF ks, of k'] by auto
next
  case (k_create ns n user r)
  obtain h where ok: "ns_ok inv h k" using ks by (auto simp: ksys_def)
  have r: "create_result e abs k user ns n r k'" "ns_ok inv (case r of ValidPtr a \<Rightarrow> h(a := 1) | _ \<Rightarrow> h) k'"
    using create_pid_namespace_ok [OF ok k_create(1), of e user] k_create(2) draws by auto
  have ki: "kinv inv abs k" using ks by (simp add: ksys_def)
  have brk: "k_brk k \<le> k_brk k'" using r(1) by (simp add: create_result_def)
  note kc = kinv_create [OF ki k_create(1) r brk]
  have "\<exists>vs. pid_numbered k' p vs" if "k_pids k' p = Some P" for p P
  proof -
    have "k_pids k p = Some P" using that kc(3) by simp
    then obtain vs where "pid_numbered k p vs" using ks unfolding ksys_def by blast
    then have "pid_numbered k' p vs" by (rule pid_numbered_keep) (simp_all add: kc(3), rule kc(2))
    then show ?thesis ..
  qed
  with kc(1) r(2) show ?thesis by (auto simp: ksys_def)
next
  case (k_disable ns n)
  then have "k' = k\<lparr>k_ns := (k_ns k)(ns \<mapsto> n\<lparr>pid_allocated := pid_allocated n AND NOT PIDNS_ADDING\<rparr>)\<rparr>"
    by (simp add: disable_pid_allocation_def ns_upd_def live_def)
  with ksys_ns_fields [OF ks, of ns n] k_disable(1) show ?thesis by (simp add: live_def)
next
  case (k_ctl wr c)
  then consider "k' = k" | ns n c where "k_ns k ns = Some n" "k' = k\<lparr>k_ns := (k_ns k)(ns \<mapsto> n\<lparr>last_pid := c\<rparr>)\<rparr>"
    by (auto simp: pid_ns_ctl_handler_def ns_upd_def bind_eq_Some_conv split: if_splits prod.splits)
  then show ?thesis
  proof cases
    case 2
    with ksys_ns_fields [OF ks 2(1)] show ?thesis by simp
  qed (use ks in simp)
qed

lemma ksys_boot:
  assumes draws: "\<forall>t. nofail_promise (e_draw e t)"
    and b: "pid_idr_init ops e (static_state zero t T u d l) = Some k"
  shows "ksys inv abs k"
proof -
  obtain sl where sl: "op_init ops (e_draw e 0) GFP_KERNEL zero = Some sl" "inv sl" "abs sl = Map.empty"
    using init draws by blast
  have "\<exists>N. k_ns k = [init_pid_ns \<mapsto> N] \<and> pid_sl N = sl \<and> kref N = 2 \<and> ns_level N = 0 \<and> ns_parent N = None"
    and f: "k_pids k = [0 \<mapsto> init_struct_pid]" "k_brk k = 1"
    using b sl(1) by (auto simp: pid_idr_init_def static_state_def init_pid_ns_struct_def tick_def ns_upd_def
        bind_eq_Some_conv Let_def)
  then obtain N where N: "k_ns k = [init_pid_ns \<mapsto> N]" "pid_sl N = sl" "kref N = 2" "ns_level N = 0" "ns_parent N = None" by blast
  have lv: "live k a n \<longleftrightarrow> a = init_pid_ns \<and> n = N" for a n using N by (auto simp: live_def)
  have wf: "ns_wf inv k" using N sl(2) by (simp add: ns_wf_def lv)
  have "ns_root k" "ns_refs (\<lambda>_. 0) k" using N by (simp_all add: ns_root_def ns_refs_def lv)
  moreover have bound: "ns_bound k" using N(1) f(2) by (simp add: ns_bound_def init_pid_ns_def)
  ultimately have "ns_ok inv (\<lambda>_. 0) k" using wf by (simp add: ns_ok_def)
  moreover have "pids_wf k" using f by (simp add: pids_wf_def init_struct_pid_def)
  moreover have "index_wf abs k" using N(2) sl(3) by (simp add: index_wf_def lv idx_get_def)
  moreover have "pid_numbered k 0 [\<lparr>u_nr = 0, u_ns = init_pid_ns\<rparr>]"
    using f(1) by (simp add: pid_numbered_def init_struct_pid_def lv)
  then have "\<exists>vs. pid_numbered k p vs" if "k_pids k p = Some P" for p P
    using that f(1) by (auto split: if_splits)
  ultimately show ?thesis using wf bound by (auto simp: ksys_def kinv_def)
qed

theorem kreach_ksys:
  assumes "kreach ops zero e (static_state zero t T u d l) k"
    and "\<forall>t. good (e_draw e t) \<and> nofail_promise (e_draw e t)"
  shows "ksys inv abs k"
  using assms(1)
proof (induction rule: kreach.induct)
  case (boot k)
  with ksys_boot assms(2) show ?case by blast
next
  case (step k k')
  with ksys_step assms(2) show ?case by blast
qed

theorem ksys_no_fault:
  assumes ks: "ksys inv abs k" and draws: "\<forall>t. good (e_draw e t) \<and> nofail_promise (e_draw e t)"
  shows "live k ns n \<Longrightarrow> alloc_pid ops e ns k \<noteq> None" and "k_pids k p = Some P \<Longrightarrow> free_pid ops p k \<noteq> None"
    and "live k ns n \<Longrightarrow> create_pid_namespace ops zero e user ns k \<noteq> None"
    and "live k ns n \<Longrightarrow> find_pid_ns ops nr ns k \<noteq> None"
proof -
  have ki: "kinv inv abs k" using ks by (simp add: ksys_def)
  obtain h where ok: "ns_ok inv h k" using ks by (auto simp: ksys_def)
  show "alloc_pid ops e ns k \<noteq> None" if "live k ns n" using alloc_pid_ok [OF ki that] draws by fastforce
  show "create_pid_namespace ops zero e user ns k \<noteq> None" if "live k ns n"
    using create_pid_namespace_ok [OF ok that, of e user] draws by fastforce
  show "find_pid_ns ops nr ns k \<noteq> None" if "live k ns n" using find_pid_ns_eq [OF ki that] by simp
  show "free_pid ops p k \<noteq> None" if P: "k_pids k p = Some P"
  proof -
    obtain vs where "pid_numbered k p vs" using ks P unfolding ksys_def by blast
    with free_pid_ok [OF ki] show ?thesis by fastforce
  qed
qed

end

section \<open>The two indexes\<close>

interpretation skipk: ns_kernel skiplist_ops sl_inv sl_abs "\<lambda>_. True" zero_sl
  by unfold_locales

interpretation rbk: ns_kernel "rb_skiplist_ops api" rb_flat sl_abs "\<lambda>d. prandom_u32 d \<noteq> 0" zero_rb for api
  by unfold_locales

end
