(* ===== verification/Skiplist_Properties.thy ===== *)
theory Skiplist_Properties
  imports Index_Life
begin

text \<open>
  The properties of the skip list of \<^verbatim>\<open>src/skiplist/pid_skiplist.c\<close>, each at a concrete list too: the
  list \<open>demo_sl\<close> holds the numbers 5 and 9.
\<close>

section \<open>Whole runs\<close>

text \<open>
  The end of a grace period frees the nodes that were removed before it.  A run is any sequence of
  insertions, removals and grace periods under the writers' lock.
\<close>

definition sl_grace :: "pid_skiplist \<Rightarrow> pid_skiplist option" where
  "sl_grace sl = do { h \<leftarrow> rcu_free_all (sl_rcu sl) (sl_nodes sl);
     Some (sl\<lparr>sl_nodes := h, sl_rcu := []\<rparr>) }"

datatype sl_cmd = CInsert draw int "paddr option" gfp_t | CRemove int | CGrace

fun sl_step :: "pid_skiplist \<Rightarrow> sl_cmd \<Rightarrow> pid_skiplist option" where
  "sl_step sl (CInsert d k p g) = map_option snd (pid_skiplist_insert d sl k p g)"
| "sl_step sl (CRemove k) = pid_skiplist_remove sl k"
| "sl_step sl CGrace = sl_grace sl"

primrec sl_run :: "pid_skiplist \<Rightarrow> sl_cmd list \<Rightarrow> pid_skiplist option" where
  "sl_run sl [] = Some sl"
| "sl_run sl (c # cs) = do { sl' \<leftarrow> sl_step sl c; sl_run sl' cs }"

fun idx_step :: "idx \<Rightarrow> sl_cmd \<Rightarrow> idx" where
  "idx_step m (CInsert d k p g) = (if k \<in> dom m \<or> node_alloc_ok d g then m(k \<mapsto> p) else m)"
| "idx_step m (CRemove k) = m(k := None)"
| "idx_step m CGrace = m"

text \<open>An environment in which allocations succeed, and a small list.\<close>

definition draw_ok :: "32 word \<Rightarrow> draw" where
  "draw_ok r = \<lparr>prandom_u32 = r, kzalloc_ok = \<lambda>_. True, kcalloc_ok = \<lambda>_. True\<rparr>"

definition draw_fail :: "32 word \<Rightarrow> draw" where
  "draw_fail r = \<lparr>prandom_u32 = r, kzalloc_ok = \<lambda>g. GFP_NOFAIL_BIT \<in> g,
     kcalloc_ok = \<lambda>g. GFP_NOFAIL_BIT \<in> g\<rparr>"

definition demo_cmds :: "sl_cmd list" where
  "demo_cmds = [CInsert (draw_ok 16) 9 (Some 90) GFP_ATOMIC, CInsert (draw_ok 3) 5 (Some 50) GFP_ATOMIC]"

definition demo_sl :: pid_skiplist where
  "demo_sl = the (Option.bind (pid_skiplist_init (draw_ok 1) GFP_KERNEL zero_sl)
     (\<lambda>sl. sl_run sl demo_cmds))"

section \<open>Supporting lemmas\<close>

lemma sl_grace_rep:
  assumes r: "sl_rep sl hdr as"
  shows "\<exists>sl'. sl_grace sl = Some sl' \<and> sl_rep sl' hdr as \<and> sl_abs sl' = sl_abs sl"
proof -
  let ?h = "sl_nodes sl |` (- set (sl_rcu sl))"
  have d: "distinct (hdr # as @ sl_rcu sl)" "dom (sl_nodes sl) = set (hdr # as @ sl_rcu sl)"
    using r by (auto simp: sl_rep_def)
  then have "rcu_free_all (sl_rcu sl) (sl_nodes sl) = Some ?h"
    by (intro rcu_free_all_ok) auto
  then have g: "sl_grace sl = Some (sl\<lparr>sl_nodes := ?h, sl_rcu := []\<rparr>)" by (simp add: sl_grace_def)
  have same: "?h a = sl_nodes sl a" if "a \<in> set (hdr # as)" for a
    using that d(1) by (auto simp: restrict_map_def)
  have views: "rd_fwd ?h a i = rd_fwd (sl_nodes sl) a i" "key_of ?h a = key_of (sl_nodes sl) a"
    "pid_of ?h a = pid_of (sl_nodes sl) a" "height ?h a = height (sl_nodes sl) a"
    if "a \<in> set (hdr # as)" for a i
    using same [OF that] by (simp_all add: rd_fwd_def key_of_def pid_of_def height_def)
  have tall: "tall ?h i as = tall (sl_nodes sl) i as" for i
    using views(4) by (auto simp: tall_def intro!: filter_cong)
  have "chain ?h i hdr (tall ?h i as) None = chain (sl_nodes sl) i hdr (tall (sl_nodes sl) i as) None" for i
    unfolding tall by (rule chain_cong) (auto simp: tall_def intro!: views(1))
  moreover have mk: "map (key_of ?h) as = map (key_of (sl_nodes sl)) as" using views(2) by auto
  moreover have "sorted_wrt (<) (map (key_of ?h) as)" unfolding mk by (rule rep_sorted [OF r])
  ultimately have "heap_rep ?h hdr as"
    using r views(4) unfolding sl_rep_def heap_rep_def by simp
  moreover have "dom ?h = set (hdr # as)" using d by auto
  ultimately have r': "sl_rep (sl\<lparr>sl_nodes := ?h, sl_rcu := []\<rparr>) hdr as"
    using r views(4) same unfolding sl_rep_def by simp
  have "node_map ?h as = node_map (sl_nodes sl) as"
    using views(2,3) unfolding node_map_def by (intro arg_cong [where f = map_of]) auto
  with g r' sl_abs_rep [OF r] sl_abs_rep [OF r'] show ?thesis by simp
qed

lemma sl_step_refines:
  assumes "sl_inv sl"
  shows "\<exists>sl'. sl_step sl c = Some sl' \<and> sl_inv sl' \<and> sl_abs sl' = idx_step (sl_abs sl) c"
proof (cases c)
  case (CInsert d k p g)
  with insert_cases [OF assms, of d k p g] show ?thesis by auto
next
  case (CRemove k)
  with remove_cases [OF assms, of k] show ?thesis by auto
next
  case CGrace
  obtain hdr as where "sl_rep sl hdr as" using assms by (auto simp: sl_inv_def)
  from sl_grace_rep [OF this] CGrace show ?thesis unfolding sl_inv_def by auto
qed

lemma sl_run_refines:
  "sl_inv sl \<Longrightarrow> \<exists>sl'. sl_run sl cs = Some sl' \<and> sl_inv sl' \<and> sl_abs sl' = foldl idx_step (sl_abs sl) cs"
proof (induction cs arbitrary: sl)
  case (Cons c cs)
  from sl_step_refines [OF Cons.prems, of c] obtain sl1 where
    s: "sl_step sl c = Some sl1" "sl_inv sl1" "sl_abs sl1 = idx_step (sl_abs sl) c" by blast
  from Cons.IH [OF s(2)] s show ?case by auto
qed auto

lemma draw_ok_nofail: "nofail_promise (draw_ok r)"
  by (simp add: nofail_promise_def draw_ok_def)

lemma draw_fail_nofail: "nofail_promise (draw_fail r)"
  by (simp add: nofail_promise_def draw_fail_def)

lemma draw_ok_alloc [simp]: "node_alloc_ok (draw_ok r) g"
  by (simp add: node_alloc_ok_def draw_ok_def)

lemma draw_fail_alloc [simp]: "\<not> node_alloc_ok (draw_fail r) GFP_ATOMIC"
  by (simp add: node_alloc_ok_def draw_fail_def)

lemma demo_sl_inv: "sl_inv demo_sl"
  and demo_sl_abs: "sl_abs demo_sl = [9 \<mapsto> Some 90, 5 \<mapsto> Some 50]"
proof -
  obtain sl0 where i: "pid_skiplist_init (draw_ok 1) GFP_KERNEL zero_sl = Some sl0"
      "sl_inv sl0" "sl_abs sl0 = Map.empty"
    using init_abs [OF draw_ok_nofail, of zero_sl] by (auto simp: zero_sl_def)
  from sl_run_refines [OF i(2), of demo_cmds] obtain sl where
    s: "sl_run sl0 demo_cmds = Some sl" "sl_inv sl" "sl_abs sl = foldl idx_step (sl_abs sl0) demo_cmds"
    by blast
  then show "sl_inv demo_sl" "sl_abs demo_sl = [9 \<mapsto> Some 90, 5 \<mapsto> Some 50]"
    using i by (simp_all add: demo_sl_def demo_cmds_def)
qed

section \<open>Properties\<close>

text \<open>
  C1. Any run of the list, from its initialisation on, never faults (no NULL or dangling pointer is
  followed, no array index is out of range, no node is freed twice, every loop ends), keeps the
  invariant, and refines the abstract map: an insertion binds the number unless the allocation of a
  new node fails, a removal unbinds it, and the end of a grace period changes nothing.
\<close>

theorem skiplist_run_refines_map:
  assumes "nofail_promise d" and "sl_nodes sl0 = Map.empty" and "sl_rcu sl0 = []"
  shows "\<exists>sl1 sl. pid_skiplist_init d g sl0 = Some sl1 \<and> sl_run sl1 cs = Some sl \<and> sl_inv sl \<and>
     sl_abs sl = foldl idx_step Map.empty cs"
proof -
  obtain sl1 where "pid_skiplist_init d g sl0 = Some sl1" "sl_inv sl1" "sl_abs sl1 = Map.empty"
    using init_abs [OF assms] by blast
  then show ?thesis using sl_run_refines [of sl1 cs] by auto
qed

theorem skiplist_run_refines_map_witness:
  "\<exists>sl1 sl. pid_skiplist_init (draw_ok 1) GFP_KERNEL zero_sl = Some sl1 \<and>
     sl_run sl1 [CInsert (draw_ok 16) 9 (Some 90) GFP_ATOMIC, CInsert (draw_fail 0) 5 None GFP_ATOMIC,
       CRemove 9, CGrace] = Some sl \<and> sl_inv sl \<and> sl_abs sl = Map.empty"
  using skiplist_run_refines_map [OF draw_ok_nofail [of 1], where ?sl0.0 = zero_sl and g = GFP_KERNEL
    and cs = "[CInsert (draw_ok 16) 9 (Some 90) GFP_ATOMIC,
      CInsert (draw_fail 0) 5 None GFP_ATOMIC, CRemove 9, CGrace]"]
  by (auto simp: zero_sl_def)

text \<open>
  C2. \<^verbatim>\<open>pid_skiplist_insert\<close> on a list that satisfies the invariant returns 0 and binds the number, whether
  the number was bound before or not, except that it returns \<^verbatim>\<open>-ENOMEM\<close> and leaves the map as it was
  when the number is new and a node cannot be allocated.  The invariant is kept and no node is
  handed to RCU.
\<close>

theorem skiplist_insert_correct:
  assumes "sl_inv sl"
  shows "\<exists>r sl'. pid_skiplist_insert d sl k p g = Some (r, sl') \<and> sl_inv sl' \<and> sl_rcu sl' = sl_rcu sl \<and>
     (if k \<in> dom (sl_abs sl) \<or> node_alloc_ok d g
      then r = 0 \<and> sl_abs sl' = (sl_abs sl)(k \<mapsto> p)
      else r = - ENOMEM \<and> sl_abs sl' = sl_abs sl)"
proof (cases "k \<in> dom (sl_abs sl) \<or> node_alloc_ok d g")
  case True
  then show ?thesis using insert_cases [OF assms, of d k p g] by (simp only: if_True) blast
next
  case False
  then show ?thesis using insert_cases [OF assms, of d k p g] by (simp only: if_False) blast
qed

theorem skiplist_insert_correct_witness:
  "sl_inv demo_sl \<and> (\<exists>sl'. pid_skiplist_insert (draw_fail 7) demo_sl 7 (Some 70) GFP_ATOMIC
     = Some (- 12, sl') \<and> sl_abs sl' = [9 \<mapsto> Some 90, 5 \<mapsto> Some 50])"
  using skiplist_insert_correct [OF demo_sl_inv, of "draw_fail 7" 7 "Some 70" GFP_ATOMIC] demo_sl_inv
  by (auto simp: demo_sl_abs)

text \<open>
  C3. \<^verbatim>\<open>pid_skiplist_lookup_rcu\<close> returns the pid bound to the number, and \<^verbatim>\<open>NULL\<close> when the number is not
  bound or is bound to \<^verbatim>\<open>NULL\<close>; \<^verbatim>\<open>pid_skiplist_find_ge_rcu\<close> returns the pid of the least bound number
  that is at least the key.
\<close>

theorem skiplist_readers_correct:
  assumes "sl_inv sl"
  shows "pid_skiplist_lookup_rcu sl k = Some (idx_get (sl_abs sl) k) \<and>
     pid_skiplist_find_ge_rcu sl k = Some (idx_find_ge (sl_abs sl) k)"
  using skip.lookup [OF assms] skip.find_ge [OF assms] by (simp add: skiplist_ops_def)

theorem skiplist_readers_correct_witness:
  "sl_inv demo_sl \<and> pid_skiplist_lookup_rcu demo_sl 5 = Some (Some 50) \<and>
   pid_skiplist_lookup_rcu demo_sl 6 = Some None"
  using skiplist_readers_correct [OF demo_sl_inv, of 5] skiplist_readers_correct [OF demo_sl_inv, of 6]
    demo_sl_inv
  by (simp add: demo_sl_abs idx_get_def)



text \<open>
  C5. The iteration \<^verbatim>\<open>while ((pid = pid_skiplist_iter_next_rcu(&sl, &cursor, start)) != NULL)\<close> ends and
  visits, in ascending order of their numbers, the pids bound at or above the start, up to the first
  number that is bound to \<^verbatim>\<open>NULL\<close>.
\<close>

theorem skiplist_iteration_correct:
  assumes "sl_inv sl"
  shows "iter_collect skiplist_ops sl None start = Some (idx_iter (sl_abs sl) start)"
  by (rule skip.iter [OF assms])

theorem skiplist_iteration_correct_witness:
  "sl_inv demo_sl \<and> iter_collect skiplist_ops demo_sl None 2 = Some (idx_iter [9 \<mapsto> Some 90, 5 \<mapsto> Some 50] 2)"
  using skiplist_iteration_correct [OF demo_sl_inv, of 2] demo_sl_inv by (simp add: demo_sl_abs)

text \<open>
  C6. \<^verbatim>\<open>pid_skiplist_destroy\<close> followed by the pending RCU callbacks frees every node exactly once: no
  fault, and no cell of the list's memory is left.
\<close>

theorem skiplist_destroy_frees_all:
  assumes "sl_inv sl"
  shows "\<exists>sl'. pid_skiplist_destroy sl = Some sl' \<and>
     rcu_free_all (sl_rcu sl') (sl_nodes sl') = Some Map.empty"
proof -
  obtain hdr as where r: "sl_rep sl hdr as" using assms by (auto simp: sl_inv_def)
  let ?h = "sl_nodes sl |` (- set as)"
  have d: "distinct (hdr # as @ sl_rcu sl)" and dom: "dom (sl_nodes sl) = set (hdr # as @ sl_rcu sl)"
    using r by (auto simp: sl_rep_def)
  define h' where "h' = ?h(hdr := None)"
  have dom': "dom h' = set (sl_rcu sl)" using d dom by (auto simp: h'_def)
  then have "rcu_free_all (sl_rcu sl) h' = Some (h' |` (- set (sl_rcu sl)))"
    using d by (intro rcu_free_all_ok) auto
  moreover have "h' |` (- set (sl_rcu sl)) = Map.empty"
    using dom' by (metis Compl_disjoint dom_eq_empty_conv dom_restrict)
  moreover have "pid_skiplist_destroy sl = Some (sl\<lparr>sl_nodes := h'\<rparr>)"
    unfolding h'_def by (rule destroy_rep [OF r])
  ultimately show ?thesis by (intro exI [of _ "sl\<lparr>sl_nodes := h'\<rparr>"]) simp
qed

theorem skiplist_destroy_frees_all_witness:
  "sl_inv demo_sl \<and> (\<exists>sl'. pid_skiplist_destroy demo_sl = Some sl' \<and>
     rcu_free_all (sl_rcu sl') (sl_nodes sl') = Some Map.empty)"
  using skiplist_destroy_frees_all [OF demo_sl_inv] demo_sl_inv by blast

text \<open>
  C7. The level of a new node is between 1 and 8, or exactly \<^verbatim>\<open>PID_SL_MAX_LEVEL\<close> (16); the latter
  happens for exactly one value of the 32-bit random number, 0, because the shifts use up the
  random bits after eight rounds.
\<close>

theorem random_level_distribution:
  "pid_sl_random_level r \<in> {1..8} \<union> {PID_SL_MAX_LEVEL} \<and>
   (pid_sl_random_level r = PID_SL_MAX_LEVEL \<longleftrightarrow> r = 0)"
proof (cases "r = 0")
  case False
  then show ?thesis using random_level_nonzero [OF False] random_level_range [of r]
    by (auto simp: PID_SL_MAX_LEVEL_def)
qed (simp add: random_level_zero)

end
