(* ===== verification/Kernel_Demo.thy ===== *)
theory Kernel_Demo
  imports Kernel_Reach Skiplist_Properties
begin

text \<open>
  A concrete state: the initial namespace 0 with the pids 50 (number 5) and 90 (number 9), its empty
  child 1, the task 1 that uses the pid 50, and a task 2 that uses none.  In the environment of the
  examples every allocation succeeds.
\<close>

definition demo_env :: kenv where
  "demo_env = \<lparr>e_draw = \<lambda>_. draw_ok 1, kmem_cache_alloc_ok = \<lambda>_. True, pid_ns_prepare_proc = \<lambda>_ _. 0,
     anon_inode_getfd = \<lambda>_. 3, task_pid = thread_pid, pid_alive = \<lambda>T. thread_pid T \<noteq> None, in_userns = \<lambda>_ _. True,
     inc_ucount = \<lambda>_ _. Some 0, kmem_cache_create = \<lambda>_ _. Some 0, ns_alloc_inum = \<lambda>_. 0, ns_capable = \<lambda>_. True,
     proc_dointvec_minmax = \<lambda>write lo hi d. (0, if write \<and> lo \<le> 7 \<and> 7 \<le> hi then 7 else d), current_user_ns = 0,
     fatal_signal_pending = \<lambda>_. False, thread_group_leader = \<lambda>_. True, num_possible_cpus = 1,
     PID_MAX_LIMIT = 4194304, PIDS_PER_CPU_DEFAULT = 1024, PIDS_PER_CPU_MIN = 8\<rparr>"

definition empty_sl :: pid_skiplist where
  "empty_sl = the (pid_skiplist_init (draw_ok 1) GFP_KERNEL zero_sl)"

definition demo_ns0 :: "pid_skiplist pid_namespace" where
  "demo_ns0 = \<lparr>kref = 2, pid_sl = demo_sl, last_pid = 9, pid_allocated = PIDNS_ADDING + 2, child_reaper = Some 1,
     pid_cachep = Some 0, ns_level = 0, ns_parent = None, user_ns = 0, ucounts = 0, reboot = 0\<rparr>"

definition demo_ns1 :: "pid_skiplist pid_namespace" where
  "demo_ns1 = \<lparr>kref = 1, pid_sl = empty_sl, last_pid = 0, pid_allocated = PIDNS_ADDING, child_reaper = None,
     pid_cachep = Some 0, ns_level = 1, ns_parent = Some 0, user_ns = 0, ucounts = 0, reboot = 0\<rparr>"

definition demo_pid :: "int \<Rightarrow> (pid_type \<Rightarrow> taddr list) \<Rightarrow> pid" where
  "demo_pid nr ts = \<lparr>p_count = 1, p_level = 0, p_tasks = ts, p_numbers = [Some \<lparr>u_nr = nr, u_ns = 0\<rparr>]\<rparr>"

definition demo_links :: "'a \<Rightarrow> 'a \<Rightarrow> pid_type \<Rightarrow> 'a" where
  "demo_links x y = (\<lambda>_. y)(PIDTYPE_PID := x, PIDTYPE_TGID := x)"

definition demo_kernel :: "pid_skiplist kernel" where
  "demo_kernel = \<lparr>k_ns = [0 \<mapsto> demo_ns0, 1 \<mapsto> demo_ns1],
     k_pids = [50 \<mapsto> demo_pid 5 (demo_links [1] []), 90 \<mapsto> demo_pid 9 (\<lambda>_. [])],
     k_tasks = [1 \<mapsto> \<lparr>thread_pid = Some 50, signal = 1, pid_links = demo_links (Some 50) None, usage = 1, nsproxy = Some 4\<rparr>,
       2 \<mapsto> \<lparr>thread_pid = None, signal = 2, pid_links = (\<lambda>_. None), usage = 1, nsproxy = None\<rparr>],
     k_signals = [1 \<mapsto> (\<lambda>_. Some 50), 2 \<mapsto> (\<lambda>_. None)], k_nsproxies = [4 \<mapsto> 0], k_brk = 100, k_tick = 0, k_current = 1,
     pid_max = 20, pid_max_min = 301, pid_max_max = 4194304, pid_cache = Map.empty, k_rcu = [], k_events = []\<rparr>"

lemma empty_sl_ok: "sl_inv empty_sl" "sl_abs empty_sl = Map.empty"
proof -
  obtain sl where "pid_skiplist_init (draw_ok 1) GFP_KERNEL zero_sl = Some sl" "sl_inv sl" "sl_abs sl = Map.empty"
    using init_abs [OF draw_ok_nofail, of zero_sl] by (auto simp: zero_sl_def)
  then show "sl_inv empty_sl" "sl_abs empty_sl = Map.empty" by (simp_all add: empty_sl_def)
qed

lemma demo_env_mem: "mem_ok demo_env"
  by (simp add: mem_ok_def demo_env_def draw_ok_def)

lemma demo_env_draws: "\<forall>t. nofail_promise (e_draw demo_env t)"
  by (simp add: demo_env_def draw_ok_nofail)

lemma demo_live: "live demo_kernel a n \<longleftrightarrow> a = 0 \<and> n = demo_ns0 \<or> a = 1 \<and> n = demo_ns1"
  by (auto simp: live_def demo_kernel_def demo_ns0_def demo_ns1_def split: if_splits)

lemma demo_lookup: "lookup_in sl_abs demo_kernel a nr = (if a = 0 \<and> nr = 5 then Some 50 else if a = 0 \<and> nr = 9 then Some 90 else None)"
  by (auto simp: lookup_in_def demo_kernel_def demo_ns0_def demo_ns1_def demo_sl_abs empty_sl_ok idx_get_def)

lemma demo_kinv: "kinv sl_inv sl_abs demo_kernel"
proof -
  have "ns_wf sl_inv demo_kernel"
    by (auto simp: ns_wf_def demo_live) (simp_all add: demo_live demo_ns0_def demo_ns1_def demo_sl_inv empty_sl_ok)
  moreover have "pids_wf demo_kernel" by (auto simp: pids_wf_def demo_kernel_def demo_pid_def split: if_splits)
  moreover have "index_wf sl_abs demo_kernel"
    by (auto simp: index_wf_iff demo_live demo_lookup split: if_splits)
      (simp_all add: pid_has_def demo_kernel_def demo_pid_def demo_ns0_def pid_number_def)
  moreover have "ns_bound demo_kernel" by (auto simp: ns_bound_def demo_kernel_def split: if_splits)
  ultimately show ?thesis by (simp add: kinv_def)
qed

lemma demo_ns_ok: "ns_ok sl_inv (\<lambda>a. if a \<le> 1 then 1 else 0) demo_kernel"
proof -
  have ch: "ns_children demo_kernel 1 = {}" by (auto simp: ns_children_def demo_live demo_ns0_def demo_ns1_def)
  have "ns_wf sl_inv demo_kernel" "ns_bound demo_kernel" using demo_kinv by (simp_all add: kinv_def)
  moreover have "ns_root demo_kernel" by (auto simp: ns_root_def demo_live init_pid_ns_def) (simp_all add: demo_ns0_def demo_ns1_def)
  moreover have "ns_refs (\<lambda>a. if a \<le> 1 then 1 else 0) demo_kernel"
    by (auto simp: ns_refs_def demo_live init_pid_ns_def) (simp add: demo_ns1_def ch [simplified])
  ultimately show ?thesis by (simp add: ns_ok_def)
qed

lemma demo_link_wf: "link_wf demo_kernel"
proof -
  have "ty = PIDTYPE_PID \<or> ty = PIDTYPE_TGID \<Longrightarrow> demo_links x y ty = x" "demo_links x y PIDTYPE_PGID = y" "demo_links x y PIDTYPE_SID = y"
    for x y :: 'a and ty by (auto simp: demo_links_def)
  then show ?thesis by (auto simp: link_wf_def demo_kernel_def demo_pid_def demo_links_def split: if_splits)
qed

lemma demo_numbered: "pid_numbered demo_kernel 50 [\<lparr>u_nr = 5, u_ns = 0\<rparr>]" "pid_numbered demo_kernel 90 [\<lparr>u_nr = 9, u_ns = 0\<rparr>]"
  by (auto simp: pid_numbered_def demo_live) (simp_all add: demo_kernel_def demo_pid_def)

lemma demo_active: "task_active_pid_ns demo_env (k_current demo_kernel) demo_kernel = Some (Some 0)"
  by (simp add: task_active_pid_ns_def ns_of_pid_def demo_env_def demo_kernel_def demo_pid_def pid_number_def)

end
