(* ===== verification/Pid_Properties.thy ===== *)
theory Pid_Properties
  imports Kernel_Demo
begin

text \<open>
  The properties of \<^verbatim>\<open>src/skiplist/pid.c\<close>: allocation, release, lookup, tasks and file descriptors of
  pids, over the skip list.
\<close>

section \<open>Allocation and release\<close>



text \<open>
  C14. With memory for the nodes, the scan reserves the number that the cyclic rule prescribes: the first
  free one from \<^verbatim>\<open>last_pid + 1\<close> up to \<^verbatim>\<open>pid_max\<close>, or else the first free one from 1 up to there, and -1 if
  every number is taken.  The number becomes the cursor and is bound to NULL; nothing else changes.
\<close>

theorem alloc_nr_cyclic:
  assumes "mem_ok e" and "k_ns k a = Some n" and "sl_inv (pid_sl n)"
  shows "\<exists>rv' k'. alloc_nr skiplist_ops e a rv k
       = Some (case next_nr (sl_abs (pid_sl n)) (last_pid n) (pid_max k) of None \<Rightarrow> -1 | Some j \<Rightarrow> j, rv', k') \<and>
     (\<exists>n'. k_ns k' = (k_ns k)(a \<mapsto> n') \<and> sl_inv (pid_sl n') \<and> (case next_nr (sl_abs (pid_sl n)) (last_pid n) (pid_max k) of
        None \<Rightarrow> sl_abs (pid_sl n') = sl_abs (pid_sl n) \<and> last_pid n' = last_pid n
      | Some j \<Rightarrow> sl_abs (pid_sl n') = (sl_abs (pid_sl n))(j \<mapsto> None) \<and> last_pid n' = j))"
proof -
  obtain nr rv' sl' lp' t' where r: "alloc_nr skiplist_ops e a rv k = Some (nr, rv', set_index a n sl' lp' t' k)" "sl_inv sl'"
     "scan_result (sl_abs (pid_sl n)) 1 (pid_max k) (last_pid n) nr rv' (sl_abs sl') lp'"
     "nr = (case next_nr (sl_abs (pid_sl n)) (last_pid n) (pid_max k) of None \<Rightarrow> -1 | Some j \<Rightarrow> j)"
    using skipk.alloc_nr_ok [where e = e and k = k and a = a and n = n and ?rv0.0 = rv] assms by auto
  then show ?thesis
    using next_nr_range [of "sl_abs (pid_sl n)" "last_pid n" "pid_max k"]
    by (auto simp: scan_result_def set_index_def split: option.splits intro!: exI)
qed

theorem alloc_nr_cyclic_witness:
  "\<exists>rv' k'. alloc_nr skiplist_ops demo_env 0 0 demo_kernel = Some (10, rv', k')"
proof -
  have "next_nr [9 \<mapsto> Some 90, 5 \<mapsto> Some 50] 9 20 = Some 10"
    by (simp add: next_nr_def start_pid_def first_free_rec [of _ 10] idx_get_def)
  with alloc_nr_cyclic [OF demo_env_mem, of demo_kernel 0 demo_ns0 0] show ?thesis
    by (auto simp: demo_kernel_def demo_ns0_def demo_sl_inv demo_sl_abs)
qed

text \<open>
  C15. \<^verbatim>\<open>alloc_pid\<close> succeeds: if there is memory, allocation is not disabled, \<^verbatim>\<open>pid_ns_prepare_proc\<close> succeeds
  and every live namespace has a free number, it returns a pid.
\<close>

theorem alloc_pid_succeeds:
  assumes "kinv sl_inv sl_abs k" and "live k ns n" and "mem_ok e" and "kmem_cache_alloc_ok e (k_tick k)"
    and "pid_allocated n AND PIDNS_ADDING \<noteq> 0" and "\<forall>t. pid_ns_prepare_proc e t ns = 0"
    and "\<forall>a m. live k a m \<longrightarrow> (\<exists>nr. 1 \<le> nr \<and> nr < pid_max k \<and> lookup_in sl_abs k a nr = None)"
  shows "\<exists>p k'. alloc_pid skiplist_ops e ns k = Some (ValidPtr p, k') \<and> alloc_done sl_abs k ns (ns_level n) p k'"
proof -
  obtain r k' where r: "alloc_pid skiplist_ops e ns k = Some (r, k')" "alloc_result e sl_abs k ns n r k'"
    using skipk.alloc_pid_ok [OF assms(1,2), of e] by auto
  have "\<not> level_full sl_abs k ns l us" for l us
    using assms(7) lookup_in_live [of k] unfolding level_full_def by metis
  with r(2) assms(3-6) obtain p where "r = ValidPtr p" "alloc_done sl_abs k ns (ns_level n) p k'"
    by (cases r) (auto simp: alloc_result_def)
  with r(1) show ?thesis by blast
qed

theorem alloc_pid_succeeds_witness:
  "\<exists>p k'. alloc_pid skiplist_ops demo_env 1 demo_kernel = Some (ValidPtr p, k') \<and>
     alloc_done sl_abs demo_kernel 1 (ns_level demo_ns1) p k'"
proof -
  have "pid_allocated demo_ns1 AND PIDNS_ADDING \<noteq> 0" by (simp add: demo_ns1_def PIDNS_ADDING_def)
  moreover have "lookup_in sl_abs demo_kernel a 1 = None" for a by (simp add: demo_lookup)
  moreover have "1 < pid_max demo_kernel" by (simp add: demo_kernel_def)
  ultimately show ?thesis
    using alloc_pid_succeeds [OF demo_kinv, of 1 demo_ns1 demo_env] demo_env_mem by (force simp: demo_live demo_env_def)
qed

text \<open>
  C16. \<^verbatim>\<open>free_pid\<close> does not fault and keeps the invariant; the numbers of the pid are found no longer and
  all other lookups are as before; the counter of each of its namespaces goes down, and is reset when
  only the flag \<^verbatim>\<open>PIDNS_ADDING\<close> is left; the reaper is woken and the cleanup scheduled exactly as the new
  counter says; and one reference is dropped after a grace period.
\<close>

theorem free_pid_correct:
  assumes "kinv sl_inv sl_abs k" and "pid_numbered k p vs"
  shows "\<exists>k'. free_pid skiplist_ops p k = Some k' \<and> kinv sl_inv sl_abs k' \<and> free_done sl_abs k p vs k'"
  by (rule skipk.free_pid_ok [OF assms])

theorem free_pid_correct_witness:
  "\<exists>k'. free_pid skiplist_ops 50 demo_kernel = Some k' \<and> free_done sl_abs demo_kernel 50 [\<lparr>u_nr = 5, u_ns = 0\<rparr>] k'"
  using free_pid_correct [OF demo_kinv demo_numbered(1)] by blast

text \<open>C17. Freeing a pid right after its allocation takes every lookup back to what it was.\<close>

theorem alloc_free_roundtrip:
  assumes "kinv sl_inv sl_abs k" and "live k ns n" and "alloc_pid skiplist_ops e ns k = Some (ValidPtr p, k1)"
  shows "\<exists>k2. free_pid skiplist_ops p k1 = Some k2 \<and> kinv sl_inv sl_abs k2 \<and> lookup_in sl_abs k2 = lookup_in sl_abs k"
  by (rule skipk.alloc_free_ok [OF assms(1,2) _ assms(3)]) simp

theorem alloc_free_roundtrip_witness:
  "\<exists>p k1 k2. alloc_pid skiplist_ops demo_env 1 demo_kernel = Some (ValidPtr p, k1) \<and>
     free_pid skiplist_ops p k1 = Some k2 \<and> lookup_in sl_abs k2 = lookup_in sl_abs demo_kernel"
proof -
  obtain r k1 where r: "alloc_pid skiplist_ops demo_env 1 demo_kernel = Some (r, k1)"
     "alloc_result demo_env sl_abs demo_kernel 1 demo_ns1 r k1"
    using skipk.alloc_pid_ok [OF demo_kinv, of 1 demo_ns1 demo_env] by (auto simp: demo_live)
  have "\<not> level_full sl_abs demo_kernel 1 l us" for l us
  proof
    assume "level_full sl_abs demo_kernel 1 l us"
    then obtain b m where m: "live demo_kernel b m"
      "\<forall>nr. 1 \<le> nr \<and> nr < pid_max demo_kernel \<longrightarrow> idx_get (sl_abs (pid_sl m)) nr \<noteq> None" by (auto simp: level_full_def)
    have "idx_get (sl_abs (pid_sl m)) 1 = None" using demo_lookup [of b 1] lookup_in_live [OF m(1), of sl_abs 1] by simp
    with m(2) [rule_format, of 1] show False by (simp add: demo_kernel_def)
  qed
  then obtain p where "r = ValidPtr p" using r(2) demo_env_mem
    by (cases r) (auto simp: alloc_result_def demo_env_def demo_ns1_def PIDNS_ADDING_def)
  with alloc_free_roundtrip [OF demo_kinv, of 1 demo_ns1 demo_env p k1] r(1) show ?thesis by (auto simp: demo_live)
qed





text \<open>
  C20. A reserved number looks free until its pid is published, because a lookup cannot tell NULL from
  absence: if the cursor is moved back in between, a second reservation returns the same number.
\<close>

theorem reservation_not_exclusive:
  assumes "mem_ok e" and "k_ns k a = Some n" and "sl_inv (pid_sl n)"
    and "alloc_nr skiplist_ops e a rv k = Some (nr, rv1, k1)" and "0 \<le> nr"
  shows "\<exists>k2 rv2 k3. pid_ns_set_cursor a (last_pid n) k1 = Some k2 \<and> alloc_nr skiplist_ops e a rv k2 = Some (nr, rv2, k3)"
proof -
  obtain rv' sl' lp' t' where r: "alloc_nr skiplist_ops e a rv k = Some (nr, rv', set_index a n sl' lp' t' k)" "sl_inv sl'"
     "sl_abs sl' = (sl_abs (pid_sl n))(nr \<mapsto> None)" "idx_get (sl_abs (pid_sl n)) nr = None"
     "next_nr (sl_abs (pid_sl n)) (last_pid n) (pid_max k) = Some nr"
    using skipk.alloc_nr_ok [where e = e and k = k and a = a and n = n and ?rv0.0 = rv] assms by (auto simp: scan_result_def split: option.splits)
  define n2 where "n2 = n\<lparr>pid_sl := sl', last_pid := last_pid n\<rparr>"
  define k2 where "k2 = k1\<lparr>k_ns := (k_ns k1)(a \<mapsto> n2)\<rparr>"
  have k1: "k1 = set_index a n sl' lp' t' k" using r(1) assms(4) by simp
  have cur: "pid_ns_set_cursor a (last_pid n) k1 = Some k2"
    by (simp add: pid_ns_set_cursor_def ns_upd_def k1 k2_def n2_def set_index_def)
  have "idx_get (sl_abs sl') = idx_get (sl_abs (pid_sl n))"
    using r(4) by (intro ext) (simp add: r(3) idx_get_def split: option.splits)
  then have "next_nr (sl_abs sl') (last_pid n) (pid_max k) = Some nr"
    using r(5) unfolding next_nr_def first_free_def by (simp cong: option.case_cong)
  moreover have "k_ns k2 a = Some n2" "sl_inv (pid_sl n2)" "pid_max k2 = pid_max k"
    using r(2) by (simp_all add: k2_def n2_def k1 set_index_def)
  ultimately have "\<exists>rv2 k3. alloc_nr skiplist_ops e a rv k2 = Some (nr, rv2, k3)"
    using skipk.alloc_nr_ok [where e = e and k = k2 and a = a and n = n2 and ?rv0.0 = rv] assms(1) by (auto simp: n2_def)
  with cur show ?thesis by blast
qed

theorem reservation_not_exclusive_witness:
  "\<exists>rv1 k1 k2 rv2 k3. alloc_nr skiplist_ops demo_env 0 0 demo_kernel = Some (10, rv1, k1) \<and>
     pid_ns_set_cursor 0 9 k1 = Some k2 \<and> alloc_nr skiplist_ops demo_env 0 0 k2 = Some (10, rv2, k3)"
proof -
  have nx: "next_nr [9 \<mapsto> Some 90, 5 \<mapsto> Some 50] 9 20 = Some 10"
    by (simp add: next_nr_def start_pid_def first_free_rec [of _ 10] idx_get_def)
  have n0: "k_ns demo_kernel 0 = Some demo_ns0" "sl_inv (pid_sl demo_ns0)" "last_pid demo_ns0 = 9"
    by (simp_all add: demo_kernel_def demo_ns0_def demo_sl_inv)
  obtain rv1 k1 where k1: "alloc_nr skiplist_ops demo_env 0 0 demo_kernel = Some (10, rv1, k1)"
    using skipk.alloc_nr_ok [where e = demo_env and k = demo_kernel and a = 0 and n = demo_ns0 and ?rv0.0 = 0] n0 demo_env_mem nx
    by (auto simp: demo_ns0_def demo_sl_abs demo_kernel_def)
  from reservation_not_exclusive [OF demo_env_mem n0(1,2) k1] n0(3) k1 show ?thesis by auto
qed

end
