(* ===== verification/Ns_Properties.thy ===== *)
theory Ns_Properties
  imports Kernel_Demo
begin

text \<open>
  The properties of lookups, of the tasks and file descriptors of pids, of \<^verbatim>\<open>src/skiplist/pid_namespace.c\<close>,
  and of the whole transition system, over the skip list.
\<close>

section \<open>Assumptions and examples\<close>

text \<open>
  A write through \<^verbatim>\<open>proc_dointvec_minmax\<close> that succeeds leaves the value as it was or stores one within the
  bounds.
\<close>

definition minmax_ok :: "kenv \<Rightarrow> bool" where
  "minmax_ok e \<longleftrightarrow> (\<forall>lo hi d r v. proc_dointvec_minmax e True lo hi d = (r, v) \<longrightarrow> r = 0 \<longrightarrow> v = d \<or> lo \<le> v \<and> v \<le> hi)"



section \<open>Lookups, tasks and file descriptors\<close>

text \<open>
  C21. Numbers and pids translate into each other: in every live namespace \<^verbatim>\<open>find_pid_ns\<close> does not fault and
  a pid that it finds has, by \<^verbatim>\<open>pid_nr_ns\<close>, the number that was looked up.
\<close>

theorem find_pid_nr_roundtrip:
  assumes "kinv sl_inv sl_abs k" and "live k ns n"
  shows "\<exists>r. find_pid_ns skiplist_ops nr ns k = Some r \<and> (\<forall>p. r = Some p \<longrightarrow> pid_nr_ns (Some p) ns k = Some nr)"
  using skipk.find_pid_ns_eq [OF assms] skipk.find_then_nr [OF assms] by simp

theorem find_pid_nr_roundtrip_witness:
  "find_pid_ns skiplist_ops 9 0 demo_kernel = Some (Some 90) \<and> pid_nr_ns (Some 90) 0 demo_kernel = Some 9"
proof -
  have n: "live demo_kernel 0 demo_ns0" by (simp add: demo_live)
  from skipk.find_pid_ns_eq [OF demo_kinv n, of 9] find_pid_nr_roundtrip [OF demo_kinv n, of 9]
  show ?thesis by (simp add: demo_lookup)
qed

text \<open>
  C22. \<^verbatim>\<open>pidfd_open\<close> returns \<^verbatim>\<open>-EINVAL\<close> for flags, for a number that is not positive and for a pid that leads
  no thread group, \<^verbatim>\<open>-ESRCH\<close> for a number with no pid, and otherwise the descriptor; a descriptor holds
  exactly one reference to the pid, and every error leaves the reference counts as they were.
\<close>

theorem pidfd_open_correct:
  assumes "kinv sl_inv sl_abs k" and "task_active_pid_ns e (k_current k) k = Some (Some a)" and "live k a n"
    and "\<And>p. lookup_in sl_abs k a pid = Some p \<Longrightarrow> \<exists>vs. pid_numbered k p vs"
  shows "\<exists>k'. pidfd_open skiplist_ops e pid flags k = Some (pidfd_code e pid flags (lookup_in sl_abs k a pid) k, k') \<and>
     k_ns k' = k_ns k \<and> k_tasks k' = k_tasks k \<and>
     k_pids k' = (if flags \<noteq> 0 \<or> pid \<le> 0 then k_pids k
        else pidfd_pids (pidfd_code e pid flags (lookup_in sl_abs k a pid) k) (lookup_in sl_abs k a pid) k)"
  by (rule skipk.pidfd_open_ok [OF assms])

theorem pidfd_open_correct_witness:
  "\<exists>k' P. pidfd_open skiplist_ops demo_env 5 0 demo_kernel = Some (3, k') \<and> k_pids k' 50 = Some P \<and> p_count P = 2"
proof -
  have n: "live demo_kernel 0 demo_ns0" by (simp add: demo_live)
  have f: "lookup_in sl_abs demo_kernel 0 5 = Some 50" by (simp add: demo_lookup)
  then have "\<exists>vs. pid_numbered demo_kernel p vs" if "lookup_in sl_abs demo_kernel 0 5 = Some p" for p
    using that demo_numbered(1) by auto
  note r = pidfd_open_correct [OF demo_kinv demo_active n, of 5 0, OF this, simplified f]
  have "p_tasks (demo_pid 5 (demo_links [1] [])) PIDTYPE_TGID \<noteq> []" by (simp add: demo_pid_def demo_links_def)
  then have "pidfd_code demo_env 5 0 (Some 50) demo_kernel = 3"
    by (simp add: pidfd_code_def demo_kernel_def demo_env_def)
  moreover have "k_pids demo_kernel 50 = Some (demo_pid 5 (demo_links [1] []))" by (simp add: demo_kernel_def)
  ultimately show ?thesis using r by (auto simp: pidfd_pids_def demo_pid_def)
qed

text \<open>
  C23. \<^verbatim>\<open>__change_pid\<close>, and so \<^verbatim>\<open>detach_pid\<close> and \<^verbatim>\<open>change_pid\<close>, takes the task off the list of its pid, sets the
  pointer of the task, keeps the lists and the pointers consistent, and frees the pid exactly when no
  task of any type is left on it: only then are its numbers given up.
\<close>

theorem change_pid_internal_correct:
  assumes "kinv sl_inv sl_abs k" and "link_wf k" and "pid_numbered k p vs"
    and "k_tasks k t = Some T" and "pid_links T ty = Some p" and "task_pid_ptr t ty k = Some (Some p)"
  shows "\<exists>k' P'. change_pid_internal skiplist_ops t ty new k = Some k' \<and> kinv sl_inv sl_abs k' \<and> link_wf k' \<and>
     task_pid_ptr t ty k' = Some new \<and> k_pids k' = k_pids (unlinked t ty p k) \<and> k_pids k' p = Some P' \<and>
     t \<notin> set (p_tasks P' ty) \<and>
     (if \<exists>ty'. p_tasks P' ty' \<noteq> [] then lookup_in sl_abs k' = lookup_in sl_abs k \<and> k_rcu k' = k_rcu k
      else k_rcu k' = k_rcu k @ [DelayedPutPid p] \<and> (\<forall>a nr. lookup_in sl_abs k' a nr =
         (if \<lparr>u_nr = nr, u_ns = a\<rparr> \<in> set vs then None else lookup_in sl_abs k a nr)))"
  by (rule skipk.change_pid_internal_ok [OF assms])

theorem change_pid_internal_correct_witness:
  "\<exists>k'. change_pid_internal skiplist_ops 1 PIDTYPE_PID None demo_kernel = Some k' \<and> lookup_in sl_abs k' 0 5 = Some 50"
proof -
  obtain T where T: "k_tasks demo_kernel 1 = Some T" "pid_links T PIDTYPE_PID = Some 50" "thread_pid T = Some 50"
    by (simp add: demo_kernel_def demo_links_def)
  then have "task_pid_ptr 1 PIDTYPE_PID demo_kernel = Some (Some 50)" by (simp add: task_pid_ptr_def)
  with change_pid_internal_correct [OF demo_kinv demo_link_wf demo_numbered(1) T(1,2)] obtain k' P' where
    k': "change_pid_internal skiplist_ops 1 PIDTYPE_PID None demo_kernel = Some k'"
      "k_pids k' = k_pids (unlinked 1 PIDTYPE_PID 50 demo_kernel)" "k_pids k' 50 = Some P'"
      "(\<exists>ty'. p_tasks P' ty' \<noteq> []) \<longrightarrow> lookup_in sl_abs k' = lookup_in sl_abs demo_kernel" by metis
  have "p_tasks P' PIDTYPE_TGID \<noteq> []"
    using k'(2,3) by (auto simp: unlinked_def demo_kernel_def demo_pid_def demo_links_def)
  with k' show ?thesis by (auto simp: demo_lookup)
qed

text \<open>
  \<^verbatim>\<open>transfer_pid\<close> puts the new task in the place of the old one on the list of the pid, hands over the
  thread pid if the type is \<^verbatim>\<open>PIDTYPE_PID\<close>, and keeps the lists and the links consistent.
\<close>

theorem transfer_pid_correct:
  assumes "link_wf k" and "k_tasks k t = Some T" and "pid_links T ty = Some p"
    and "k_tasks k t' = Some T'" and "pid_links T' ty = None" and "t \<noteq> t'"
  shows "\<exists>k'. transfer_pid t t' ty k = Some k' \<and> link_wf k' \<and> k_pids k' = k_pids (replaced t t' ty p k) \<and>
     (\<exists>N. k_tasks k' t' = Some N \<and> pid_links N ty = Some p \<and> (ty = PIDTYPE_PID \<longrightarrow> thread_pid N = thread_pid T))"
  by (rule transfer_pid_ok [OF assms])

theorem transfer_pid_correct_witness:
  "\<exists>k' N. transfer_pid 1 2 PIDTYPE_PID demo_kernel = Some k' \<and> link_wf k' \<and> k_tasks k' 2 = Some N \<and> thread_pid N = Some 50"
proof -
  obtain T T' where "k_tasks demo_kernel 1 = Some T" "pid_links T PIDTYPE_PID = Some 50" "thread_pid T = Some 50"
    "k_tasks demo_kernel 2 = Some T'" "pid_links T' PIDTYPE_PID = None" by (simp add: demo_kernel_def demo_links_def)
  with transfer_pid_correct [OF demo_link_wf this(1,2,4,5)] show ?thesis by auto
qed

section \<open>Namespaces\<close>



text \<open>
  C26. \<^verbatim>\<open>create_pid_namespace\<close> returns a new namespace with an empty index, one level below its parent, one
  reference and the flag \<^verbatim>\<open>PIDNS_ADDING\<close>, and takes one reference to the parent; or one of its error codes,
  each for its own reason, with every namespace as it was.  The depth never exceeds \<^verbatim>\<open>MAX_PID_NS_LEVEL\<close>.
\<close>

theorem create_pid_namespace_correct:
  assumes "ns_ok sl_inv h k" and "live k b pn" and "\<forall>t. nofail_promise (e_draw e t)"
  shows "\<exists>r k'. create_pid_namespace skiplist_ops zero_sl e user b k = Some (r, k') \<and>
     create_result e sl_abs k user b pn r k' \<and> ns_ok sl_inv (case r of ValidPtr a \<Rightarrow> h(a := 1) | _ \<Rightarrow> h) k'"
  by (rule skipk.create_pid_namespace_ok [OF assms])

theorem create_pid_namespace_correct_witness:
  "\<exists>r k'. create_pid_namespace skiplist_ops zero_sl demo_env 0 1 demo_kernel = Some (r, k') \<and>
     create_result demo_env sl_abs demo_kernel 0 1 demo_ns1 r k'"
  using create_pid_namespace_correct [OF demo_ns_ok _ demo_env_draws, of 1 demo_ns1 0] by (auto simp: demo_live)

text \<open>
  C27. \<^verbatim>\<open>pidns_install\<close> lets a task enter a namespace exactly if it has the capability and its active
  namespace is the new one or an ancestor of it, so that no task leaves its namespace; then the proxy
  refers to the new namespace and the reference to the old one is dropped.  Otherwise it returns the
  error and changes nothing.
\<close>

theorem pidns_install_correct:
  assumes "ns_ok sl_inv h k" and "task_active_pid_ns e (k_current k) k = Some (Some act)" and "live k act an"
    and "live k new nn" and "k_nsproxies k px = Some old" and "live k old on" and "old = init_pid_ns \<or> 0 < h old"
    and "0 < (h(old := h old - 1)) new"
  shows "\<exists>k'. pidns_install skiplist_ops e px new k = Some (install_code e k act new nn, k') \<and>
     (if install_code e k act new nn = 0
      then k_nsproxies k' px = Some new \<and> ns_ok sl_inv (h(old := h old - 1, new := Suc ((h(old := h old - 1)) new))) k'
      else k' = k)"
  by (rule skipk.pidns_install_ok [OF assms])

theorem pidns_install_correct_witness:
  "\<exists>k'. pidns_install skiplist_ops demo_env 4 1 demo_kernel = Some (0, k') \<and> k_nsproxies k' 4 = Some 1"
proof -
  have l: "live demo_kernel 0 demo_ns0" "live demo_kernel 1 demo_ns1" by (simp_all add: demo_live)
  have px: "k_nsproxies demo_kernel 4 = Some 0" by (simp add: demo_kernel_def)
  have "ns_anc demo_kernel 1 0" by (rule anc_step [OF l(2) _ anc_refl [OF l(1)]]) (simp add: demo_ns1_def)
  then have "install_code demo_env demo_kernel 0 1 demo_ns1 = 0" by (simp add: install_code_def demo_env_def)
  with pidns_install_correct [OF demo_ns_ok demo_active l px l(1)] show ?thesis by (auto simp: init_pid_ns_def)
qed

text \<open>
  \<^verbatim>\<open>pidns_get_parent\<close> ends without a fault; it returns the parent, with one more reference, exactly if
  the active namespace of the task is the parent or an ancestor of it, and \<^verbatim>\<open>-EPERM\<close> otherwise.
\<close>

theorem pidns_get_parent_correct:
  assumes "ns_ok sl_inv h k" and "task_active_pid_ns e (k_current k) k = Some (Some act)" and "live k ns n"
  shows "\<exists>r k'. pidns_get_parent e ns k = Some (r, k') \<and>
     (case ns_parent n of None \<Rightarrow> r = ErrPtr (- EPERM) \<and> k' = k
      | Some b \<Rightarrow> if ns_anc k b act then r = ValidPtr b \<and> get_pid_ns b k = Some k' \<and> ns_ok sl_inv (h(b := Suc (h b))) k'
          else r = ErrPtr (- EPERM) \<and> k' = k)"
proof -
  have wf: "ns_wf sl_inv k" and na: "k_ns k ns = Some n" using assms(1,3) by (auto simp: ns_ok_def live_def)
  have err: "ERR_PTR (- EPERM) = (ErrPtr (- EPERM) :: nsaddr errptr)" by (simp add: ERR_PTR_def)
  show ?thesis
  proof (cases "ns_parent n")
    case None
    have "parent_visible k (Some act) None = Some False" by (subst parent_visible.simps) simp
    with None na assms(2) err show ?thesis by (simp add: pidns_get_parent_def)
  next
    case (Some b)
    obtain m where m: "live k b m" using ns_wf_parent [OF wf assms(3) Some] by blast
    have vis: "parent_visible k (Some act) (Some b) = Some (ns_anc k b act)" using parent_visible_ok [OF wf m] by auto
    obtain k1 where "get_pid_ns b k = Some k1" "ns_ok sl_inv (h(b := Suc (h b))) k1" using ns_ok_get [OF assms(1) m] by blast
    with Some vis na assms(2) err show ?thesis by (simp add: pidns_get_parent_def)
  qed
qed

theorem pidns_get_parent_correct_witness:
  "\<exists>k'. pidns_get_parent demo_env 1 demo_kernel = Some (ValidPtr 0, k')"
proof -
  have l: "live demo_kernel 0 demo_ns0" "live demo_kernel 1 demo_ns1" by (simp_all add: demo_live)
  from pidns_get_parent_correct [OF demo_ns_ok demo_active l(2)] anc_refl [OF l(1)] show ?thesis
    by (auto simp: demo_ns1_def)
qed



text \<open>
  C30. A write to \<^verbatim>\<open>ns_last_pid\<close> needs the capability, and the cursor it leaves is between 0 and \<^verbatim>\<open>pid_max\<close>, so
  the addition of 1 at the next allocation does not overflow; a read changes nothing.
\<close>

theorem pid_ns_ctl_handler_bounds:
  assumes "minmax_ok e" and "task_active_pid_ns e (k_current k) k = Some (Some a)" and "k_ns k a = Some n"
    and "0 \<le> last_pid n" and "last_pid n \<le> pid_max k"
  shows "\<exists>ret k' n'. pid_ns_ctl_handler e wr k = Some (ret, k') \<and> k_ns k' = (k_ns k)(a \<mapsto> n') \<and>
     0 \<le> last_pid n' \<and> last_pid n' \<le> pid_max k \<and> (k' \<noteq> k \<longrightarrow> wr \<and> ns_capable e (user_ns n) \<and> ret = 0)"
proof (cases "wr \<and> \<not> ns_capable e (user_ns n)")
  case True
  with assms show ?thesis by (auto simp: pid_ns_ctl_handler_def fun_upd_triv intro!: exI [of _ n])
next
  case False
  obtain r v where rv: "proc_dointvec_minmax e wr 0 (pid_max k) (last_pid n) = (r, v)" by force
  show ?thesis
  proof (cases "r = 0 \<and> wr")
    case True
    then have "0 \<le> v \<and> v \<le> pid_max k" using assms(1,4,5) rv unfolding minmax_ok_def by metis
    with True False rv assms(2,3) show ?thesis
      by (intro exI [of _ 0] exI [of _ "k\<lparr>k_ns := (k_ns k)(a \<mapsto> n\<lparr>last_pid := v\<rparr>)\<rparr>"] exI [of _ "n\<lparr>last_pid := v\<rparr>"])
        (simp add: pid_ns_ctl_handler_def ns_upd_def)
  next
    case no: False
    with False rv assms(2-5) show ?thesis
      by (intro exI [of _ r] exI [of _ k] exI [of _ n]) (auto simp: pid_ns_ctl_handler_def fun_upd_triv)
  qed
qed

theorem pid_ns_ctl_handler_bounds_witness:
  "\<exists>ret k' n'. pid_ns_ctl_handler demo_env True demo_kernel = Some (ret, k') \<and> k_ns k' 0 = Some n' \<and> last_pid n' \<le> 20"
proof -
  have "minmax_ok demo_env" by (simp add: minmax_ok_def demo_env_def)
  moreover have "k_ns demo_kernel 0 = Some demo_ns0" "last_pid demo_ns0 = 9" "pid_max demo_kernel = 20"
    by (simp_all add: demo_kernel_def demo_ns0_def)
  ultimately show ?thesis using pid_ns_ctl_handler_bounds [OF _ demo_active, of demo_ns0 True] by fastforce
qed

section \<open>The transition system\<close>



end
