(* ===== verification/Rb_Properties.thy ===== *)
theory Rb_Properties
  imports Skiplist_Properties
begin

text \<open>
  The properties of the red-black variant \<^verbatim>\<open>src/rb-skiplist/pid_rb_skiplist.c\<close>, with the kernel's tree
  functions as a parameter.  The witnesses use functions that do not balance at all, which meet the
  documented behaviour.
\<close>

section \<open>Concrete instances\<close>

primrec spine :: "'a list \<Rightarrow> 'a tree" where
  "spine [] = Leaf"
| "spine (x # xs) = Node Leaf x (spine xs)"

lemma inorder_spine [simp]: "inorder (spine xs) = xs"
  by (induction xs) auto

definition unbalanced_api :: rb_api where
  "unbalanced_api = \<lparr>rb_insert_color = \<lambda>_ t. t, rb_erase = \<lambda>a t. spine (remove1 a (inorder t))\<rparr>"

lemma unbalanced_api_ok: "rb_api_ok unbalanced_api"
  by (simp add: unbalanced_api_def rb_api_ok_def)

definition empty_rb :: pid_rb_skiplist where
  "empty_rb = the (pid_rb_skiplist_init (draw_ok 1) GFP_KERNEL zero_rb)"

lemma empty_rb_ok: "rb_flat empty_rb" "rb_inv empty_rb" "sl_abs empty_rb = Map.empty" "tree_keys empty_rb = {}"
proof -
  obtain sl where "pid_rb_skiplist_init (draw_ok 1) GFP_KERNEL zero_rb = Some sl" "rb_flat sl"
      "sl_abs sl = Map.empty"
    using rb_init_abs [OF draw_ok_nofail, of zero_rb] by (auto simp: zero_rb_def)
  then show "rb_flat empty_rb" "rb_inv empty_rb" "sl_abs empty_rb = Map.empty" "tree_keys empty_rb = {}"
    by (simp_all add: empty_rb_def rb_flat_def tree_keys_def)
qed

section \<open>Properties\<close>

text \<open>
  C8. As long as no random number is zero, the red-black variant refines the abstract map: any run of
  insertions and removals from the initialised list returns without a fault, each insertion returns 0
  or \<^verbatim>\<open>-ENOMEM\<close>, and the final map is the one that the returned values describe.
\<close>

theorem rb_run_refines_map:
  assumes "nofail_promise d" and "sl_nodes sl0 = Map.empty" and "sl_rcu sl0 = []"
    and "list_all (cmd_draw (\<lambda>d. prandom_u32 d \<noteq> 0)) cs"
  shows "\<exists>sl1 rs sl. pid_rb_skiplist_init d g sl0 = Some sl1 \<and>
     op_run (rb_skiplist_ops api) sl1 cs = Some (rs, sl) \<and> rb_inv sl \<and>
     length rs = length cs \<and> set rs \<subseteq> {0, - ENOMEM} \<and>
     sl_abs sl = foldl idx_apply Map.empty (zip cs rs)"
proof -
  obtain sl1 where "pid_rb_skiplist_init d g sl0 = Some sl1" "rb_flat sl1" "sl_abs sl1 = Map.empty"
    using rb_init_abs [OF assms(1-3)] by blast
  then show ?thesis using rbskip.run_refines [of sl1 cs api] assms(4) by (auto simp: rb_flat_def)
qed

theorem rb_run_refines_map_witness:
  "\<exists>sl1 rs sl. pid_rb_skiplist_init (draw_ok 1) GFP_KERNEL zero_rb = Some sl1 \<and>
     op_run (rb_skiplist_ops unbalanced_api) sl1 [IInsert (draw_ok 16) 9 (Some 90) GFP_ATOMIC, IRemove 9]
       = Some (rs, sl) \<and> sl_abs sl = Map.empty"
  using rb_run_refines_map [OF draw_ok_nofail [of 1], where ?sl0.0 = zero_rb and g = GFP_KERNEL
    and cs = "[IInsert (draw_ok 16) 9 (Some 90) GFP_ATOMIC, IRemove 9]" and api = unbalanced_api]
  by (fastforce simp: zero_rb_def draw_ok_def length_Suc_conv)

text \<open>
  C9. For a number that no node of the tree holds the operations of the red-black variant are those of
  the map, whatever the tree contains: insertion binds it (or fails with \<^verbatim>\<open>-ENOMEM\<close> and no effect on
  the map), lookup and successor search find it, removal unbinds it, and the invariant that ties the
  tree to the nodes of the maximal level is kept.
\<close>

theorem rb_operations_correct_off_tree:
  assumes "rb_inv sl" and "k \<notin> tree_keys sl" and "rb_api_ok api"
  shows "pid_rb_skiplist_lookup_rcu sl k = Some (idx_get (sl_abs sl) k) \<and>
     pid_rb_skiplist_find_ge_rcu sl k = Some (idx_find_ge (sl_abs sl) k) \<and>
     (\<exists>sl'. pid_rb_skiplist_remove api sl k = Some sl' \<and> rb_inv sl' \<and> sl_abs sl' = (sl_abs sl)(k := None)) \<and>
     (\<exists>r sl'. pid_rb_skiplist_insert api d sl k p g = Some (r, sl') \<and> rb_inv sl' \<and>
        (if k \<in> dom (sl_abs sl) \<or> node_alloc_ok d g then r = 0 \<and> sl_abs sl' = (sl_abs sl)(k \<mapsto> p)
         else r = - ENOMEM \<and> sl_abs sl' = sl_abs sl))"
proof -
  obtain hdr as where r: "rb_rep sl hdr as" using assms(1) by (rule rb_invE)
  obtain sl' where "pid_rb_skiplist_insert api d sl k p g
       = Some (if k \<in> dom (sl_abs sl) \<or> node_alloc_ok d g then 0 else - ENOMEM, sl')" "rb_inv sl'"
     "sl_abs sl' = (if k \<in> dom (sl_abs sl) \<or> node_alloc_ok d g then (sl_abs sl)(k \<mapsto> p) else sl_abs sl)"
    using rb_insert_cases [OF assms(1,2), of d api p g] assms(3) by blast
  then have "\<exists>r sl'. pid_rb_skiplist_insert api d sl k p g = Some (r, sl') \<and> rb_inv sl' \<and>
        (if k \<in> dom (sl_abs sl) \<or> node_alloc_ok d g then r = 0 \<and> sl_abs sl' = (sl_abs sl)(k \<mapsto> p)
         else r = - ENOMEM \<and> sl_abs sl' = sl_abs sl)"
    by (intro exI [of _ "if k \<in> dom (sl_abs sl) \<or> node_alloc_ok d g then 0 else - ENOMEM"] exI [of _ sl']) simp
  then show ?thesis
    using rb_lookup_rep [OF r assms(2)] rb_find_ge_rep [OF r assms(2)] rb_remove_cases [OF assms(1,2), of api]
    by blast
qed

theorem rb_operations_correct_off_tree_witness:
  "rb_inv empty_rb \<and> 7 \<notin> tree_keys empty_rb \<and> rb_api_ok unbalanced_api \<and>
   (\<exists>sl'. pid_rb_skiplist_insert unbalanced_api (draw_ok 0) empty_rb 7 (Some 70) GFP_ATOMIC = Some (0, sl') \<and>
     sl_abs sl' = [7 \<mapsto> Some 70])"
  using rb_operations_correct_off_tree [OF empty_rb_ok(2) _ unbalanced_api_ok, of 7 "draw_ok 0" "Some 70" GFP_ATOMIC]
  by (auto simp: empty_rb_ok unbalanced_api_ok)

text \<open>
  C10. A number whose node is in the tree is invisible to the search, because \<^verbatim>\<open>rb_find_le\<close> returns that
  node itself as the place to start from: although the number is bound, the lookup returns \<^verbatim>\<open>NULL\<close>,
  the removal removes nothing, and the successor search skips it.
\<close>

theorem rb_tree_number_invisible:
  assumes "rb_inv sl" and "k \<in> tree_keys sl"
  shows "k \<in> dom (sl_abs sl) \<and> pid_rb_skiplist_lookup_rcu sl k = Some None \<and>
     pid_rb_skiplist_remove api sl k = Some sl \<and>
     pid_rb_skiplist_find_ge_rcu sl k = Some (idx_find_ge (sl_abs sl) (k + 1))"
proof -
  obtain hdr as where r: "rb_rep sl hdr as" and a: "sl_abs sl = node_map (sl_nodes sl) as"
    using assms(1) by (rule rb_invE)
  have "k \<in> dom (sl_abs sl)" using assms(2) rb_rep_tree(1) [OF r] by (auto simp: a dom_node_map tree_keys_def)
  with rb_tree_key_invisible [OF r assms(2)] show ?thesis by simp
qed

lemma rb_insert_zero:
  assumes "rb_inv sl" and "k \<notin> dom (sl_abs sl)" and "rb_api_ok api"
    and "prandom_u32 d = 0" and "node_alloc_ok d g"
  shows "\<exists>sl'. pid_rb_skiplist_insert api d sl k p g = Some (0, sl') \<and> rb_inv sl' \<and>
     sl_abs sl' = (sl_abs sl)(k \<mapsto> p) \<and> k \<in> tree_keys sl'"
proof -
  obtain hdr as where r: "rb_rep sl hdr as" and a: "sl_abs sl = node_map (sl_nodes sl) as"
    using assms(1) by (rule rb_invE)
  have "k \<notin> key_of (sl_nodes sl) ` set as" using assms(2) by (simp add: a dom_node_map)
  from rb_insert_new [OF assms(3) r this assms(5), of p] assms(4) show ?thesis
    unfolding rb_inv_def by auto
qed

definition demo_rb :: pid_rb_skiplist where
  "demo_rb = snd (the (pid_rb_skiplist_insert unbalanced_api (draw_ok 0) empty_rb 7 (Some 70) GFP_ATOMIC))"

lemma demo_rb_ok: "rb_inv demo_rb" "sl_abs demo_rb = [7 \<mapsto> Some 70]" "7 \<in> tree_keys demo_rb"
proof -
  have "prandom_u32 (draw_ok 0) = 0" by (simp add: draw_ok_def)
  from rb_insert_zero [OF empty_rb_ok(2) _ unbalanced_api_ok this, of 7 GFP_ATOMIC "Some 70"]
  show "rb_inv demo_rb" "sl_abs demo_rb = [7 \<mapsto> Some 70]" "7 \<in> tree_keys demo_rb"
    by (auto simp: demo_rb_def empty_rb_ok)
qed

theorem rb_tree_number_invisible_witness:
  "rb_inv demo_rb \<and> sl_abs demo_rb 7 = Some (Some 70) \<and> pid_rb_skiplist_lookup_rcu demo_rb 7 = Some None \<and>
   pid_rb_skiplist_remove unbalanced_api demo_rb 7 = Some demo_rb"
  using rb_tree_number_invisible [OF demo_rb_ok(1,3)] demo_rb_ok by simp

text \<open>
  When the random number is zero, the new node gets the maximal level and enters the tree: the
  insertion reports success and the very next lookup of the number returns \<^verbatim>\<open>NULL\<close>.
\<close>

theorem rb_insert_then_lookup_lost:
  assumes "rb_inv sl" and "k \<notin> dom (sl_abs sl)" and "rb_api_ok api"
    and "prandom_u32 d = 0" and "node_alloc_ok d g"
  shows "\<exists>sl'. pid_rb_skiplist_insert api d sl k p g = Some (0, sl') \<and> rb_inv sl' \<and>
     sl_abs sl' = (sl_abs sl)(k \<mapsto> p) \<and> pid_rb_skiplist_lookup_rcu sl' k = Some None"
proof -
  obtain sl' where sl': "pid_rb_skiplist_insert api d sl k p g = Some (0, sl')" "rb_inv sl'"
     "sl_abs sl' = (sl_abs sl)(k \<mapsto> p)" "k \<in> tree_keys sl'"
    using rb_insert_zero [OF assms] by blast
  obtain hdr as where "rb_rep sl' hdr as" using sl'(2) by (rule rb_invE)
  from rb_tree_key_invisible(1) [OF this sl'(4)] sl' show ?thesis by blast
qed

theorem rb_insert_then_lookup_lost_witness:
  "prandom_u32 (draw_ok 0) = 0 \<and>
   (\<exists>sl'. pid_rb_skiplist_insert unbalanced_api (draw_ok 0) empty_rb 7 (Some 70) GFP_ATOMIC = Some (0, sl') \<and>
     sl_abs sl' = [7 \<mapsto> Some 70] \<and> pid_rb_skiplist_lookup_rcu sl' 7 = Some None)"
proof -
  have z: "prandom_u32 (draw_ok 0) = 0" by (simp add: draw_ok_def)
  from rb_insert_then_lookup_lost [OF empty_rb_ok(2) _ unbalanced_api_ok z, of 7 GFP_ATOMIC "Some 70"] z
  show ?thesis by (auto simp: empty_rb_ok)
qed

text \<open>
  \<^verbatim>\<open>pid_rb_skiplist_destroy\<close> takes every node of the tree out of it before it frees the node: the tree
  ends empty, and together with the pending RCU callbacks every node is freed exactly once.
\<close>

theorem rb_destroy_frees_all:
  assumes "rb_inv sl" and "rb_api_ok api"
  shows "\<exists>sl'. pid_rb_skiplist_destroy api sl = Some sl' \<and> top_rb_root sl' = Leaf \<and>
     rcu_free_all (sl_rcu sl') (sl_nodes sl') = Some Map.empty"
proof -
  obtain hdr as where r: "rb_rep sl hdr as" and s: "sl_rep sl hdr as" using assms(1) by (rule rb_invE)
  have hd: "sl_header sl = Some hdr" and d: "distinct (hdr # as @ sl_rcu sl)"
    and dom: "dom (sl_nodes sl) = set (hdr # as @ sl_rcu sl)"
    using s by (auto simp: sl_rep_def)
  obtain nx sl1 where 1: "rd_fwd (sl_nodes sl) hdr 0 = Some nx" "rb_free_chain api sl nx = Some sl1"
      "sl_nodes sl1 = sl_nodes sl |` (- set as)" "top_rb_root sl1 = Leaf" "sl_rcu sl1 = sl_rcu sl"
    using rb_free_chain_rep [OF assms(2) r] by blast
  define h where "h = (sl_nodes sl1)(hdr := None)"
  obtain n where "sl_nodes sl1 hdr = Some n" using d dom 1(3) by (auto simp: restrict_map_def dom_def)
  then have "pid_rb_skiplist_destroy api sl = Some (sl1\<lparr>sl_nodes := h\<rparr>)"
    using 1 hd by (simp add: pid_rb_skiplist_destroy_def kfree_node_def h_def)
  moreover have dom': "dom h = set (sl_rcu sl)" using d dom 1(3) by (auto simp: h_def)
  then have "rcu_free_all (sl_rcu sl) h = Some (h |` (- set (sl_rcu sl)))"
    using d by (intro rcu_free_all_ok) auto
  moreover have "h |` (- set (sl_rcu sl)) = Map.empty"
    using dom' by (metis Compl_disjoint dom_eq_empty_conv dom_restrict)
  ultimately show ?thesis using 1 by (intro exI [of _ "sl1\<lparr>sl_nodes := h\<rparr>"]) simp
qed

theorem rb_destroy_frees_all_witness:
  "tree_keys demo_rb \<noteq> {} \<and> (\<exists>sl'. pid_rb_skiplist_destroy unbalanced_api demo_rb = Some sl' \<and>
     top_rb_root sl' = Leaf \<and> rcu_free_all (sl_rcu sl') (sl_nodes sl') = Some Map.empty)"
  using rb_destroy_frees_all [OF demo_rb_ok(1) unbalanced_api_ok] demo_rb_ok(3) by blast

end
