(* ===== verification/Rb_Kernel.thy ===== *)
theory Rb_Kernel
  imports Kernel_Demo Rb_Properties
begin

text \<open>
  The functions of \<^verbatim>\<open>src/rb-skiplist/pid.c\<close> and \<^verbatim>\<open>src/rb-skiplist/pid_namespace.c\<close> that use the index.  Their
  text is that of the other tree with the operations of \<^verbatim>\<open>pid_rb_skiplist.c\<close> in place of those of
  \<^verbatim>\<open>pid_skiplist.c\<close>, so each is the model of the function at these operations; \<open>api\<close> stands for the
  kernel's red-black tree functions.
\<close>

type_synonym rb_kernel = "pid_rb_skiplist kernel"

section \<open>pid.c\<close>

definition rb_put_pid :: "rb_api \<Rightarrow> paddr option \<Rightarrow> rb_kernel \<Rightarrow> rb_kernel option" where
  "rb_put_pid api = put_pid (rb_skiplist_ops api)"

definition rb_free_pid :: "rb_api \<Rightarrow> paddr \<Rightarrow> rb_kernel \<Rightarrow> rb_kernel option" where
  "rb_free_pid api = free_pid (rb_skiplist_ops api)"

definition rb_alloc_nr :: "rb_api \<Rightarrow> kenv \<Rightarrow> nsaddr \<Rightarrow> int \<Rightarrow> rb_kernel \<Rightarrow> (int \<times> int \<times> rb_kernel) option" where
  "rb_alloc_nr api = alloc_nr (rb_skiplist_ops api)"

definition rb_alloc_out_free :: "rb_api \<Rightarrow> nsaddr \<Rightarrow> paddr \<Rightarrow> int \<Rightarrow> int \<Rightarrow> rb_kernel \<Rightarrow> (paddr errptr \<times> rb_kernel) option" where
  "rb_alloc_out_free api = alloc_out_free (rb_skiplist_ops api)"

definition rb_alloc_pid :: "rb_api \<Rightarrow> kenv \<Rightarrow> nsaddr \<Rightarrow> rb_kernel \<Rightarrow> (paddr errptr \<times> rb_kernel) option" where
  "rb_alloc_pid api = alloc_pid (rb_skiplist_ops api)"

definition rb_find_pid_ns :: "rb_api \<Rightarrow> int \<Rightarrow> nsaddr \<Rightarrow> rb_kernel \<Rightarrow> paddr option option" where
  "rb_find_pid_ns api = find_pid_ns (rb_skiplist_ops api)"

definition rb_find_ge_pid :: "rb_api \<Rightarrow> int \<Rightarrow> nsaddr option \<Rightarrow> rb_kernel \<Rightarrow> paddr option option" where
  "rb_find_ge_pid api = find_ge_pid (rb_skiplist_ops api)"

definition rb_change_pid_internal :: "rb_api \<Rightarrow> taddr \<Rightarrow> pid_type \<Rightarrow> paddr option \<Rightarrow> rb_kernel \<Rightarrow> rb_kernel option" where
  "rb_change_pid_internal api = change_pid_internal (rb_skiplist_ops api)"

definition rb_detach_pid :: "rb_api \<Rightarrow> taddr \<Rightarrow> pid_type \<Rightarrow> rb_kernel \<Rightarrow> rb_kernel option" where
  "rb_detach_pid api = detach_pid (rb_skiplist_ops api)"

definition rb_change_pid :: "rb_api \<Rightarrow> taddr \<Rightarrow> pid_type \<Rightarrow> paddr option \<Rightarrow> rb_kernel \<Rightarrow> rb_kernel option" where
  "rb_change_pid api = change_pid (rb_skiplist_ops api)"

definition rb_find_task_by_pid_ns :: "rb_api \<Rightarrow> int \<Rightarrow> nsaddr \<Rightarrow> rb_kernel \<Rightarrow> taddr option option" where
  "rb_find_task_by_pid_ns api = find_task_by_pid_ns (rb_skiplist_ops api)"

definition rb_find_get_pid :: "rb_api \<Rightarrow> kenv \<Rightarrow> int \<Rightarrow> rb_kernel \<Rightarrow> (paddr option \<times> rb_kernel) option" where
  "rb_find_get_pid api = find_get_pid (rb_skiplist_ops api)"

definition rb_pidfd_create :: "rb_api \<Rightarrow> kenv \<Rightarrow> paddr \<Rightarrow> rb_kernel \<Rightarrow> (int \<times> rb_kernel) option" where
  "rb_pidfd_create api = pidfd_create (rb_skiplist_ops api)"

definition rb_pidfd_open :: "rb_api \<Rightarrow> kenv \<Rightarrow> int \<Rightarrow> 32 word \<Rightarrow> rb_kernel \<Rightarrow> (int \<times> rb_kernel) option" where
  "rb_pidfd_open api = pidfd_open (rb_skiplist_ops api)"

definition rb_pid_idr_init :: "rb_api \<Rightarrow> kenv \<Rightarrow> rb_kernel \<Rightarrow> rb_kernel option" where
  "rb_pid_idr_init api = pid_idr_init (rb_skiplist_ops api)"

section \<open>pid\_namespace.c\<close>

definition rb_create_pid_namespace :: "rb_api \<Rightarrow> kenv \<Rightarrow> nat \<Rightarrow> nsaddr \<Rightarrow> rb_kernel \<Rightarrow> (nsaddr errptr \<times> rb_kernel) option" where
  "rb_create_pid_namespace api = create_pid_namespace (rb_skiplist_ops api) zero_rb"

definition rb_destroy_pid_namespace :: "rb_api \<Rightarrow> nsaddr \<Rightarrow> rb_kernel \<Rightarrow> rb_kernel option" where
  "rb_destroy_pid_namespace api = destroy_pid_namespace (rb_skiplist_ops api)"

definition rb_copy_pid_ns :: "rb_api \<Rightarrow> kenv \<Rightarrow> 64 word \<Rightarrow> nat \<Rightarrow> nsaddr \<Rightarrow> rb_kernel \<Rightarrow> (nsaddr errptr \<times> rb_kernel) option" where
  "rb_copy_pid_ns api = copy_pid_ns (rb_skiplist_ops api) zero_rb"

definition rb_put_pid_ns :: "rb_api \<Rightarrow> nsaddr option \<Rightarrow> rb_kernel \<Rightarrow> rb_kernel option" where
  "rb_put_pid_ns api = put_pid_ns (rb_skiplist_ops api)"

definition rb_zap_pid_ns_processes :: "rb_api \<Rightarrow> kenv \<Rightarrow> (rb_kernel \<Rightarrow> (int \<times> rb_kernel) option)
    \<Rightarrow> (rb_kernel \<Rightarrow> rb_kernel option) \<Rightarrow> nsaddr \<Rightarrow> rb_kernel \<Rightarrow> rb_kernel option" where
  "rb_zap_pid_ns_processes api = zap_pid_ns_processes (rb_skiplist_ops api)"

definition rb_pidns_for_children_get :: "rb_api \<Rightarrow> taddr \<Rightarrow> rb_kernel \<Rightarrow> (nsaddr option \<times> rb_kernel) option" where
  "rb_pidns_for_children_get api = pidns_for_children_get (rb_skiplist_ops api)"

definition rb_pidns_install :: "rb_api \<Rightarrow> kenv \<Rightarrow> nat \<Rightarrow> nsaddr \<Rightarrow> rb_kernel \<Rightarrow> (int \<times> rb_kernel) option" where
  "rb_pidns_install api = pidns_install (rb_skiplist_ops api)"

lemmas rb_pid_defs = rb_alloc_pid_def rb_free_pid_def rb_find_pid_ns_def rb_create_pid_namespace_def rb_put_pid_ns_def
  rb_pid_idr_init_def

section \<open>An example state\<close>

definition rb_demo_ns0 :: "pid_rb_skiplist pid_namespace" where
  "rb_demo_ns0 = \<lparr>kref = 2, pid_sl = empty_rb, last_pid = 0, pid_allocated = PIDNS_ADDING, child_reaper = Some 1,
     pid_cachep = Some 0, ns_level = 0, ns_parent = None, user_ns = 0, ucounts = 0, reboot = 0\<rparr>"

definition rb_boot_state :: rb_kernel where
  "rb_boot_state = static_state zero_rb 1 \<lparr>thread_pid = Some 0, signal = 1, pid_links = (\<lambda>_. None), usage = 2, nsproxy = None\<rparr>
     0 32768 4194304"

definition rb_demo_kernel :: rb_kernel where
  "rb_demo_kernel = rb_boot_state\<lparr>k_ns := [0 \<mapsto> rb_demo_ns0], k_tick := 2\<rparr>"

lemma rb_demo_live: "live rb_demo_kernel a n \<longleftrightarrow> a = 0 \<and> n = rb_demo_ns0"
  by (auto simp: live_def rb_demo_kernel_def rb_demo_ns0_def split: if_splits)

lemma rb_demo_kinv: "kinv rb_flat sl_abs rb_demo_kernel"
proof -
  have "ns_wf rb_flat rb_demo_kernel" by (simp add: ns_wf_def rb_demo_live) (simp add: rb_demo_ns0_def empty_rb_ok)
  moreover have "pids_wf rb_demo_kernel"
    by (auto simp: pids_wf_def rb_demo_kernel_def rb_boot_state_def static_state_def init_struct_pid_def split: if_splits)
  moreover have "index_wf sl_abs rb_demo_kernel"
    by (simp add: index_wf_def rb_demo_live) (simp add: rb_demo_ns0_def empty_rb_ok idx_get_def)
  moreover have "ns_bound rb_demo_kernel"
    by (simp add: ns_bound_def rb_demo_kernel_def rb_boot_state_def static_state_def)
  ultimately show ?thesis by (simp add: kinv_def)
qed

lemma demo_env_nonzero: "prandom_u32 (e_draw demo_env t) \<noteq> 0"
  by (simp add: demo_env_def draw_ok_def)

section \<open>Properties\<close>

text \<open>
  C32. Allocation over the red-black variant is as correct as over the skip list as long as no node draws
  the random number 0: \<^verbatim>\<open>alloc_pid\<close> does not fault, keeps the invariant, and its result is one that the
  specification of \<^verbatim>\<open>alloc_pid\<close> allows; and freeing a pid right after its allocation takes every lookup
  back to what it was.
\<close>

theorem rb_alloc_pid_correct:
  assumes "kinv rb_flat sl_abs k" and "live k ns n" and "\<forall>t. prandom_u32 (e_draw e t) \<noteq> 0"
  shows "\<exists>r k'. rb_alloc_pid api e ns k = Some (r, k') \<and> kinv rb_flat sl_abs k' \<and> alloc_result e sl_abs k ns n r k' \<and>
     (\<forall>p. r = ValidPtr p \<longrightarrow>
       (\<exists>k2. rb_free_pid api p k' = Some k2 \<and> kinv rb_flat sl_abs k2 \<and> lookup_in sl_abs k2 = lookup_in sl_abs k))"
  unfolding rb_pid_defs using rbk.alloc_pid_ok [OF assms] rbk.alloc_free_ok [OF assms] by metis

theorem rb_alloc_pid_correct_witness:
  "\<exists>r k'. rb_alloc_pid unbalanced_api demo_env 0 rb_demo_kernel = Some (r, k') \<and> kinv rb_flat sl_abs k'"
  using rb_alloc_pid_correct [OF rb_demo_kinv, of 0 rb_demo_ns0 demo_env unbalanced_api] demo_env_nonzero
  by (auto simp: rb_demo_live)



end
