(* ===== verification/Spu_State.thy ===== *)
theory Spu_State
  imports Kernel_Prelude
begin

text \<open>
  The state of the SPU scheduler of \<^verbatim>\<open>sched.c\<close>: contexts, physical SPUs and gangs in heaps of their own, the
  array \<^verbatim>\<open>cbe_spu_info\<close>, the run queues behind \<^verbatim>\<open>spu_prio\<close>, the timers and the load averages.  The
  structures of \<^verbatim>\<open>spufs.h\<close> and \<^verbatim>\<open>asm/spu.h\<close> are not part of the repository; the records hold the fields that
  \<^verbatim>\<open>sched.c\<close> reads or writes.  A fault (NULL, freed memory, an index out of range, \<^verbatim>\<open>BUG\<close>) is \<open>None\<close>.

  A list that a structure is linked on is kept at its head, in order.  \<open>c_rq\<close> tells on which run queue the
  context's link \<^verbatim>\<open>rq\<close> is, and \<open>aff_list\<close> of a gang holds the contexts linked through \<^verbatim>\<open>aff_list\<close>.  The mutexes
  and spin locks serialise the operations and do not appear, except for \<^verbatim>\<open>mutex_trylock\<close>, which can fail.
\<close>

section \<open>Structures\<close>

type_synonym caddr = nat
type_synonym saddr = nat
type_synonym gaddr = nat

datatype util = SPU_UTIL_USER | SPU_UTIL_SYSTEM | SPU_UTIL_IOWAIT | SPU_UTIL_IDLE_LOADED
datatype spu_state = SPU_STATE_RUNNABLE | SPU_STATE_SAVED
datatype alloc = SPU_FREE | SPU_USED
datatype create_flag = SPU_CREATE_NOSCHED | SPU_CREATE_AFFINITY_MEM
datatype sched_flag = SPU_SCHED_NOTIFY_ACTIVE | SPU_SCHED_SPU_RUN
datatype aff_flag = AFF_OFFSETS_SET | AFF_MERGED
datatype spu_ops = SpuHwOps | SpuBackingOps

record spu_stats =
  st_util :: util
  st_tstamp :: "64 word"
  st_times :: "util \<Rightarrow> 64 word"
  st_invol :: "64 word"
  st_slb :: "64 word"
  st_class2 :: "64 word"

record spu_context =
  c_spu :: "saddr option"
  c_state :: spu_state
  c_flags :: "create_flag set"
  c_ops :: spu_ops
  c_gang :: "gaddr option"
  aff_offset :: int
  c_rq :: "nat option"
  time_slice :: "32 word"
  sched_flags :: "sched_flag set"
  cpus_allowed :: "nat set"
  c_policy :: nat
  c_prio :: nat
  c_tid :: int
  last_ran :: nat
  c_kref :: nat
  c_stats :: spu_stats
  slb_flt_base :: "64 word"
  class2_intr_base :: "64 word"

text \<open>The four callbacks are set and cleared together.\<close>

record spu =
  s_node :: nat
  s_ctx :: "caddr option"
  alloc_state :: alloc
  has_mem_affinity :: bool
  s_pid :: int
  s_tgid :: int
  s_flags :: "64 word"
  s_callbacks :: bool
  s_timestamp :: "64 word"
  s_stats :: spu_stats

record spu_gang =
  g_contexts :: int
  aff_list :: "caddr list"
  aff_ref_ctx :: "caddr option"
  aff_ref_spu :: "saddr option"
  aff_flags :: "aff_flag set"
  aff_sched_count :: int

text \<open>An element of \<^verbatim>\<open>cbe_spu_info\<close>; \<open>aff_ring\<close> is the ring of its SPUs through their links \<^verbatim>\<open>aff_list\<close>.\<close>

record cbe_info =
  n_spus :: "saddr list"
  aff_ring :: "saddr list"
  nr_active :: int
  busy_spus :: int
  reserved_spus :: int

record spu_prio_array =
  bitmap :: "nat \<Rightarrow> bool"
  runq :: "nat \<Rightarrow> caddr list"
  nr_waiting :: int

datatype spu_event =
    WakeStopAll caddr
  | WakeStop caddr
  | WakeRunAll caddr
  | AssociateMm saddr "caddr option"
  | UnmapMappings caddr
  | SwitchLogStart saddr caddr
  | SwitchLogStop saddr caddr
  | SwitchNotify saddr "caddr option"
  | SpuRestore caddr saddr
  | SpuSave caddr saddr
  | InitChannels saddr
  | DestroyContext caddr
  | NegativeDelta
  | WakeSchedTask
  | StopSchedTask

record spu_sys =
  sy_ctx :: "caddr \<Rightarrow> spu_context option"
  sy_spu :: "saddr \<Rightarrow> spu option"
  sy_gang :: "gaddr \<Rightarrow> spu_gang option"
  sy_node :: "nat \<Rightarrow> cbe_info"
  sy_prio :: "spu_prio_array option"
  spusched_timer :: "64 word option"
  spuloadavg_timer :: "64 word option"
  spu_avenrun :: "64 word \<times> 64 word \<times> 64 word"
  sy_tick :: nat
  sy_events :: "spu_event list"

section \<open>The rest of the kernel\<close>

text \<open>
  Constants of other headers, the current task and processor, the topology, and the results of calls into
  the rest of the kernel, which take the number of the call where they may differ from call to call.
\<close>

record spu_env =
  MAX_NUMNODES :: nat
  MAX_PRIO :: nat
  MAX_USER_PRIO :: nat
  MAX_RT_PRIO :: nat
  HZ :: int
  SCHED_FIFO :: nat
  LOAD_FREQ :: "64 word"
  FIXED_1 :: "64 word"
  EXP_1 :: "64 word"
  EXP_5 :: "64 word"
  EXP_15 :: "64 word"
  calc_load :: "64 word \<Rightarrow> 64 word \<Rightarrow> 64 word \<Rightarrow> 64 word"
  cpu_node :: nat
  this_cpu :: nat
  online_nodes :: "nat list"
  nr_cpus_node :: "nat \<Rightarrow> nat"
  cpumask_of_node :: "nat \<Rightarrow> nat set"
  cur_pid :: int
  cur_tgid :: int
  cur_prio :: nat
  cur_static_prio :: nat
  cur_policy :: nat
  cur_cpus :: "nat set"
  signal_pending :: "nat \<Rightarrow> bool"
  ktime_get_ns :: "nat \<Rightarrow> 64 word"
  jiffies :: "nat \<Rightarrow> 64 word"
  spu_stopped :: "nat \<Rightarrow> caddr \<Rightarrow> bool"
  runcntl_runnable :: "nat \<Rightarrow> caddr \<Rightarrow> bool"
  mutex_trylock :: "nat \<Rightarrow> caddr \<Rightarrow> bool"
  spu_acquire :: "nat \<Rightarrow> caddr \<Rightarrow> int"
  kthread_should_stop :: "nat \<Rightarrow> bool"

text \<open>The values of \<^verbatim>\<open>linux/sched/prio.h\<close>, and a clock frequency with at least one tick per slice of 100 ms.\<close>

definition prio_consts :: "spu_env \<Rightarrow> bool" where
  "prio_consts e \<longleftrightarrow> MAX_PRIO e = 140 \<and> MAX_USER_PRIO e = 40 \<and> MAX_RT_PRIO e = 100 \<and> 100 \<le> HZ e \<and> HZ e \<le> 10000"

definition rt_prio :: "spu_env \<Rightarrow> nat \<Rightarrow> bool" where
  "rt_prio e prio \<longleftrightarrow> prio < MAX_RT_PRIO e"

section \<open>Accesses\<close>

definition ctx_upd :: "spu_sys \<Rightarrow> caddr \<Rightarrow> (spu_context \<Rightarrow> spu_context) \<Rightarrow> spu_sys option" where
  "ctx_upd y c f = (case sy_ctx y c of None \<Rightarrow> None | Some C \<Rightarrow> Some (y\<lparr>sy_ctx := (sy_ctx y)(c \<mapsto> f C)\<rparr>))"

definition spu_upd :: "spu_sys \<Rightarrow> saddr \<Rightarrow> (spu \<Rightarrow> spu) \<Rightarrow> spu_sys option" where
  "spu_upd y s f = (case sy_spu y s of None \<Rightarrow> None | Some S \<Rightarrow> Some (y\<lparr>sy_spu := (sy_spu y)(s \<mapsto> f S)\<rparr>))"

definition gang_upd :: "spu_sys \<Rightarrow> gaddr \<Rightarrow> (spu_gang \<Rightarrow> spu_gang) \<Rightarrow> spu_sys option" where
  "gang_upd y g f = (case sy_gang y g of None \<Rightarrow> None | Some G \<Rightarrow> Some (y\<lparr>sy_gang := (sy_gang y)(g \<mapsto> f G)\<rparr>))"

definition node_upd :: "spu_sys \<Rightarrow> nat \<Rightarrow> (cbe_info \<Rightarrow> cbe_info) \<Rightarrow> spu_sys" where
  "node_upd y n f = y\<lparr>sy_node := (sy_node y)(n := f (sy_node y n))\<rparr>"

definition spu_log :: "spu_event \<Rightarrow> spu_sys \<Rightarrow> spu_sys" where
  "spu_log v y = y\<lparr>sy_events := sy_events y @ [v]\<rparr>"

definition spu_tick :: "spu_sys \<Rightarrow> spu_sys" where
  "spu_tick y = y\<lparr>sy_tick := Suc (sy_tick y)\<rparr>"

text \<open>The first element of a list that passes a test which may fault.\<close>

primrec find_m :: "('a \<Rightarrow> bool option) \<Rightarrow> 'a list \<Rightarrow> 'a option option" where
  "find_m f [] = Some None"
| "find_m f (x # xs) = do { b \<leftarrow> f x; if b then Some (Some x) else find_m f xs }"

text \<open>References to contexts; the last one destroys the context.\<close>

definition get_spu_context :: "caddr \<Rightarrow> spu_sys \<Rightarrow> spu_sys option" where
  "get_spu_context c y = do {
     C \<leftarrow> sy_ctx y c;
     if c_kref C = 0 then None else ctx_upd y c (\<lambda>C. C\<lparr>c_kref := Suc (c_kref C)\<rparr>) }"

definition put_spu_context :: "caddr \<Rightarrow> spu_sys \<Rightarrow> spu_sys option" where
  "put_spu_context c y = do {
     C \<leftarrow> sy_ctx y c;
     if c_kref C = 0 then None
     else do {
       y1 \<leftarrow> ctx_upd y c (\<lambda>C. C\<lparr>c_kref := c_kref C - 1\<rparr>);
       Some (if c_kref C = 1 then spu_log (DestroyContext c) y1 else y1) } }"

end
