(* ===== verification/Spu_Queue.thy ===== *)
theory Spu_Queue
  imports Spu_State
begin

text \<open>
  The first half of \<^verbatim>\<open>sched.c\<close>: time slices, the scheduling parameters of a context, binding a context to a
  physical SPU and unbinding it, and the run queues.
\<close>

section \<open>Time slices and parameters\<close>

definition NORMAL_PRIO :: nat where
  "NORMAL_PRIO = 120"

definition SPUSCHED_TICK :: int where
  "SPUSCHED_TICK = 10"

definition MIN_SPU_TIMESLICE :: "spu_env \<Rightarrow> int" where
  "MIN_SPU_TIMESLICE e = max (5 * HZ e div (1000 * SPUSCHED_TICK)) 1"

definition DEF_SPU_TIMESLICE :: "spu_env \<Rightarrow> int" where
  "DEF_SPU_TIMESLICE e = 100 * HZ e div (1000 * SPUSCHED_TICK)"

text \<open>
  The division truncates in C and rounds down here; the two differ only for a negative dividend, where
  the maximum is the lower bound in both cases.
\<close>

definition SCALE_PRIO :: "spu_env \<Rightarrow> int \<Rightarrow> nat \<Rightarrow> int" where
  "SCALE_PRIO e x prio =
     max (x * (int (MAX_PRIO e) - int prio) div (int (MAX_USER_PRIO e) div 2)) (MIN_SPU_TIMESLICE e)"

definition spu_set_timeslice :: "spu_env \<Rightarrow> caddr \<Rightarrow> spu_sys \<Rightarrow> spu_sys option" where
  "spu_set_timeslice e c y = ctx_upd y c (\<lambda>C. C\<lparr>time_slice := word_of_int
     (if c_prio C < NORMAL_PRIO then SCALE_PRIO e (DEF_SPU_TIMESLICE e * 4) (c_prio C)
      else SCALE_PRIO e (DEF_SPU_TIMESLICE e) (c_prio C))\<rparr>)"

text \<open>\<^verbatim>\<open>__spu_update_sched_info\<close>; a context that is on a run queue is a bug.\<close>

definition spu_update_sched_info_locked :: "spu_env \<Rightarrow> caddr \<Rightarrow> spu_sys \<Rightarrow> spu_sys option" where
  "spu_update_sched_info_locked e c y = do {
     C \<leftarrow> sy_ctx y c;
     if c_rq C \<noteq> None then None
     else ctx_upd y c (\<lambda>C. C\<lparr>c_tid := cur_pid e,
       c_prio := (if rt_prio e (cur_prio e) then cur_prio e else cur_static_prio e),
       c_policy := cur_policy e, cpus_allowed := cur_cpus e, last_ran := this_cpu e\<rparr>) }"

definition spu_update_sched_info :: "spu_env \<Rightarrow> caddr \<Rightarrow> spu_sys \<Rightarrow> spu_sys option" where
  "spu_update_sched_info e c y = do {
     C \<leftarrow> sy_ctx y c;
     if c_state C = SPU_STATE_RUNNABLE
     then do { s \<leftarrow> c_spu C; S \<leftarrow> sy_spu y s; spu_update_sched_info_locked e c y }
     else spu_update_sched_info_locked e c y }"

definition node_allowed :: "spu_env \<Rightarrow> spu_context \<Rightarrow> nat \<Rightarrow> bool" where
  "node_allowed e C node \<longleftrightarrow> nr_cpus_node e node \<noteq> 0 \<and> cpumask_of_node e node \<inter> cpus_allowed C \<noteq> {}"

text \<open>The body of the loop over the SPUs of a node, and the loop over the nodes.\<close>

primrec notify_spus :: "saddr list \<Rightarrow> spu_sys \<Rightarrow> spu_sys option" where
  "notify_spus [] y = Some y"
| "notify_spus (s # ss) y = do {
     S \<leftarrow> sy_spu y s;
     y1 \<leftarrow> (if alloc_state S \<noteq> SPU_FREE then do {
              c \<leftarrow> s_ctx S;
              y' \<leftarrow> ctx_upd y c (\<lambda>C. C\<lparr>sched_flags := insert SPU_SCHED_NOTIFY_ACTIVE (sched_flags C)\<rparr>);
              Some (spu_log (WakeStopAll c) y') }
            else Some y);
     notify_spus ss y1 }"

primrec notify_nodes :: "nat list \<Rightarrow> spu_sys \<Rightarrow> spu_sys option" where
  "notify_nodes [] y = Some y"
| "notify_nodes (n # ns) y = do { y1 \<leftarrow> notify_spus (n_spus (sy_node y n)) y; notify_nodes ns y1 }"

definition do_notify_spus_active :: "spu_env \<Rightarrow> spu_sys \<Rightarrow> spu_sys option" where
  "do_notify_spus_active e y = notify_nodes (online_nodes e) y"

section \<open>Utilisation\<close>

definition spuctx_switch_state :: "spu_env \<Rightarrow> caddr \<Rightarrow> util \<Rightarrow> spu_sys \<Rightarrow> spu_sys option" where
  "spuctx_switch_state e c new_state y = do {
     C \<leftarrow> sy_ctx y c;
     let curtime = ktime_get_ns e (sy_tick y);
     let delta = curtime - st_tstamp (c_stats C);
     let y0 = (if sint delta < 0 then spu_log NegativeDelta (spu_tick y) else spu_tick y);
     let old_state = st_util (c_stats C);
     y1 \<leftarrow> ctx_upd y0 c (\<lambda>C. C\<lparr>c_stats := (c_stats C)\<lparr>st_util := new_state, st_tstamp := curtime\<rparr>\<rparr>);
     (case c_spu C of None \<Rightarrow> Some y1
      | Some s \<Rightarrow> do {
          y2 \<leftarrow> ctx_upd y1 c (\<lambda>C. C\<lparr>c_stats := (c_stats C)\<lparr>st_times := (st_times (c_stats C))
                  (old_state := st_times (c_stats C) old_state + delta)\<rparr>\<rparr>);
          y3 \<leftarrow> spu_upd y2 s (\<lambda>S. S\<lparr>s_stats := (s_stats S)\<lparr>st_times := (st_times (s_stats S))
                  (old_state := st_times (s_stats S) old_state + delta), st_util := new_state, st_tstamp := curtime\<rparr>\<rparr>);
          S \<leftarrow> sy_spu y3 s;
          let y4 = (if old_state = SPU_UTIL_USER
                    then node_upd y3 (s_node S) (\<lambda>N. N\<lparr>busy_spus := busy_spus N - 1\<rparr>) else y3);
          Some (if new_state = SPU_UTIL_USER
                then node_upd y4 (s_node S) (\<lambda>N. N\<lparr>busy_spus := busy_spus N + 1\<rparr>) else y4) }) }"

section \<open>Binding\<close>

definition spu_bind_context :: "spu_env \<Rightarrow> saddr \<Rightarrow> caddr \<Rightarrow> spu_sys \<Rightarrow> spu_sys option" where
  "spu_bind_context e s c y = do {
     y1 \<leftarrow> spuctx_switch_state e c SPU_UTIL_SYSTEM y;
     C \<leftarrow> sy_ctx y1 c;
     S \<leftarrow> sy_spu y1 s;
     let y2 = (if SPU_CREATE_NOSCHED \<in> c_flags C
               then node_upd y1 (s_node S) (\<lambda>N. N\<lparr>reserved_spus := reserved_spus N + 1\<rparr>) else y1);
     y3 \<leftarrow> ctx_upd y2 c (\<lambda>C. C\<lparr>slb_flt_base := st_slb (s_stats S), class2_intr_base := st_class2 (s_stats S)\<rparr>);
     let y4 = spu_log (AssociateMm s (Some c)) y3;
     y5 \<leftarrow> spu_upd y4 s (\<lambda>S. S\<lparr>s_ctx := Some c, s_flags := 0, s_pid := cur_pid e, s_tgid := cur_tgid e,
             s_callbacks := True\<rparr>);
     y6 \<leftarrow> ctx_upd y5 c (\<lambda>C. C\<lparr>c_spu := Some s, c_ops := SpuHwOps\<rparr>);
     let y7 = spu_log (SpuRestore c s) (spu_log (SwitchLogStart s c) (spu_log (UnmapMappings c) y6));
     y8 \<leftarrow> spu_upd y7 s (\<lambda>S. S\<lparr>s_timestamp := jiffies e (sy_tick y7)\<rparr>);
     y9 \<leftarrow> ctx_upd (spu_log (SwitchNotify s (Some c)) y8) c (\<lambda>C. C\<lparr>c_state := SPU_STATE_RUNNABLE\<rparr>);
     spuctx_switch_state e c SPU_UTIL_USER y9 }"

text \<open>\<^verbatim>\<open>atomic_dec_if_positive\<close>.\<close>

definition dec_if_positive :: "int \<Rightarrow> int" where
  "dec_if_positive n = (if n - 1 < 0 then n else n - 1)"

definition spu_unbind_context :: "spu_env \<Rightarrow> saddr \<Rightarrow> caddr \<Rightarrow> spu_sys \<Rightarrow> spu_sys option" where
  "spu_unbind_context e s c y = do {
     y1 \<leftarrow> spuctx_switch_state e c SPU_UTIL_SYSTEM y;
     S \<leftarrow> sy_spu y1 s;
     d \<leftarrow> s_ctx S;
     D \<leftarrow> sy_ctx y1 d;
     let y2 = (if SPU_CREATE_NOSCHED \<in> c_flags D
               then node_upd y1 (s_node S) (\<lambda>N. N\<lparr>reserved_spus := reserved_spus N - 1\<rparr>) else y1);
     C \<leftarrow> sy_ctx y2 c;
     y3 \<leftarrow> (case c_gang C of None \<Rightarrow> Some y2
            | Some g \<Rightarrow> gang_upd y2 g (\<lambda>G. G\<lparr>aff_sched_count := dec_if_positive (aff_sched_count G)\<rparr>));
     let y4 = spu_log (SwitchLogStop s c) (spu_log (SpuSave c s) (spu_log (UnmapMappings c)
                (spu_log (SwitchNotify s None) y3)));
     y5 \<leftarrow> ctx_upd y4 c (\<lambda>C. C\<lparr>c_state := SPU_STATE_SAVED, c_ops := SpuBackingOps\<rparr>);
     y6 \<leftarrow> spu_upd y5 s (\<lambda>S. S\<lparr>s_timestamp := jiffies e (sy_tick y5), s_callbacks := False, s_pid := 0, s_tgid := 0,
             s_flags := 0, s_ctx := None\<rparr>);
     let y7 = spu_log (AssociateMm s None) y6;
     y8 \<leftarrow> ctx_upd y7 c (\<lambda>C. C\<lparr>c_stats := (c_stats C)\<lparr>
             st_slb := st_slb (c_stats C) + (st_slb (s_stats S) - slb_flt_base C),
             st_class2 := st_class2 (c_stats C) + (st_class2 (s_stats S) - class2_intr_base C)\<rparr>\<rparr>);
     y9 \<leftarrow> spuctx_switch_state e c SPU_UTIL_IDLE_LOADED y8;
     y10 \<leftarrow> ctx_upd y9 c (\<lambda>C. C\<lparr>c_spu := None\<rparr>);
     Some (if spu_stopped e (sy_tick y10) c then spu_log (WakeStopAll c) (spu_tick y10) else spu_tick y10) }"

section \<open>Run queues\<close>

definition spu_add_to_rq_locked :: "spu_env \<Rightarrow> caddr \<Rightarrow> spu_sys \<Rightarrow> spu_sys option" where
  "spu_add_to_rq_locked e c y = do {
     C \<leftarrow> sy_ctx y c;
     if c_rq C \<noteq> None then Some y
     else do {
       P \<leftarrow> sy_prio y;
       if MAX_PRIO e \<le> c_prio C then None
       else do {
         y1 \<leftarrow> ctx_upd y c (\<lambda>C. C\<lparr>c_rq := Some (c_prio C)\<rparr>);
         let P' = P\<lparr>runq := (runq P)(c_prio C := runq P (c_prio C) @ [c]), bitmap := (bitmap P)(c_prio C := True),
                    nr_waiting := nr_waiting P + 1\<rparr>;
         Some (y1\<lparr>sy_prio := Some P', spusched_timer :=
           (if nr_waiting P = 0 then Some (jiffies e (sy_tick y) + of_int SPUSCHED_TICK) else spusched_timer y1)\<rparr>) } } }"

definition spu_add_to_rq :: "spu_env \<Rightarrow> caddr \<Rightarrow> spu_sys \<Rightarrow> spu_sys option" where
  "spu_add_to_rq e c y = spu_add_to_rq_locked e c y"

definition spu_del_from_rq_locked :: "spu_env \<Rightarrow> caddr \<Rightarrow> spu_sys \<Rightarrow> spu_sys option" where
  "spu_del_from_rq_locked e c y = do {
     C \<leftarrow> sy_ctx y c;
     (case c_rq C of None \<Rightarrow> Some y
      | Some q \<Rightarrow> do {
          P \<leftarrow> sy_prio y;
          y1 \<leftarrow> ctx_upd y c (\<lambda>C. C\<lparr>c_rq := None\<rparr>);
          let P' = P\<lparr>nr_waiting := nr_waiting P - 1, runq := (runq P)(q := remove1 c (runq P q))\<rparr>;
          if MAX_PRIO e \<le> c_prio C then None
          else Some (y1\<lparr>sy_prio := Some (if runq P' (c_prio C) = [] then P'\<lparr>bitmap := (bitmap P')(c_prio C := False)\<rparr> else P'),
            spusched_timer := (if nr_waiting P' = 0 then None else spusched_timer y1)\<rparr>) }) }"

definition spu_del_from_rq :: "spu_env \<Rightarrow> caddr \<Rightarrow> spu_sys \<Rightarrow> spu_sys option" where
  "spu_del_from_rq e c y = spu_del_from_rq_locked e c y"

text \<open>\<open>schedule\<close> stands for what the other tasks do while this one sleeps.\<close>

definition spu_prio_wait :: "spu_env \<Rightarrow> (spu_sys \<Rightarrow> spu_sys option) \<Rightarrow> caddr \<Rightarrow> spu_sys \<Rightarrow> spu_sys option" where
  "spu_prio_wait e schedule c y = do {
     C \<leftarrow> sy_ctx y c;
     if SPU_CREATE_NOSCHED \<notin> c_flags C then None
     else if signal_pending e (sy_tick y) then Some (spu_tick y)
     else do {
       y1 \<leftarrow> spu_add_to_rq_locked e c (spu_tick y);
       y2 \<leftarrow> schedule y1;
       spu_del_from_rq_locked e c y2 } }"

end
