(* ===== verification/Spu_Sched.thy ===== *)
theory Spu_Sched
  imports Spu_Queue
begin

text \<open>
  The second half of \<^verbatim>\<open>sched.c\<close>: affinity, the choice of an SPU and of a context, the operations of the
  scheduler, its thread, and the load average.
\<close>

section \<open>Affinity\<close>

text \<open>\<^verbatim>\<open>!spu->ctx || !(spu->ctx->flags & SPU_CREATE_NOSCHED)\<close>\<close>

definition sched_spu :: "spu_sys \<Rightarrow> saddr \<Rightarrow> bool option" where
  "sched_spu y s = do {
     S \<leftarrow> sy_spu y s;
     (case s_ctx S of None \<Rightarrow> Some True
      | Some c \<Rightarrow> do { C \<leftarrow> sy_ctx y c; Some (SPU_CREATE_NOSCHED \<notin> c_flags C) }) }"

text \<open>
  The loop runs over the contexts on the list and adds those whose own link is empty; \<open>seen\<close> are the ones
  still to visit.
\<close>

primrec merge_ctxs :: "caddr list \<Rightarrow> caddr list \<Rightarrow> caddr list" where
  "merge_ctxs [] l = l"
| "merge_ctxs (c # cs) l = merge_ctxs cs (if c \<notin> set l then c # l else l)"

definition aff_merge_remaining_ctxs :: "gaddr \<Rightarrow> spu_sys \<Rightarrow> spu_sys option" where
  "aff_merge_remaining_ctxs g y = gang_upd y g (\<lambda>G. G\<lparr>aff_list := merge_ctxs (aff_list G) (aff_list G),
     aff_flags := insert AFF_MERGED (aff_flags G)\<rparr>)"

primrec set_offsets :: "int \<Rightarrow> int \<Rightarrow> caddr list \<Rightarrow> spu_sys \<Rightarrow> spu_sys option" where
  "set_offsets d offset [] y = Some y"
| "set_offsets d offset (c # cs) y = do {
     y1 \<leftarrow> ctx_upd y c (\<lambda>C. C\<lparr>aff_offset := offset\<rparr>);
     set_offsets d (offset + d) cs y1 }"

text \<open>
  The first loop goes backwards from the reference context to the head of the list, the second forwards
  from the reference context itself.  The link of a reference context that is not on the list points to itself, and
  neither loop does anything.
\<close>

definition aff_set_offsets :: "gaddr \<Rightarrow> spu_sys \<Rightarrow> spu_sys option" where
  "aff_set_offsets g y = do {
     G \<leftarrow> sy_gang y g;
     r \<leftarrow> aff_ref_ctx G;
     R \<leftarrow> sy_ctx y r;
     y1 \<leftarrow> set_offsets (-1) (-1) (if r \<in> set (aff_list G) then rev (takeWhile (\<lambda>c. c \<noteq> r) (aff_list G)) else []) y;
     y2 \<leftarrow> set_offsets 1 0 (dropWhile (\<lambda>c. c \<noteq> r) (aff_list G)) y1;
     gang_upd y2 g (\<lambda>G. G\<lparr>aff_flags := insert AFF_OFFSETS_SET (aff_flags G)\<rparr>) }"

text \<open>The SPUs of a node that no other gang is about to use.\<close>

primrec available_spus :: "spu_sys \<Rightarrow> saddr list \<Rightarrow> int option" where
  "available_spus y [] = Some 0"
| "available_spus y (s # ss) = do {
     S \<leftarrow> sy_spu y s;
     taken \<leftarrow> (case s_ctx S of None \<Rightarrow> Some 0
       | Some c \<Rightarrow> do {
           C \<leftarrow> sy_ctx y c;
           (case c_gang C of None \<Rightarrow> Some 0
            | Some g \<Rightarrow> do {
                G \<leftarrow> sy_gang y g;
                Some (if aff_offset C = 0 \<and> aff_ref_spu G \<noteq> None then g_contexts G else 0) }) });
     n \<leftarrow> available_spus y ss;
     Some (1 - taken + n) }"

text \<open>\<^verbatim>\<open>node = (node < MAX_NUMNODES) ? node : 0;\<close>\<close>

definition wrap_node :: "spu_env \<Rightarrow> nat \<Rightarrow> nat" where
  "wrap_node e node = (if node < MAX_NUMNODES e then node else 0)"

primrec aff_ref_nodes :: "spu_env \<Rightarrow> caddr \<Rightarrow> bool \<Rightarrow> nat \<Rightarrow> nat \<Rightarrow> spu_sys \<Rightarrow> saddr option option" where
  "aff_ref_nodes e c mem_aff 0 node0 y = Some None"
| "aff_ref_nodes e c mem_aff (Suc n) node0 y = do {
     C \<leftarrow> sy_ctx y c;
     let node = wrap_node e node0;
     if \<not> node_allowed e C node then aff_ref_nodes e c mem_aff n (Suc node) y
     else do {
       avail \<leftarrow> available_spus y (n_spus (sy_node y node));
       g \<leftarrow> c_gang C;
       G \<leftarrow> sy_gang y g;
       if avail < g_contexts G then aff_ref_nodes e c mem_aff n (Suc node) y
       else do {
         r \<leftarrow> find_m (\<lambda>s. do { S \<leftarrow> sy_spu y s; if \<not> mem_aff \<or> has_mem_affinity S then sched_spu y s else Some False })
                (n_spus (sy_node y node));
         (case r of Some s \<Rightarrow> Some (Some s) | None \<Rightarrow> aff_ref_nodes e c mem_aff n (Suc node) y) } } }"

definition aff_ref_location :: "spu_env \<Rightarrow> caddr \<Rightarrow> bool \<Rightarrow> spu_sys \<Rightarrow> saddr option option" where
  "aff_ref_location e c mem_aff y = aff_ref_nodes e c mem_aff (MAX_NUMNODES e) (cpu_node e) y"

text \<open>
  The group size and the lowest offset that the function computes are not used by \<^verbatim>\<open>aff_ref_location\<close> and
  are left out.
\<close>

definition aff_set_ref_point_location :: "spu_env \<Rightarrow> gaddr \<Rightarrow> spu_sys \<Rightarrow> spu_sys option" where
  "aff_set_ref_point_location e g y = do {
     G \<leftarrow> sy_gang y g;
     r \<leftarrow> aff_ref_ctx G;
     R \<leftarrow> sy_ctx y r;
     l \<leftarrow> aff_ref_location e r (SPU_CREATE_AFFINITY_MEM \<in> c_flags R) y;
     gang_upd y g (\<lambda>G. G\<lparr>aff_ref_spu := l\<rparr>) }"

text \<open>
  A walk along the ring of SPUs that ends where the offset is used up, or at the last of them.  The ring
  from \<open>ref\<close> forwards ends before \<^verbatim>\<open>ref->aff_list.prev\<close> comes up in the loop, and so does the one backwards.
\<close>

primrec ctx_walk :: "int \<Rightarrow> saddr list \<Rightarrow> saddr \<Rightarrow> int \<Rightarrow> nat \<Rightarrow> spu_sys \<Rightarrow> saddr option" where
  "ctx_walk d [] stop offset node y = Some stop"
| "ctx_walk d (s # ss) stop offset node y = do {
     S \<leftarrow> sy_spu y s;
     if s_node S \<noteq> node then None
     else if offset = 0 then Some s
     else do { b \<leftarrow> sched_spu y s; ctx_walk d ss stop (if b then offset + d else offset) node y } }"

definition ring_from :: "saddr \<Rightarrow> saddr list \<Rightarrow> saddr list" where
  "ring_from s r = dropWhile (\<lambda>t. t \<noteq> s) r @ takeWhile (\<lambda>t. t \<noteq> s) r"

definition ctx_location :: "saddr \<Rightarrow> int \<Rightarrow> nat \<Rightarrow> spu_sys \<Rightarrow> saddr option" where
  "ctx_location ref offset node y = do {
     S \<leftarrow> sy_spu y ref;
     let r = aff_ring (sy_node y (s_node S));
     if ref \<notin> set r then None
     else if 0 \<le> offset
     then ctx_walk (-1) (butlast (ring_from ref r)) (last (ring_from ref r)) offset node y
     else ctx_walk 1 (butlast (ring_from ref (rev r))) (last (ring_from ref (rev r))) offset node y }"

text \<open>The body of \<^verbatim>\<open>if (!gang->aff_ref_spu)\<close>.\<close>

definition aff_setup :: "spu_env \<Rightarrow> gaddr \<Rightarrow> spu_sys \<Rightarrow> spu_sys option" where
  "aff_setup e g y1 = do {
     G1 \<leftarrow> sy_gang y1 g;
     y2 \<leftarrow> (if AFF_MERGED \<notin> aff_flags G1 then aff_merge_remaining_ctxs g y1 else Some y1);
     G2 \<leftarrow> sy_gang y2 g;
     y3 \<leftarrow> (if AFF_OFFSETS_SET \<notin> aff_flags G2 then aff_set_offsets g y2 else Some y2);
     aff_set_ref_point_location e g y3 }"

definition has_affinity :: "spu_env \<Rightarrow> caddr \<Rightarrow> spu_sys \<Rightarrow> (bool \<times> spu_sys) option" where
  "has_affinity e c y = do {
     C \<leftarrow> sy_ctx y c;
     g \<leftarrow> c_gang C;
     G \<leftarrow> sy_gang y g;
     if c \<notin> set (aff_list G) then Some (False, y)
     else do {
       y1 \<leftarrow> (if aff_sched_count G = 0 then gang_upd y g (\<lambda>G. G\<lparr>aff_ref_spu := None\<rparr>) else Some y);
       G1 \<leftarrow> sy_gang y1 g;
       y4 \<leftarrow> (if aff_ref_spu G1 = None then aff_setup e g y1 else Some y1);
       G4 \<leftarrow> sy_gang y4 g;
       Some (aff_ref_spu G4 \<noteq> None, y4) } }"

section \<open>Choosing an SPU\<close>

primrec idle_nodes :: "spu_env \<Rightarrow> caddr \<Rightarrow> nat \<Rightarrow> nat \<Rightarrow> spu_sys \<Rightarrow> saddr option option" where
  "idle_nodes e c 0 node0 y = Some None"
| "idle_nodes e c (Suc n) node0 y = do {
     C \<leftarrow> sy_ctx y c;
     let node = wrap_node e node0;
     if \<not> node_allowed e C node then idle_nodes e c n (Suc node) y
     else do {
       r \<leftarrow> find_m (\<lambda>s. do { S \<leftarrow> sy_spu y s; Some (alloc_state S = SPU_FREE) }) (n_spus (sy_node y node));
       (case r of Some s \<Rightarrow> Some (Some s) | None \<Rightarrow> idle_nodes e c n (Suc node) y) } }"

text \<open>The label \<^verbatim>\<open>found\<close>.\<close>

definition idle_found :: "saddr \<Rightarrow> spu_sys \<Rightarrow> (saddr option \<times> spu_sys) option" where
  "idle_found s y = do {
     y1 \<leftarrow> spu_upd y s (\<lambda>S. S\<lparr>alloc_state := SPU_USED\<rparr>);
     Some (Some s, spu_log (InitChannels s) y1) }"

definition idle_any :: "spu_env \<Rightarrow> caddr \<Rightarrow> spu_sys \<Rightarrow> (saddr option \<times> spu_sys) option" where
  "idle_any e c y = do {
     r \<leftarrow> idle_nodes e c (MAX_NUMNODES e) (cpu_node e) y;
     (case r of Some s \<Rightarrow> idle_found s y | None \<Rightarrow> Some (None, y)) }"

definition spu_get_idle :: "spu_env \<Rightarrow> caddr \<Rightarrow> spu_sys \<Rightarrow> (saddr option \<times> spu_sys) option" where
  "spu_get_idle e c y = do {
     C \<leftarrow> sy_ctx y c;
     (case c_gang C of None \<Rightarrow> idle_any e c y
      | Some g \<Rightarrow> do {
          (aff, y1) \<leftarrow> has_affinity e c y;
          if \<not> aff then idle_any e c y1
          else do {
            G \<leftarrow> sy_gang y1 g;
            ref \<leftarrow> aff_ref_spu G;
            y2 \<leftarrow> gang_upd y1 g (\<lambda>G. G\<lparr>aff_sched_count := aff_sched_count G + 1\<rparr>);
            R \<leftarrow> sy_spu y2 ref;
            C2 \<leftarrow> sy_ctx y2 c;
            s \<leftarrow> ctx_location ref (aff_offset C2) (s_node R) y2;
            S \<leftarrow> sy_spu y2 s;
            if alloc_state S = SPU_FREE then idle_found s y2
            else do {
              y3 \<leftarrow> gang_upd y2 g (\<lambda>G. G\<lparr>aff_sched_count := aff_sched_count G - 1\<rparr>);
              Some (None, y3) } } }) }"

section \<open>Preemption\<close>

text \<open>The candidate of a node: the context with the greatest \<^verbatim>\<open>prio\<close>, the first such.\<close>

primrec pick_victim :: "nat \<Rightarrow> spu_sys \<Rightarrow> caddr option \<Rightarrow> saddr list \<Rightarrow> caddr option option" where
  "pick_victim prio y victim [] = Some victim"
| "pick_victim prio y victim (s # ss) = do {
     S \<leftarrow> sy_spu y s;
     v \<leftarrow> (case s_ctx S of None \<Rightarrow> Some victim
       | Some t \<Rightarrow> do {
           T \<leftarrow> sy_ctx y t;
           if prio < c_prio T \<and> SPU_CREATE_NOSCHED \<notin> c_flags T
           then (case victim of None \<Rightarrow> Some (Some t)
             | Some w \<Rightarrow> do { W \<leftarrow> sy_ctx y w; Some (if c_prio W < c_prio T then Some t else victim) })
           else Some victim });
     pick_victim prio y v ss }"

datatype search = Found saddr | Restart | Exhausted

text \<open>What is done with a candidate once its reference has been taken.\<close>

definition preempt :: "spu_env \<Rightarrow> caddr \<Rightarrow> caddr \<Rightarrow> nat \<Rightarrow> spu_sys \<Rightarrow> (search \<times> spu_sys) option" where
  "preempt e c victim node y =
     (if \<not> mutex_trylock e (sy_tick y) victim
      then do { y1 \<leftarrow> put_spu_context victim (spu_tick y); Some (Restart, y1) }
      else do {
        V \<leftarrow> sy_ctx y victim;
        C \<leftarrow> sy_ctx y c;
        (case c_spu V of
           None \<Rightarrow> do { y1 \<leftarrow> put_spu_context victim (spu_tick y); Some (Restart, y1) }
         | Some s \<Rightarrow>
             if c_prio V \<le> c_prio C then do { y1 \<leftarrow> put_spu_context victim (spu_tick y); Some (Restart, y1) }
             else do {
               let y1 = node_upd (spu_tick y) node (\<lambda>N. N\<lparr>nr_active := nr_active N - 1\<rparr>);
               y2 \<leftarrow> spu_unbind_context e s victim y1;
               y3 \<leftarrow> ctx_upd y2 victim (\<lambda>C. C\<lparr>c_stats := (c_stats C)\<lparr>st_invol := st_invol (c_stats C) + 1\<rparr>\<rparr>);
               y4 \<leftarrow> spu_upd y3 s (\<lambda>S. S\<lparr>s_stats := (s_stats S)\<lparr>st_invol := st_invol (s_stats S) + 1\<rparr>\<rparr>);
               W \<leftarrow> sy_ctx y4 victim;
               y5 \<leftarrow> (if SPU_SCHED_SPU_RUN \<in> sched_flags W then spu_add_to_rq e victim y4 else Some y4);
               y6 \<leftarrow> put_spu_context victim y5;
               Some (Found s, y6) }) })"

primrec victim_nodes :: "spu_env \<Rightarrow> caddr \<Rightarrow> nat \<Rightarrow> nat \<Rightarrow> spu_sys \<Rightarrow> (search \<times> spu_sys) option" where
  "victim_nodes e c 0 node0 y = Some (Exhausted, y)"
| "victim_nodes e c (Suc n) node0 y = do {
     C \<leftarrow> sy_ctx y c;
     let node = wrap_node e node0;
     if \<not> node_allowed e C node then victim_nodes e c n (Suc node) y
     else do {
       v \<leftarrow> pick_victim (c_prio C) y None (n_spus (sy_node y node));
       (case v of None \<Rightarrow> victim_nodes e c n (Suc node) y
        | Some victim \<Rightarrow> do { y1 \<leftarrow> get_spu_context victim y; preempt e c victim node y1 }) } }"

partial_function (option) find_victim :: "spu_env \<Rightarrow> caddr \<Rightarrow> spu_sys \<Rightarrow> (saddr option \<times> spu_sys) option" where
  "find_victim e c y =
     (case victim_nodes e c (MAX_NUMNODES e) (cpu_node e) y of None \<Rightarrow> None
      | Some r \<Rightarrow> (case fst r of Found s \<Rightarrow> Some (Some s, snd r)
          | Restart \<Rightarrow> find_victim e c (snd r)
          | Exhausted \<Rightarrow> Some (None, snd r)))"

section \<open>Scheduling a context\<close>

definition spu_schedule_locked :: "spu_env \<Rightarrow> saddr \<Rightarrow> caddr \<Rightarrow> spu_sys \<Rightarrow> spu_sys option" where
  "spu_schedule_locked e s c y = do {
     S \<leftarrow> sy_spu y s;
     y1 \<leftarrow> spu_set_timeslice e c y;
     if s_ctx S = None
     then do {
       y2 \<leftarrow> spu_bind_context e s c y1;
       let y3 = node_upd y2 (s_node S) (\<lambda>N. N\<lparr>nr_active := nr_active N + 1\<rparr>);
       y4 \<leftarrow> spu_upd y3 s (\<lambda>S. S\<lparr>alloc_state := SPU_USED\<rparr>);
       Some (spu_log (WakeRunAll c) y4) }
     else spu_add_to_rq e c y1 }"

definition spu_schedule :: "spu_env \<Rightarrow> saddr \<Rightarrow> caddr \<Rightarrow> spu_sys \<Rightarrow> spu_sys option" where
  "spu_schedule e s c y = do {
     C \<leftarrow> sy_ctx y c;
     if c_state C = SPU_STATE_SAVED then spu_schedule_locked e s c y else Some y }"

definition spu_unschedule :: "spu_env \<Rightarrow> saddr \<Rightarrow> caddr \<Rightarrow> bool \<Rightarrow> spu_sys \<Rightarrow> spu_sys option" where
  "spu_unschedule e s c free_spu y = do {
     S \<leftarrow> sy_spu y s;
     let y1 = node_upd y (s_node S) (\<lambda>N. N\<lparr>nr_active := nr_active N - 1\<rparr>);
     y2 \<leftarrow> (if free_spu then spu_upd y1 s (\<lambda>S. S\<lparr>alloc_state := SPU_FREE\<rparr>) else Some y1);
     y3 \<leftarrow> spu_unbind_context e s c y2;
     y4 \<leftarrow> ctx_upd y3 c (\<lambda>C. C\<lparr>c_stats := (c_stats C)\<lparr>st_invol := st_invol (c_stats C) + 1\<rparr>\<rparr>);
     spu_upd y4 s (\<lambda>S. S\<lparr>s_stats := (s_stats S)\<lparr>st_invol := st_invol (s_stats S) + 1\<rparr>\<rparr>) }"

text \<open>An idle SPU or, for a real-time context, that of a victim; and what is done with it.\<close>

definition choose_spu :: "spu_env \<Rightarrow> caddr \<Rightarrow> spu_sys \<Rightarrow> (saddr option \<times> spu_sys) option" where
  "choose_spu e c y = do {
     (s, y1) \<leftarrow> spu_get_idle e c y;
     C \<leftarrow> sy_ctx y1 c;
     if s = None \<and> rt_prio e (c_prio C) then find_victim e c y1 else Some (s, y1) }"

definition activate_on :: "spu_env \<Rightarrow> saddr \<Rightarrow> caddr \<Rightarrow> spu_sys \<Rightarrow> (int \<times> spu_sys) option" where
  "activate_on e s c y = do {
     y1 \<leftarrow> spu_schedule_locked e s c (spu_tick y);
     y2 \<leftarrow> (if runcntl_runnable e (sy_tick y) c then spuctx_switch_state e c SPU_UTIL_USER y1 else Some y1);
     Some (0, y2) }"

partial_function (option) spu_activate_top :: "spu_env \<Rightarrow> (spu_sys \<Rightarrow> spu_sys option) \<Rightarrow> caddr \<Rightarrow> spu_sys
    \<Rightarrow> (int \<times> spu_sys) option" where
  "spu_activate_top e schedule c y =
     (if signal_pending e (sy_tick y) then Some (- ERESTARTSYS, spu_tick y)
      else (case choose_spu e c (spu_tick y) of None \<Rightarrow> None
        | Some r \<Rightarrow> (case fst r of Some s \<Rightarrow> activate_on e s c (snd r)
          | None \<Rightarrow> (case sy_ctx (snd r) c of None \<Rightarrow> None
            | Some C \<Rightarrow>
                if SPU_CREATE_NOSCHED \<in> c_flags C
                then (case spu_prio_wait e schedule c (snd r) of None \<Rightarrow> None
                  | Some y1 \<Rightarrow> spu_activate_top e schedule c y1)
                else map_option (\<lambda>y1. (0, y1)) (spu_add_to_rq e c (snd r))))))"

definition spu_activate :: "spu_env \<Rightarrow> (spu_sys \<Rightarrow> spu_sys option) \<Rightarrow> caddr \<Rightarrow> spu_sys \<Rightarrow> (int \<times> spu_sys) option" where
  "spu_activate e schedule c y = do {
     C \<leftarrow> sy_ctx y c;
     if c_spu C \<noteq> None then Some (0, y) else spu_activate_top e schedule c y }"

section \<open>Taking contexts off the run queues\<close>

text \<open>\<^verbatim>\<open>while (best < prio)\<close>, for \<open>n = prio - best\<close> queues.\<close>

primrec grab_from :: "spu_env \<Rightarrow> nat \<Rightarrow> nat \<Rightarrow> nat \<Rightarrow> spu_sys \<Rightarrow> (caddr option \<times> spu_sys) option" where
  "grab_from e node best 0 y = Some (None, y)"
| "grab_from e node best (Suc n) y = do {
     P \<leftarrow> sy_prio y;
     if MAX_PRIO e \<le> best then None
     else do {
       r \<leftarrow> find_m (\<lambda>c. do { C \<leftarrow> sy_ctx y c; Some (node_allowed e C node) }) (runq P best);
       (case r of Some c \<Rightarrow> do { y1 \<leftarrow> spu_del_from_rq_locked e c y; Some (Some c, y1) }
        | None \<Rightarrow> grab_from e node (Suc best) n y) } }"

text \<open>\<^verbatim>\<open>find_first_bit\<close> returns the size of the bitmap if no bit is set.\<close>

definition find_first_bit :: "(nat \<Rightarrow> bool) \<Rightarrow> nat \<Rightarrow> nat" where
  "find_first_bit b n = (case find b [0..<n] of Some i \<Rightarrow> i | None \<Rightarrow> n)"

definition grab_runnable_context :: "spu_env \<Rightarrow> nat \<Rightarrow> nat \<Rightarrow> spu_sys \<Rightarrow> (caddr option \<times> spu_sys) option" where
  "grab_runnable_context e prio node y = do {
     P \<leftarrow> sy_prio y;
     let best = find_first_bit (bitmap P) prio;
     grab_from e node best (prio - best) y }"

definition spu_deactivate_locked :: "spu_env \<Rightarrow> caddr \<Rightarrow> bool \<Rightarrow> nat \<Rightarrow> spu_sys \<Rightarrow> (bool \<times> spu_sys) option" where
  "spu_deactivate_locked e c force max_prio y = do {
     C \<leftarrow> sy_ctx y c;
     (case c_spu C of None \<Rightarrow> Some (False, y)
      | Some s \<Rightarrow> do {
          S \<leftarrow> sy_spu y s;
          (new, y1) \<leftarrow> grab_runnable_context e max_prio (s_node S) y;
          if new = None \<and> \<not> force then Some (False, y1)
          else do {
            y2 \<leftarrow> spu_unschedule e s c (new = None) y1;
            y3 \<leftarrow> (case new of None \<Rightarrow> Some y2
              | Some d \<Rightarrow> do {
                  D \<leftarrow> sy_ctx y2 d;
                  if SPU_CREATE_NOSCHED \<in> c_flags D then Some (spu_log (WakeStop d) y2)
                  else spu_schedule e s d y2 });
            Some (new \<noteq> None, y3) } }) }"

definition spu_deactivate :: "spu_env \<Rightarrow> caddr \<Rightarrow> spu_sys \<Rightarrow> spu_sys option" where
  "spu_deactivate e c y = map_option snd (spu_deactivate_locked e c True (MAX_PRIO e) y)"

definition spu_yield :: "spu_env \<Rightarrow> caddr \<Rightarrow> spu_sys \<Rightarrow> spu_sys option" where
  "spu_yield e c y = do {
     C \<leftarrow> sy_ctx y c;
     if SPU_CREATE_NOSCHED \<in> c_flags C then Some y
     else map_option snd (spu_deactivate_locked e c False (MAX_PRIO e) y) }"

definition spusched_tick :: "spu_env \<Rightarrow> caddr \<Rightarrow> spu_sys \<Rightarrow> spu_sys option" where
  "spusched_tick e c y0 =
     (if spu_acquire e (sy_tick y0) c \<noteq> 0 then None
      else do {
        let y = spu_tick y0;
        C \<leftarrow> sy_ctx y c;
        if c_state C \<noteq> SPU_STATE_RUNNABLE \<or> SPU_CREATE_NOSCHED \<in> c_flags C \<or> c_policy C = SCHED_FIFO e then Some y
        else do {
          y1 \<leftarrow> ctx_upd y c (\<lambda>C. C\<lparr>time_slice := time_slice C - 1\<rparr>);
          C1 \<leftarrow> sy_ctx y1 c;
          if time_slice C1 \<noteq> 0 \<and> SPU_SCHED_SPU_RUN \<in> sched_flags C1 then Some y1
          else do {
            s \<leftarrow> c_spu C1;
            S \<leftarrow> sy_spu y1 s;
            (new, y2) \<leftarrow> grab_runnable_context e (c_prio C1 + 1) (s_node S) y1;
            (case new of
               Some d \<Rightarrow> do {
                 y3 \<leftarrow> spu_unschedule e s c False y2;
                 C3 \<leftarrow> sy_ctx y3 c;
                 y4 \<leftarrow> (if SPU_SCHED_SPU_RUN \<in> sched_flags C3 then spu_add_to_rq e c y3 else Some y3);
                 spu_schedule e s d y4 }
             | None \<Rightarrow> ctx_upd y2 c (\<lambda>C. if time_slice C = 0 then C\<lparr>time_slice := time_slice C + 1\<rparr> else C)) } } })"

section \<open>Load average\<close>

definition count_active_contexts :: "spu_env \<Rightarrow> spu_sys \<Rightarrow> int option" where
  "count_active_contexts e y = do {
     P \<leftarrow> sy_prio y;
     Some (sum_list (map (\<lambda>node. nr_active (sy_node y node)) [0..<MAX_NUMNODES e]) + nr_waiting P) }"

definition spu_calc_load :: "spu_env \<Rightarrow> spu_sys \<Rightarrow> spu_sys option" where
  "spu_calc_load e y = do {
     n \<leftarrow> count_active_contexts e y;
     let active_tasks = of_int n * FIXED_1 e;
     let (a, b, c) = spu_avenrun y;
     Some (y\<lparr>spu_avenrun := (calc_load e a (EXP_1 e) active_tasks, calc_load e b (EXP_5 e) active_tasks,
       calc_load e c (EXP_15 e) active_tasks)\<rparr>) }"

definition spusched_wake :: "spu_env \<Rightarrow> spu_sys \<Rightarrow> spu_sys" where
  "spusched_wake e y = spu_log WakeSchedTask
     (y\<lparr>spusched_timer := Some (jiffies e (sy_tick y) + of_int SPUSCHED_TICK)\<rparr>)"

definition spuloadavg_wake :: "spu_env \<Rightarrow> spu_sys \<Rightarrow> spu_sys option" where
  "spuloadavg_wake e y = spu_calc_load e (y\<lparr>spuloadavg_timer := Some (jiffies e (sy_tick y) + LOAD_FREQ e)\<rparr>)"

section \<open>The scheduler thread\<close>

text \<open>One pass over the SPUs of a node; the lists of SPUs do not change while the system runs.\<close>

primrec tick_spus :: "spu_env \<Rightarrow> saddr list \<Rightarrow> spu_sys \<Rightarrow> spu_sys option" where
  "tick_spus e [] y = Some y"
| "tick_spus e (s # ss) y = do {
     S \<leftarrow> sy_spu y s;
     y1 \<leftarrow> (case s_ctx S of None \<Rightarrow> Some y
       | Some c \<Rightarrow> do {
           ya \<leftarrow> get_spu_context c y;
           yb \<leftarrow> spusched_tick e c ya;
           put_spu_context c yb });
     tick_spus e ss y1 }"

primrec tick_nodes :: "spu_env \<Rightarrow> nat list \<Rightarrow> spu_sys \<Rightarrow> spu_sys option" where
  "tick_nodes e [] y = Some y"
| "tick_nodes e (n # ns) y = do { y1 \<leftarrow> tick_spus e (n_spus (sy_node y n)) y; tick_nodes e ns y1 }"

partial_function (option) spusched_thread :: "spu_env \<Rightarrow> (spu_sys \<Rightarrow> spu_sys option) \<Rightarrow> spu_sys \<Rightarrow> spu_sys option" where
  "spusched_thread e schedule y =
     (if kthread_should_stop e (sy_tick y) then Some (spu_tick y)
      else (case schedule (spu_tick y) of None \<Rightarrow> None
        | Some y1 \<Rightarrow> (case tick_nodes e [0..<MAX_NUMNODES e] y1 of None \<Rightarrow> None
            | Some y2 \<Rightarrow> spusched_thread e schedule y2)))"

section \<open>Initialisation and exit\<close>

text \<open>The result is 0 or the error; the arguments are the outcomes of the three calls that can fail.\<close>

definition empty_prio :: spu_prio_array where
  "empty_prio = \<lparr>bitmap = (\<lambda>_. False), runq = (\<lambda>_. []), nr_waiting = 0\<rparr>"

definition spu_sched_init :: "bool \<Rightarrow> int \<Rightarrow> bool \<Rightarrow> spu_sys \<Rightarrow> int \<times> spu_sys" where
  "spu_sched_init mem kthread_err proc_ok y =
     (if \<not> mem then (- ENOMEM, y\<lparr>sy_prio := None\<rparr>)
      else
        let y1 = y\<lparr>sy_prio := Some empty_prio, spusched_timer := None, spuloadavg_timer := None\<rparr> in
        if kthread_err \<noteq> 0 then (kthread_err, y1\<lparr>sy_prio := None\<rparr>)
        else
          let y2 = y1\<lparr>spuloadavg_timer := Some 0\<rparr> in
          if \<not> proc_ok then (- ENOMEM, spu_log StopSchedTask (y2\<lparr>sy_prio := None\<rparr>)) else (0, y2))"

primrec free_spus :: "saddr list \<Rightarrow> spu_sys \<Rightarrow> spu_sys option" where
  "free_spus [] y = Some y"
| "free_spus (s # ss) y = do {
     S \<leftarrow> sy_spu y s;
     y1 \<leftarrow> (if alloc_state S \<noteq> SPU_FREE then spu_upd y s (\<lambda>S. S\<lparr>alloc_state := SPU_FREE\<rparr>) else Some y);
     free_spus ss y1 }"

primrec free_nodes :: "nat list \<Rightarrow> spu_sys \<Rightarrow> spu_sys option" where
  "free_nodes [] y = Some y"
| "free_nodes (n # ns) y = do { y1 \<leftarrow> free_spus (n_spus (sy_node y n)) y; free_nodes ns y1 }"

definition spu_sched_exit :: "spu_env \<Rightarrow> spu_sys \<Rightarrow> spu_sys option" where
  "spu_sched_exit e y = do {
     y1 \<leftarrow> free_nodes [0..<MAX_NUMNODES e] (spu_log StopSchedTask (y\<lparr>spusched_timer := None, spuloadavg_timer := None\<rparr>));
     Some (y1\<lparr>sy_prio := None\<rparr>) }"

end
