(* ===== verification/Loadavg.thy ===== *)
theory Loadavg
  imports Spu_Sched Pid_Core
begin

text \<open>
  The two files that print the cursor of the active PID namespace: \<^verbatim>\<open>loadavg.c\<close> and \<^verbatim>\<open>show_spu_loadavg\<close> of
  \<^verbatim>\<open>sched.c\<close>.  The result is the list of the numbers that \<^verbatim>\<open>seq_printf\<close> formats.
\<close>

record load_env =
  get_avenrun :: "64 word \<Rightarrow> 64 word \<times> 64 word \<times> 64 word"
  LOAD_INT :: "int \<Rightarrow> int"
  LOAD_FRAC :: "int \<Rightarrow> int"
  nr_running :: int
  nr_threads :: int
  nr_spu_contexts :: int

definition load_fields :: "load_env \<Rightarrow> int \<Rightarrow> int \<Rightarrow> int \<Rightarrow> int list" where
  "load_fields le a b c = [LOAD_INT le a, LOAD_FRAC le a, LOAD_INT le b, LOAD_FRAC le b, LOAD_INT le c, LOAD_FRAC le c]"

definition loadavg_proc_show :: "kenv \<Rightarrow> load_env \<Rightarrow> 64 word \<Rightarrow> 'sl kernel \<Rightarrow> int list option" where
  "loadavg_proc_show e le fixed_1 k = do {
     let (a, b, c) = get_avenrun le (fixed_1 div 200);
     active \<leftarrow> task_active_pid_ns e (k_current k) k;
     ns \<leftarrow> active;
     cursor \<leftarrow> pid_ns_get_cursor ns k;
     Some (load_fields le (uint a) (uint b) (uint c) @ [nr_running le, nr_threads le, cursor - 1]) }"

text \<open>The sums are assigned to variables of type \<^verbatim>\<open>int\<close>.\<close>

definition to_int32 :: "64 word \<Rightarrow> int" where
  "to_int32 w = sint (ucast w :: 32 word)"

definition show_spu_loadavg :: "kenv \<Rightarrow> spu_env \<Rightarrow> load_env \<Rightarrow> spu_sys \<Rightarrow> 'sl kernel \<Rightarrow> int list option" where
  "show_spu_loadavg e se le y k = do {
     let (a, b, c) = spu_avenrun y;
     n \<leftarrow> count_active_contexts se y;
     active \<leftarrow> task_active_pid_ns e (k_current k) k;
     ns \<leftarrow> active;
     cursor \<leftarrow> pid_ns_get_cursor ns k;
     Some (load_fields le (to_int32 (a + FIXED_1 se div 200)) (to_int32 (b + FIXED_1 se div 200))
             (to_int32 (c + FIXED_1 se div 200)) @ [n, nr_spu_contexts le, cursor - 1]) }"

end
