(* ===== verification/Pid_Idr.thy ===== *)
theory Pid_Idr
  imports Loadavg Pid_Namespace
begin

text \<open>
  The configuration that the two skip lists replace.  Without \<^verbatim>\<open>CONFIG_PID_SKIPLIST\<close> (in the other tree
  \<^verbatim>\<open>CONFIG_PID_RB_SKIPLIST\<close>) the numbers of a namespace are kept in a \<^verbatim>\<open>struct idr\<close> of the kernel library,
  and the branches under \<^verbatim>\<open>#ifndef\<close> of \<^verbatim>\<open>pid.c\<close>, \<^verbatim>\<open>pid_namespace.c\<close>, \<^verbatim>\<open>sched.c\<close> and \<^verbatim>\<open>loadavg.c\<close> are compiled.  The IDR is code
  outside the repository: its operations are the record \<open>idr_api\<close>, and \<open>idr_ok\<close> states their documented
  behaviour.

  The state is that of the other configuration: the index field of a namespace holds its \<^verbatim>\<open>idr\<close>.  The field
  \<open>last_pid\<close> does not exist in this configuration, and no definition of this theory reads or writes it.
\<close>

section \<open>The operations of an IDR\<close>

record 'i idr_api =
  idr_init :: "'i \<Rightarrow> 'i"
  idr_destroy :: "'i \<Rightarrow> 'i"
  idr_get_cursor :: "'i \<Rightarrow> int"
  idr_set_cursor :: "'i \<Rightarrow> int \<Rightarrow> 'i"
  idr_alloc_cyclic :: "draw \<Rightarrow> 'i \<Rightarrow> paddr option \<Rightarrow> int \<Rightarrow> int \<Rightarrow> gfp_t \<Rightarrow> int \<times> 'i"
  idr_replace :: "'i \<Rightarrow> paddr option \<Rightarrow> int \<Rightarrow> 'i"
  idr_remove :: "'i \<Rightarrow> int \<Rightarrow> 'i"
  idr_find :: "'i \<Rightarrow> int \<Rightarrow> paddr option"
  idr_get_next :: "'i \<Rightarrow> int \<Rightarrow> (int \<times> paddr) option"

text \<open>
  The documented behaviour, against the map \<open>B\<close> from numbers to pointers, in which a number bound to \<^verbatim>\<open>NULL\<close>
  is taken.  \<^verbatim>\<open>idr_get_next\<close> passes over such numbers.  \<^verbatim>\<open>idr_alloc_cyclic\<close> binds the first number that is not taken, from the cursor on and then from
  the start of the range, and moves the cursor behind it.
\<close>

definition first_unbound :: "idx \<Rightarrow> int \<Rightarrow> int \<Rightarrow> int option" where
  "first_unbound m lo hi = List.find (\<lambda>j. m j = None) [lo..hi - 1]"

definition cyclic_choice :: "idx \<Rightarrow> int \<Rightarrow> int \<Rightarrow> int \<Rightarrow> int option" where
  "cyclic_choice m cursor lo hi = (case first_unbound m (max lo cursor) hi of Some j \<Rightarrow> Some j
     | None \<Rightarrow> first_unbound m lo hi)"

definition draw_enough :: "draw \<Rightarrow> bool" where
  "draw_enough d \<longleftrightarrow> (\<forall>g. kzalloc_ok d g \<and> kcalloc_ok d g)"

definition idr_ok :: "'i idr_api \<Rightarrow> ('i \<Rightarrow> idx) \<Rightarrow> bool" where
  "idr_ok api B \<longleftrightarrow>
     (\<forall>s k. idr_find api s k = idx_get (B s) k) \<and>
     (\<forall>s k. B (idr_remove api s k) = (B s)(k := None) \<and> idr_get_cursor api (idr_remove api s k) = idr_get_cursor api s) \<and>
     (\<forall>s p k. k \<in> dom (B s) \<longrightarrow> B (idr_replace api s p k) = (B s)(k \<mapsto> p) \<and>
        idr_get_cursor api (idr_replace api s p k) = idr_get_cursor api s) \<and>
     (\<forall>s c. B (idr_set_cursor api s c) = B s \<and> idr_get_cursor api (idr_set_cursor api s c) = c) \<and>
     (\<forall>s k j p. idr_get_next api s k = Some (j, p) \<longleftrightarrow>
        k \<le> j \<and> B s j = Some (Some p) \<and> (\<forall>i. k \<le> i \<and> i < j \<longrightarrow> idx_get (B s) i = None)) \<and>
     (\<forall>s k. idr_get_next api s k = None \<longleftrightarrow> (\<forall>j. k \<le> j \<longrightarrow> idx_get (B s) j = None)) \<and>
     (\<forall>d s p lo hi g r s'. draw_enough d \<and> 0 \<le> lo \<and> 0 < hi \<and> idr_alloc_cyclic api d s p lo hi g = (r, s') \<longrightarrow>
        (case cyclic_choice (B s) (idr_get_cursor api s) lo hi of
           None \<Rightarrow> r = - ENOSPC \<and> B s' = B s \<and> idr_get_cursor api s' = idr_get_cursor api s
         | Some j \<Rightarrow> r = j \<and> B s' = (B s)(j \<mapsto> p) \<and> idr_get_cursor api s' = j + 1))"

section \<open>pid.c over an IDR\<close>

text \<open>
  The functions that only remove and destroy are those of the other configuration with these calls; insertion,
  iteration and the header have no counterpart, and their use would be a fault.
\<close>

definition idr_calls :: "'i idr_api \<Rightarrow> 'i index_ops" where
  "idr_calls api = \<lparr>op_init = \<lambda>_ _ s. Some (idr_init api s), op_destroy = \<lambda>s. Some (idr_destroy api s),
     op_insert = \<lambda>_ _ _ _ _. None, op_lookup = \<lambda>s nr. Some (idr_find api s nr),
     op_remove = \<lambda>s nr. Some (idr_remove api s nr), op_iter_next = \<lambda>_ _ _. None,
     op_find_ge = \<lambda>s nr. Some (map_option snd (idr_get_next api s nr)), op_header = \<lambda>_. None\<rparr>"

definition idr_free_pid :: "'i idr_api \<Rightarrow> paddr \<Rightarrow> 'i kernel \<Rightarrow> 'i kernel option" where
  "idr_free_pid api = free_pid (idr_calls api)"

definition idr_find_pid_ns :: "'i idr_api \<Rightarrow> int \<Rightarrow> nsaddr \<Rightarrow> 'i kernel \<Rightarrow> paddr option option" where
  "idr_find_pid_ns api nr ns k = do { n \<leftarrow> k_ns k ns; Some (idr_find api (pid_sl n) nr) }"

definition idr_find_ge_pid :: "'i idr_api \<Rightarrow> int \<Rightarrow> nsaddr option \<Rightarrow> 'i kernel \<Rightarrow> paddr option option" where
  "idr_find_ge_pid api nr ns k = do {
     a \<leftarrow> ns;
     n \<leftarrow> k_ns k a;
     Some (map_option snd (idr_get_next api (pid_sl n) nr)) }"

text \<open>The critical section that takes a number in one namespace.\<close>

definition idr_alloc_nr :: "'i idr_api \<Rightarrow> kenv \<Rightarrow> nsaddr \<Rightarrow> 'i kernel \<Rightarrow> (int \<times> 'i kernel) option" where
  "idr_alloc_nr api e tmp k = do {
     n \<leftarrow> k_ns k tmp;
     let pid_min = (if RESERVED_PIDS < idr_get_cursor api (pid_sl n) then RESERVED_PIDS else 1);
     let (nr, s') = idr_alloc_cyclic api (e_draw e (k_tick k)) (pid_sl n) None pid_min (pid_max k) GFP_ATOMIC;
     k1 \<leftarrow> ns_upd k tmp (\<lambda>n. n\<lparr>pid_sl := s'\<rparr>);
     Some (nr, tick k1) }"

primrec idr_alloc_levels :: "'i idr_api \<Rightarrow> kenv \<Rightarrow> paddr \<Rightarrow> nat \<Rightarrow> nsaddr option \<Rightarrow> int \<Rightarrow> 'i kernel
    \<Rightarrow> (int \<times> int \<times> 'i kernel) option" where
  "idr_alloc_levels api e p 0 tmp retval k = Some (-1, retval, k)"
| "idr_alloc_levels api e p (Suc i) tmp retval k = do {
     ns \<leftarrow> tmp;
     (nr, k1) \<leftarrow> idr_alloc_nr api e ns k;
     if nr < 0 then Some (int i, (if nr = - ENOSPC then - EAGAIN else nr), k1)
     else do {
       P \<leftarrow> k_pids k1 p;
       k2 \<leftarrow> (if i < length (p_numbers P)
              then pid_upd k1 p (\<lambda>P. P\<lparr>p_numbers := (p_numbers P)[i := Some \<lparr>u_nr = nr, u_ns = ns\<rparr>]\<rparr>)
              else None);
       n \<leftarrow> k_ns k2 ns;
       idr_alloc_levels api e p i (ns_parent n) retval k2 } }"

primrec idr_alloc_publish :: "'i idr_api \<Rightarrow> paddr \<Rightarrow> nat \<Rightarrow> 'i kernel \<Rightarrow> 'i kernel option" where
  "idr_alloc_publish api p 0 k = Some k"
| "idr_alloc_publish api p (Suc i) k = do {
     P \<leftarrow> k_pids k p;
     u \<leftarrow> pid_number P i;
     k1 \<leftarrow> ns_upd k (u_ns u) (\<lambda>n. n\<lparr>pid_sl := idr_replace api (pid_sl n) (Some p) (u_nr u),
             pid_allocated := pid_allocated n + 1\<rparr>);
     idr_alloc_publish api p i k1 }"

definition idr_alloc_out_free :: "'i idr_api \<Rightarrow> nsaddr \<Rightarrow> paddr \<Rightarrow> int \<Rightarrow> int \<Rightarrow> 'i kernel
    \<Rightarrow> (paddr errptr \<times> 'i kernel) option" where
  "idr_alloc_out_free api ns p i retval k = do {
     n \<leftarrow> k_ns k ns;
     k1 \<leftarrow> alloc_unreserve (idr_calls api) p (nat (i + 1)) (nat (int (ns_level n) - i)) k;
     n1 \<leftarrow> k_ns k1 ns;
     k2 \<leftarrow> (if pid_allocated n1 = PIDNS_ADDING
            then ns_upd k1 ns (\<lambda>n. n\<lparr>pid_sl := idr_set_cursor api (pid_sl n) 0\<rparr>) else Some k1);
     Some (ERR_PTR retval, k2\<lparr>k_pids := (k_pids k2)(p := None)\<rparr>) }"

definition idr_alloc_commit :: "'i idr_api \<Rightarrow> nsaddr \<Rightarrow> paddr \<Rightarrow> int \<Rightarrow> 'i kernel
    \<Rightarrow> (paddr errptr \<times> 'i kernel) option" where
  "idr_alloc_commit api ns p retval k = do {
     k1 \<leftarrow> get_pid_ns ns k;
     k2 \<leftarrow> pid_upd k1 p (\<lambda>P. P\<lparr>p_count := 1, p_tasks := (\<lambda>_. [])\<rparr>);
     n \<leftarrow> k_ns k2 ns;
     if pid_allocated n AND PIDNS_ADDING = 0
     then do {
       k3 \<leftarrow> put_pid_ns (idr_calls api) (Some ns) k2;
       idr_alloc_out_free api ns p (-1) retval k3 }
     else do {
       k3 \<leftarrow> idr_alloc_publish api p (Suc (ns_level n)) k2;
       Some (ValidPtr p, k3) } }"

definition idr_alloc_pid :: "'i idr_api \<Rightarrow> kenv \<Rightarrow> nsaddr \<Rightarrow> 'i kernel \<Rightarrow> (paddr errptr \<times> 'i kernel) option" where
  "idr_alloc_pid api e ns k = do {
     n \<leftarrow> k_ns k ns;
     if \<not> kmem_cache_alloc_ok e (k_tick k) then Some (ERR_PTR (- ENOMEM), tick k)
     else do {
       let (p, k1) = new_pid (ns_level n) (tick k);
       (i, retval, k2) \<leftarrow> idr_alloc_levels api e p (Suc (ns_level n)) (Some ns) (- ENOMEM) k1;
       if 0 \<le> i then idr_alloc_out_free api ns p i retval k2
       else do {
         reaper \<leftarrow> is_child_reaper p k2;
         if reaper \<and> pid_ns_prepare_proc e (k_tick k2) ns \<noteq> 0
         then idr_alloc_out_free api ns p (-1) retval (tick k2)
         else idr_alloc_commit api ns p retval (if reaper then tick k2 else k2) } } }"

section \<open>pid\_namespace.c over an IDR\<close>

text \<open>\<^verbatim>\<open>idr_for_each_entry_continue\<close> from \<open>nr\<close> on, with the body of the loop in \<^verbatim>\<open>zap_pid_ns_processes\<close>.\<close>

partial_function (option) idr_zap_kill :: "'i idr_api \<Rightarrow> kenv \<Rightarrow> nsaddr \<Rightarrow> int \<Rightarrow> 'i kernel \<Rightarrow> 'i kernel option" where
  "idr_zap_kill api e ns nr k =
     (case k_ns k ns of None \<Rightarrow> None
      | Some n \<Rightarrow> (case idr_get_next api (pid_sl n) nr of None \<Rightarrow> Some k
          | Some r \<Rightarrow> (case pid_task (Some (snd r)) PIDTYPE_PID k of None \<Rightarrow> None
              | Some task \<Rightarrow> idr_zap_kill api e ns (fst r + 1) (case task of None \<Rightarrow> k
                  | Some t \<Rightarrow> if \<not> fatal_signal_pending e t then log_event (SendSigkill task) k else k))))"

definition idr_pid_ns_ctl_handler :: "'i idr_api \<Rightarrow> kenv \<Rightarrow> bool \<Rightarrow> 'i kernel \<Rightarrow> (int \<times> 'i kernel) option" where
  "idr_pid_ns_ctl_handler api e write k = do {
     a \<leftarrow> task_active_pid_ns e (k_current k) k;
     pid_ns \<leftarrow> a;
     n \<leftarrow> k_ns k pid_ns;
     if write \<and> \<not> ns_capable e (user_ns n) then Some (- EPERM, k)
     else do {
       let (ret, next) = proc_dointvec_minmax e write 0 (pid_max k) (idr_get_cursor api (pid_sl n) - 1);
       k' \<leftarrow> (if ret = 0 \<and> write
              then ns_upd k pid_ns (\<lambda>n. n\<lparr>pid_sl := idr_set_cursor api (pid_sl n) (next + 1)\<rparr>) else Some k);
       Some (ret, k') } }"

section \<open>The cursor in loadavg.c and sched.c\<close>

definition idr_loadavg_proc_show :: "'i idr_api \<Rightarrow> kenv \<Rightarrow> load_env \<Rightarrow> 64 word \<Rightarrow> 'i kernel \<Rightarrow> int list option" where
  "idr_loadavg_proc_show api e le fixed_1 k = do {
     let (a, b, c) = get_avenrun le (fixed_1 div 200);
     active \<leftarrow> task_active_pid_ns e (k_current k) k;
     ns \<leftarrow> active;
     n \<leftarrow> k_ns k ns;
     Some (load_fields le (uint a) (uint b) (uint c)
           @ [nr_running le, nr_threads le, idr_get_cursor api (pid_sl n) - 1]) }"

definition idr_show_spu_loadavg :: "'i idr_api \<Rightarrow> kenv \<Rightarrow> spu_env \<Rightarrow> load_env \<Rightarrow> spu_sys \<Rightarrow> 'i kernel
    \<Rightarrow> int list option" where
  "idr_show_spu_loadavg api e se le y k = do {
     let (a, b, c) = spu_avenrun y;
     m \<leftarrow> count_active_contexts se y;
     active \<leftarrow> task_active_pid_ns e (k_current k) k;
     ns \<leftarrow> active;
     n \<leftarrow> k_ns k ns;
     Some (load_fields le (to_int32 (a + FIXED_1 se div 200)) (to_int32 (b + FIXED_1 se div 200))
             (to_int32 (c + FIXED_1 se div 200)) @ [m, nr_spu_contexts le, idr_get_cursor api (pid_sl n) - 1]) }"

end
