(* ===== verification/Idr_Choice.thy ===== *)
theory Idr_Choice
  imports Pid_Idr Pid_Free_Correct
begin

text \<open>
  Which number the IDR takes and which the skip list takes.  The two rules are compared on the map of a
  namespace, and a relation between the states of the two configurations is fixed.
\<close>

section \<open>The two rules\<close>

text \<open>No number is bound to \<^verbatim>\<open>NULL\<close>: no reservation is in flight.\<close>

definition no_null :: "idx \<Rightarrow> bool" where
  "no_null m \<longleftrightarrow> (\<forall>j. m j \<noteq> Some None)"

text \<open>
  The search starts over with low numbers free: every number from the cursor on is taken, the cursor is
  beyond the reserved numbers, and one of those, which the IDR leaves alone from then on, is free.
\<close>

definition wraps_low :: "idx \<Rightarrow> int \<Rightarrow> int \<Rightarrow> bool" where
  "wraps_low m lp pmax \<longleftrightarrow> RESERVED_PIDS \<le> lp \<and> first_free m (lp + 1) pmax = None \<and>
     (\<exists>j. 1 \<le> j \<and> j < RESERVED_PIDS \<and> j < pmax \<and> idx_get m j = None)"

definition idr_pid_min :: "int \<Rightarrow> int" where
  "idr_pid_min cursor = (if RESERVED_PIDS < cursor then RESERVED_PIDS else 1)"

lemma first_unbound_free: "no_null m \<Longrightarrow> first_unbound m lo hi = first_free m lo hi"
proof -
  assume "no_null m"
  then have "m j \<noteq> Some None" for j by (simp add: no_null_def)
  then have "m j = None \<longleftrightarrow> idx_get m j = None" for j by (simp add: idx_get_def split: option.splits) (metis option.exhaust)
  then show ?thesis by (simp add: first_unbound_def first_free_def)
qed

lemma first_free_split:
  "lo \<le> mid \<Longrightarrow> mid \<le> hi \<Longrightarrow> first_free m lo hi =
     (case first_free m lo mid of Some j \<Rightarrow> Some j | None \<Rightarrow> first_free m mid hi)"
proof (induction "nat (mid - lo)" arbitrary: lo)
  case 0
  then have "lo = mid" by simp
  then show ?case by (subst (2) first_free_rec) simp
next
  case (Suc x)
  then have IH: "first_free m (lo + 1) hi = (case first_free m (lo + 1) mid of Some j \<Rightarrow> Some j | None \<Rightarrow> first_free m mid hi)"
    by simp
  have "lo < mid" "lo < hi" using Suc.hyps(2) Suc.prems(2) by simp_all
  then show ?case
    by (simp only: first_free_rec [of m lo hi] first_free_rec [of m lo mid] IH if_True) simp
qed

lemma first_free_empty: "hi \<le> lo \<Longrightarrow> first_free m lo hi = None"
  by (subst first_free_rec) simp

text \<open>Both rules as one search, which differ in where it starts over.\<close>

lemma next_nr_eq:
  assumes "0 \<le> lp"
  shows "next_nr m lp pmax = (case first_free m (lp + 1) pmax of Some j \<Rightarrow> Some j | None \<Rightarrow> first_free m 1 pmax)"
proof (cases "lp + 1 < pmax")
  case True
  then have "first_free m 1 pmax = (case first_free m 1 (lp + 1) of Some j \<Rightarrow> Some j | None \<Rightarrow> first_free m (lp + 1) pmax)"
    using assms by (intro first_free_split) auto
  with True assms show ?thesis by (auto simp: next_nr_def start_pid_def split: option.splits)
next
  case False
  with assms show ?thesis by (simp add: next_nr_def start_pid_def first_free_empty split: option.splits)
qed

lemma cyclic_choice_eq:
  assumes "no_null m" and "max 1 cursor = lp + 1"
  shows "cyclic_choice m cursor (idr_pid_min cursor) pmax =
     (case first_free m (lp + 1) pmax of Some j \<Rightarrow> Some j | None \<Rightarrow> first_free m (idr_pid_min cursor) pmax)"
proof -
  have "max (idr_pid_min cursor) cursor = lp + 1" using assms(2) by (auto simp: idr_pid_min_def RESERVED_PIDS_def)
  then show ?thesis by (simp add: cyclic_choice_def first_unbound_free [OF assms(1)] cong: option.case_cong)
qed

lemma wraps_low_choices:
  assumes m: "no_null m" and c: "max 1 cursor = lp + 1" and w: "wraps_low m lp pmax"
  obtains i where "next_nr m lp pmax = Some i" "1 \<le> i" "i < RESERVED_PIDS"
    and "case cyclic_choice m cursor (idr_pid_min cursor) pmax of None \<Rightarrow> True | Some j \<Rightarrow> RESERVED_PIDS \<le> j"
proof -
  have lp: "0 \<le> lp" using c by simp
  have lo: "idr_pid_min cursor = RESERVED_PIDS" using w c by (auto simp: wraps_low_def idr_pid_min_def RESERVED_PIDS_def)
  have none: "first_free m (lp + 1) pmax = None" using w by (simp add: wraps_low_def)
  have "first_free m 1 (min RESERVED_PIDS pmax) \<noteq> None" using w by (auto simp: wraps_low_def first_free_None)
  then obtain i where i: "first_free m 1 (min RESERVED_PIDS pmax) = Some i" by auto
  then have "first_free m 1 pmax = Some i" "1 \<le> i" "i < RESERVED_PIDS" by (auto simp: first_free_Some)
  moreover have "case first_free m RESERVED_PIDS pmax of None \<Rightarrow> True | Some j \<Rightarrow> RESERVED_PIDS \<le> j"
    using first_free_Some [of m RESERVED_PIDS pmax] by (simp split: option.split)
  moreover have "cyclic_choice m cursor (idr_pid_min cursor) pmax = first_free m RESERVED_PIDS pmax"
    by (subst cyclic_choice_eq [OF m c]) (simp add: none lo)
  moreover have "next_nr m lp pmax = first_free m 1 pmax" by (simp add: next_nr_eq [OF lp] none)
  ultimately show thesis using that by simp
qed

text \<open>The two agree unless the search starts over with low numbers free, and then they differ.\<close>

theorem choices_agree:
  assumes m: "no_null m" and c: "max 1 cursor = lp + 1"
  shows "cyclic_choice m cursor (idr_pid_min cursor) pmax = next_nr m lp pmax \<longleftrightarrow> \<not> wraps_low m lp pmax"
proof (cases "wraps_low m lp pmax")
  case True
  from wraps_low_choices [OF m c True] show ?thesis using True by (metis linorder_not_le option.simps(5))
next
  case False
  have lp: "0 \<le> lp" using c by simp
  have big: "RESERVED_PIDS < cursor \<longleftrightarrow> RESERVED_PIDS \<le> lp" using c by (auto simp: RESERVED_PIDS_def)
  have "first_free m 1 pmax = first_free m RESERVED_PIDS pmax" if "RESERVED_PIDS \<le> lp" "first_free m (lp + 1) pmax = None"
  proof (cases "RESERVED_PIDS \<le> pmax")
    case rp: True
    have "first_free m 1 RESERVED_PIDS = None" using False that rp by (auto simp: wraps_low_def first_free_None)
    then show ?thesis using rp by (subst first_free_split [of 1 RESERVED_PIDS]) (auto simp: RESERVED_PIDS_def)
  next
    case rp: False
    then have "first_free m 1 pmax = None" "first_free m RESERVED_PIDS pmax = None"
      using False that by (auto simp: wraps_low_def first_free_None)
    then show ?thesis by simp
  qed
  with False big show ?thesis unfolding next_nr_eq [OF lp] cyclic_choice_eq [OF m c]
    by (auto simp: idr_pid_min_def split: option.splits)
qed

text \<open>The two rules agree in the namespace at \<open>tmp\<close> and in its ancestors, for \<open>m\<close> levels.\<close>

primrec same_choices :: "('sl \<Rightarrow> idx) \<Rightarrow> 'sl kernel \<Rightarrow> nat \<Rightarrow> nsaddr option \<Rightarrow> bool" where
  "same_choices A k 0 tmp = True"
| "same_choices A k (Suc m) tmp = (case tmp of None \<Rightarrow> True
     | Some a \<Rightarrow> (case k_ns k a of None \<Rightarrow> True
         | Some n \<Rightarrow> no_null (A (pid_sl n)) \<and> \<not> wraps_low (A (pid_sl n)) (last_pid n) (pid_max k) \<and>
             same_choices A k m (ns_parent n)))"

lemma same_choices_None [simp]: "same_choices A k m None"
  by (cases m) simp_all

text \<open>A change of namespaces that are not above does not matter.\<close>

lemma same_choices_cong:
  assumes "ns_wf I k" and "\<And>b m. live k b m \<Longrightarrow> ns_level m < l \<Longrightarrow> k_ns k2 b = k_ns k b" and "pid_max k2 = pid_max k"
  shows "live k b m \<Longrightarrow> ns_level m < l \<Longrightarrow> same_choices A k2 i (Some b) = same_choices A k i (Some b)"
proof (induction i arbitrary: b m)
  case (Suc i)
  have m: "k_ns k b = Some m" "k_ns k2 b = Some m" using Suc.prems assms(2) by (auto simp: live_def)
  have "same_choices A k2 i (ns_parent m) = same_choices A k i (ns_parent m)"
  proof (cases "ns_parent m")
    case (Some c)
    then obtain m' where "live k c m'" "ns_level m = Suc (ns_level m')" using Suc.prems(1) assms(1) by (fastforce simp: ns_wf_def)
    with Suc.IH [of c m'] Suc.prems(2) Some show ?thesis by simp
  qed simp
  with m assms(3) show ?case by simp
qed simp

section \<open>Results and environment\<close>

text \<open>
  The value that the IDR configuration returns where the skip list returns the given one.  They differ in the two
  errors: \<^verbatim>\<open>retval\<close> still holds \<^verbatim>\<open>-ENOMEM\<close> where the skip list has overwritten it with 0, and a full namespace
  is \<^verbatim>\<open>-EAGAIN\<close> and not -1.
\<close>

fun idr_result :: "paddr errptr \<Rightarrow> paddr errptr" where
  "idr_result (ValidPtr p) = ValidPtr p"
| "idr_result NullPtr = ErrPtr (- ENOMEM)"
| "idr_result (ErrPtr c) = ErrPtr (if c = -1 then - EAGAIN else c)"

text \<open>
  The slab cache and \<^verbatim>\<open>pid_ns_prepare_proc\<close> answer the same at every call; and what \<^verbatim>\<open>proc_dointvec_minmax\<close>
  stores on a write is the number written, not below the minimum, or nothing, whatever the old value.
\<close>

definition minmax_uniform :: "(int \<Rightarrow> int \<times> int) \<Rightarrow> int \<Rightarrow> bool" where
  "minmax_uniform f lo \<longleftrightarrow> (\<forall>d d'. fst (f d) = fst (f d') \<and>
     (fst (f d) = 0 \<longrightarrow> snd (f d) = d \<and> snd (f d') = d' \<or> snd (f d) = snd (f d') \<and> lo \<le> snd (f d)))"

definition env_steady :: "kenv \<Rightarrow> bool" where
  "env_steady e \<longleftrightarrow> (\<forall>t t'. kmem_cache_alloc_ok e t = kmem_cache_alloc_ok e t' \<and>
     pid_ns_prepare_proc e t = pid_ns_prepare_proc e t') \<and>
     (\<forall>w lo hi. minmax_uniform (proc_dointvec_minmax e w lo hi) lo)"

section \<open>Related states\<close>

text \<open>
  Everything but the index and the cursor is the same; the maps are the same; and the cursor of the IDR, if it
  has moved, is one more than \<open>last_pid\<close>.  The index of a namespace that has been destroyed is not compared,
  nor is the number of the calls to the kernel's allocator.
\<close>

definition ns_rest :: "'sl pid_namespace \<Rightarrow> nat \<times> 32 word \<times> taddr option \<times> nat option \<times> nat \<times> nsaddr option \<times> nat \<times> nat \<times> int" where
  "ns_rest n = (kref n, pid_allocated n, child_reaper n, pid_cachep n, ns_level n, ns_parent n, user_ns n, ucounts n, reboot n)"

definition k_rest where
  "k_rest k = (k_pids k, k_tasks k, k_signals k, k_nsproxies k, k_brk k, k_current k, pid_max k, pid_max_min k,
     pid_max_max k, pid_cache k, k_rcu k, k_events k)"

definition ns_rel :: "('sl \<Rightarrow> bool) \<Rightarrow> ('sl \<Rightarrow> idx) \<Rightarrow> ('i \<Rightarrow> idx) \<Rightarrow> 'i idr_api \<Rightarrow> 'sl pid_namespace \<Rightarrow> 'i pid_namespace \<Rightarrow> bool" where
  "ns_rel I A B api n n' \<longleftrightarrow> ns_rest n' = ns_rest n \<and>
     (0 < kref n \<longrightarrow> I (pid_sl n) \<and> B (pid_sl n') = A (pid_sl n) \<and> 0 \<le> last_pid n \<and>
        max 1 (idr_get_cursor api (pid_sl n')) = last_pid n + 1)"

definition idr_rel :: "('sl \<Rightarrow> bool) \<Rightarrow> ('sl \<Rightarrow> idx) \<Rightarrow> ('i \<Rightarrow> idx) \<Rightarrow> 'i idr_api \<Rightarrow> 'sl kernel \<Rightarrow> 'i kernel \<Rightarrow> bool" where
  "idr_rel I A B api k k' \<longleftrightarrow> k_rest k' = k_rest k \<and> 0 < pid_max k \<and>
     (\<forall>a. rel_option (ns_rel I A B api) (k_ns k a) (k_ns k' a))"

end
