(* ===== verification/Idr_Sim.thy ===== *)
theory Idr_Sim
  imports Idr_Choice Kernel_Reach
begin

text \<open>
  The two configurations of \<^verbatim>\<open>pid.c\<close> run side by side: from related states every phase of \<^verbatim>\<open>alloc_pid\<close>, and
  \<^verbatim>\<open>free_pid\<close>, lead to related states.  The lemmas hold for every index that meets the contract
  \<open>pid_index\<close> and every IDR that behaves as documented.
\<close>

section \<open>Moving along the relation\<close>

lemma idr_rel_fields:
  assumes "idr_rel I A B api k k'"
  shows "k_pids k' = k_pids k" "k_tasks k' = k_tasks k" "k_brk k' = k_brk k" "pid_max k' = pid_max k"
    "k_events k' = k_events k" "k_rcu k' = k_rcu k" "0 < pid_max k" "k_current k' = k_current k"
  using assms by (simp_all add: idr_rel_def k_rest_def)

lemma idr_rel_ns:
  assumes "idr_rel I A B api k k'" and "k_ns k a = Some n"
  obtains n' where "k_ns k' a = Some n'" "ns_rel I A B api n n'"
proof -
  have "rel_option (ns_rel I A B api) (k_ns k a) (k_ns k' a)" using assms(1) by (simp add: idr_rel_def)
  with assms(2) that show ?thesis by (auto simp: option_rel_Some1)
qed

lemma idr_rel_active:
  assumes "idr_rel I A B api k k'" and "task_active_pid_ns e (k_current k) k = r"
  shows "task_active_pid_ns e (k_current k') k' = r"
  using assms(2) unfolding task_active_pid_ns_def ns_of_pid_def by (simp only: idr_rel_fields [OF assms(1)])

lemma idr_rel_write:
  assumes "idr_rel I A B api k k'" and "ns_rel I A B api m m'"
  shows "idr_rel I A B api (k\<lparr>k_ns := (k_ns k)(a \<mapsto> m)\<rparr>) (k'\<lparr>k_ns := (k_ns k')(a \<mapsto> m')\<rparr>)"
  using assms by (simp add: idr_rel_def k_rest_def)

lemma idr_rel_tick [simp]:
  "idr_rel I A B api (k\<lparr>k_tick := t\<rparr>) k' = idr_rel I A B api k k'"
  "idr_rel I A B api k (k'\<lparr>k_tick := t\<rparr>) = idr_rel I A B api k k'"
  "idr_rel I A B api (tick k) k' = idr_rel I A B api k k'"
  "idr_rel I A B api k (tick k') = idr_rel I A B api k k'"
  by (simp_all add: idr_rel_def k_rest_def tick_def)

lemma idr_rel_pids:
  "idr_rel I A B api k k' \<Longrightarrow> idr_rel I A B api (k\<lparr>k_pids := X\<rparr>) (k'\<lparr>k_pids := X\<rparr>)"
  by (simp add: idr_rel_def k_rest_def)

lemma idr_rel_brk:
  "idr_rel I A B api k k' \<Longrightarrow> idr_rel I A B api (k\<lparr>k_brk := X\<rparr>) (k'\<lparr>k_brk := X\<rparr>)"
  by (simp add: idr_rel_def k_rest_def)

lemma idr_rel_events:
  "idr_rel I A B api k k' \<Longrightarrow> idr_rel I A B api (k\<lparr>k_events := X\<rparr>) (k'\<lparr>k_events := X\<rparr>)"
  by (simp add: idr_rel_def k_rest_def)

lemma idr_rel_rcu:
  "idr_rel I A B api k k' \<Longrightarrow> idr_rel I A B api (k\<lparr>k_rcu := X\<rparr>) (k'\<lparr>k_rcu := X\<rparr>)"
  by (simp add: idr_rel_def k_rest_def)

lemmas idr_rel_moves = idr_rel_pids idr_rel_brk idr_rel_events idr_rel_rcu

lemma ns_relD:
  assumes "ns_rel I A B api n n'"
  shows "kref n' = kref n" "pid_allocated n' = pid_allocated n" "child_reaper n' = child_reaper n"
    "ns_level n' = ns_level n" "ns_parent n' = ns_parent n"
    "0 < kref n \<Longrightarrow> I (pid_sl n) \<and> B (pid_sl n') = A (pid_sl n) \<and> 0 \<le> last_pid n \<and>
       max 1 (idr_get_cursor api (pid_sl n')) = last_pid n + 1"
  using assms by (simp_all add: ns_rel_def ns_rest_def)

text \<open>A write of the common fields, and of the index with its cursor.\<close>

lemma ns_rel_kref:
  "ns_rel I A B api n n' \<Longrightarrow> 0 < kref n \<Longrightarrow> ns_rel I A B api (n\<lparr>kref := c\<rparr>) (n'\<lparr>kref := c\<rparr>)"
  by (simp add: ns_rel_def ns_rest_def)

lemma ns_rel_count:
  "ns_rel I A B api n n' \<Longrightarrow> ns_rel I A B api (n\<lparr>pid_allocated := c\<rparr>) (n'\<lparr>pid_allocated := c\<rparr>)"
  by (simp add: ns_rel_def ns_rest_def)

lemma ns_rel_index:
  assumes "ns_rel I A B api n n'" and "I s" and "B s' = A s" and "0 \<le> lp" and "max 1 (idr_get_cursor api s') = lp + 1"
  shows "ns_rel I A B api (n\<lparr>pid_sl := s, last_pid := lp\<rparr>) (n'\<lparr>pid_sl := s'\<rparr>)"
  using assms by (simp add: ns_rel_def ns_rest_def)

lemma idr_okD:
  assumes "idr_ok api B"
  shows "idr_find api s k = idx_get (B s) k"
    "B (idr_remove api s k) = (B s)(k := None)" "idr_get_cursor api (idr_remove api s k) = idr_get_cursor api s"
    "k \<in> dom (B s) \<Longrightarrow> B (idr_replace api s p k) = (B s)(k \<mapsto> p)"
    "k \<in> dom (B s) \<Longrightarrow> idr_get_cursor api (idr_replace api s p k) = idr_get_cursor api s"
    "B (idr_set_cursor api s c) = B s" "idr_get_cursor api (idr_set_cursor api s c) = c"
  using assms by (simp_all add: idr_ok_def)

lemma idr_ok_next:
  assumes "idr_ok api B"
  shows "idr_get_next api s k = Some (j, p) \<Longrightarrow> k \<le> j \<and> B s j = Some (Some p) \<and> (\<forall>i. k \<le> i \<and> i < j \<longrightarrow> idx_get (B s) i = None)"
    and "idr_get_next api s k = None \<Longrightarrow> k \<le> i \<Longrightarrow> idx_get (B s) i = None"
proof -
  have "\<forall>s k j p. idr_get_next api s k = Some (j, p) \<longleftrightarrow>
        k \<le> j \<and> B s j = Some (Some p) \<and> (\<forall>i. k \<le> i \<and> i < j \<longrightarrow> idx_get (B s) i = None)"
    using assms unfolding idr_ok_def by (elim conjE)
  then show "idr_get_next api s k = Some (j, p) \<Longrightarrow>
     k \<le> j \<and> B s j = Some (Some p) \<and> (\<forall>i. k \<le> i \<and> i < j \<longrightarrow> idx_get (B s) i = None)" by blast
  have "\<forall>s k. idr_get_next api s k = None \<longleftrightarrow> (\<forall>j. k \<le> j \<longrightarrow> idx_get (B s) j = None)"
    using assms unfolding idr_ok_def by (elim conjE)
  then show "idr_get_next api s k = None \<Longrightarrow> k \<le> i \<Longrightarrow> idx_get (B s) i = None" by blast
qed

lemma idr_ok_alloc:
  assumes "idr_ok api B" and "draw_enough d" and "0 \<le> lo" and "0 < hi"
  obtains r s' where "idr_alloc_cyclic api d s p lo hi g = (r, s')"
    and "case cyclic_choice (B s) (idr_get_cursor api s) lo hi of
           None \<Rightarrow> r = - ENOSPC \<and> B s' = B s \<and> idr_get_cursor api s' = idr_get_cursor api s
         | Some j \<Rightarrow> r = j \<and> B s' = (B s)(j \<mapsto> p) \<and> idr_get_cursor api s' = j + 1"
proof -
  obtain r s' where r: "idr_alloc_cyclic api d s p lo hi g = (r, s')" by (cases "idr_alloc_cyclic api d s p lo hi g")
  have "\<forall>d s p lo hi g r s'. draw_enough d \<and> 0 \<le> lo \<and> 0 < hi \<and> idr_alloc_cyclic api d s p lo hi g = (r, s') \<longrightarrow>
        (case cyclic_choice (B s) (idr_get_cursor api s) lo hi of
           None \<Rightarrow> r = - ENOSPC \<and> B s' = B s \<and> idr_get_cursor api s' = idr_get_cursor api s
         | Some j \<Rightarrow> r = j \<and> B s' = (B s)(j \<mapsto> p) \<and> idr_get_cursor api s' = j + 1)"
    using assms(1) unfolding idr_ok_def by (elim conjE)
  with assms(2-4) r that show thesis by blast
qed

section \<open>Taking a number\<close>

lemma idr_alloc_nr_ok:
  assumes api: "idr_ok api B" and mem: "mem_ok e" and n: "k_ns k a = Some n" and pm: "0 < pid_max k"
  obtains r s' where "idr_alloc_nr api e a k = Some (r, tick (k\<lparr>k_ns := (k_ns k)(a \<mapsto> n\<lparr>pid_sl := s'\<rparr>)\<rparr>))"
    and "case cyclic_choice (B (pid_sl n)) (idr_get_cursor api (pid_sl n)) (idr_pid_min (idr_get_cursor api (pid_sl n))) (pid_max k) of
           None \<Rightarrow> r = - ENOSPC \<and> B s' = B (pid_sl n) \<and> idr_get_cursor api s' = idr_get_cursor api (pid_sl n)
         | Some j \<Rightarrow> r = j \<and> B s' = (B (pid_sl n))(j \<mapsto> None) \<and> idr_get_cursor api s' = j + 1"
proof -
  let ?c = "idr_get_cursor api (pid_sl n)" and ?d = "e_draw e (k_tick k)"
  have enough: "draw_enough ?d" using mem by (simp add: mem_ok_def draw_enough_def)
  have pmin: "0 \<le> idr_pid_min ?c" by (simp add: idr_pid_min_def RESERVED_PIDS_def)
  obtain r s' where r: "idr_alloc_cyclic api ?d (pid_sl n) None (idr_pid_min ?c) (pid_max k) GFP_ATOMIC = (r, s')"
    "case cyclic_choice (B (pid_sl n)) ?c (idr_pid_min ?c) (pid_max k) of
           None \<Rightarrow> r = - ENOSPC \<and> B s' = B (pid_sl n) \<and> idr_get_cursor api s' = ?c
         | Some j \<Rightarrow> r = j \<and> B s' = (B (pid_sl n))(j \<mapsto> None) \<and> idr_get_cursor api s' = j + 1"
    using idr_ok_alloc [OF api enough pmin pm] by blast
  have "idr_alloc_nr api e a k = Some (r, tick (k\<lparr>k_ns := (k_ns k)(a \<mapsto> n\<lparr>pid_sl := s'\<rparr>)\<rparr>))"
    using n r(1) by (simp add: idr_alloc_nr_def idr_pid_min_def ns_upd_def cong: if_cong)
  with r(2) that show thesis by blast
qed

context pid_kernel
begin

lemma idr_nr_sim:
  assumes rel: "idr_rel inv abs B api k k'" and api: "idr_ok api B" and good: "\<forall>t. good (e_draw e t)" and mem: "mem_ok e"
    and n: "live k a n" and null: "no_null (abs (pid_sl n))"
    and low: "\<not> wraps_low (abs (pid_sl n)) (last_pid n) (pid_max k)"
  shows "\<exists>nr rv1 sl lp t k1'. alloc_nr ops e a rv k = Some (nr, rv1, set_index a n sl lp t k) \<and>
     idr_alloc_nr api e a k' = Some (if nr < 0 then - ENOSPC else nr, k1') \<and>
     idr_rel inv abs B api (set_index a n sl lp t k) k1' \<and> (nr = -1 \<or> 0 \<le> nr \<and> rv1 = 0)"
proof -
  have na: "k_ns k a = Some n" "0 < kref n" using n by (auto simp: live_def)
  obtain n' where n': "k_ns k' a = Some n'" "ns_rel inv abs B api n n'" using idr_rel_ns [OF rel na(1)] .
  note R = ns_relD(6) [OF n'(2) na(2)]
  obtain nr rv1 sl lp t where nr: "alloc_nr ops e a rv k = Some (nr, rv1, set_index a n sl lp t k)" "inv sl"
     "scan_result (abs (pid_sl n)) 1 (pid_max k) (last_pid n) nr rv1 (abs sl) lp"
     "nr = (case next_nr (abs (pid_sl n)) (last_pid n) (pid_max k) of None \<Rightarrow> -1 | Some j \<Rightarrow> j)"
    using alloc_nr_ok [OF good na(1), of rv] R mem by blast
  have pm: "0 < pid_max k'" using idr_rel_fields(4,7) [OF rel] by simp
  obtain r s' where alloc': "idr_alloc_nr api e a k' = Some (r, tick (k'\<lparr>k_ns := (k_ns k')(a \<mapsto> n'\<lparr>pid_sl := s'\<rparr>)\<rparr>))"
    and r: "case cyclic_choice (B (pid_sl n')) (idr_get_cursor api (pid_sl n')) (idr_pid_min (idr_get_cursor api (pid_sl n'))) (pid_max k') of
           None \<Rightarrow> r = - ENOSPC \<and> B s' = B (pid_sl n') \<and> idr_get_cursor api s' = idr_get_cursor api (pid_sl n')
         | Some j \<Rightarrow> r = j \<and> B s' = (B (pid_sl n'))(j \<mapsto> None) \<and> idr_get_cursor api s' = j + 1"
    by (rule idr_alloc_nr_ok [OF api mem n'(1) pm])
  let ?k1 = "tick (k'\<lparr>k_ns := (k_ns k')(a \<mapsto> n'\<lparr>pid_sl := s'\<rparr>)\<rparr>)"
  have same: "cyclic_choice (B (pid_sl n')) (idr_get_cursor api (pid_sl n')) (idr_pid_min (idr_get_cursor api (pid_sl n'))) (pid_max k')
      = next_nr (abs (pid_sl n)) (last_pid n) (pid_max k)"
    using choices_agree [OF null, of "idr_get_cursor api (pid_sl n')"] R low by (simp add: idr_rel_fields(4) [OF rel])
  have "r = (if nr < 0 then - ENOSPC else nr) \<and> B s' = abs sl \<and> 0 \<le> lp \<and> max 1 (idr_get_cursor api s') = lp + 1 \<and>
      (nr = -1 \<or> 0 \<le> nr \<and> rv1 = 0)"
  proof (cases "next_nr (abs (pid_sl n)) (last_pid n) (pid_max k)")
    case None
    then show ?thesis using nr(3,4) r [unfolded same] R by (auto simp: scan_result_def)
  next
    case (Some j)
    with next_nr_range have "1 \<le> j" by blast
    with Some show ?thesis using nr(3,4) r [unfolded same] R by (simp add: scan_result_def)
  qed
  moreover from this have "idr_rel inv abs B api (set_index a n sl lp t k) ?k1"
    using idr_rel_write [OF rel ns_rel_index [OF n'(2) nr(2)], of s' lp a] by (simp add: set_index_def)
  ultimately show ?thesis using nr(1) alloc' by auto
qed

text \<open>One round of the loop over the levels.\<close>

lemma idr_round_sim:
  assumes rel: "idr_rel inv abs B api k k'" and api: "idr_ok api B" and good: "\<forall>t. good (e_draw e t)" and mem: "mem_ok e"
    and n: "live k a n" and P: "k_pids k p = Some P" "i < length (p_numbers P)"
    and null: "no_null (abs (pid_sl n))" and low: "\<not> wraps_low (abs (pid_sl n)) (last_pid n) (pid_max k)"
  shows "(\<exists>rv k1 k1'. alloc_levels ops e p (Suc i) (Some a) rv0 k = Some (int i, rv, k1) \<and>
       idr_alloc_levels api e p (Suc i) (Some a) rv0' k' = Some (int i, - EAGAIN, k1') \<and> idr_rel inv abs B api k1 k1') \<or>
     (\<exists>sl lp t Q k1 k1'. alloc_levels ops e p (Suc i) (Some a) rv0 k = alloc_levels ops e p i (ns_parent n) 0 k1 \<and>
       idr_alloc_levels api e p (Suc i) (Some a) rv0' k' = idr_alloc_levels api e p i (ns_parent n) rv0' k1' \<and>
       idr_rel inv abs B api k1 k1' \<and> inv sl \<and> k1 = (set_index a n sl lp t k)\<lparr>k_pids := (k_pids k)(p \<mapsto> Q)\<rparr> \<and>
       length (p_numbers Q) = length (p_numbers P))"
proof -
  obtain nr rv1 sl lp t k1' where nr: "alloc_nr ops e a rv0 k = Some (nr, rv1, set_index a n sl lp t k)"
     "idr_alloc_nr api e a k' = Some (if nr < 0 then - ENOSPC else nr, k1')"
     "idr_rel inv abs B api (set_index a n sl lp t k) k1'" "nr = -1 \<or> 0 \<le> nr \<and> rv1 = 0"
    using idr_nr_sim [OF rel api good mem n null low, of rv0] by blast
  let ?k1 = "set_index a n sl lp t k"
  have k1: "k_ns ?k1 a = Some (n\<lparr>pid_sl := sl, last_pid := lp\<rparr>)" "k_pids ?k1 = k_pids k" by (simp_all add: set_index_def)
  obtain m' where m': "k_ns k1' a = Some m'" "ns_rel inv abs B api (n\<lparr>pid_sl := sl, last_pid := lp\<rparr>) m'"
    using idr_rel_ns [OF nr(3) k1(1)] .
  have par: "ns_parent m' = ns_parent n" and sl: "inv sl" using ns_relD(5,6) [OF m'(2)] n by (auto simp: live_def)
  have p1: "k_pids k1' = k_pids k" using idr_rel_fields(1) [OF nr(3)] k1(2) by simp
  show ?thesis
  proof (cases "nr < 0")
    case True
    then show ?thesis using nr by auto
  next
    case False
    let ?Q = "P\<lparr>p_numbers := (p_numbers P)[i := Some \<lparr>u_nr = nr, u_ns = a\<rparr>]\<rparr>"
    let ?X = "(k_pids k)(p \<mapsto> ?Q)"
    have "alloc_levels ops e p (Suc i) (Some a) rv0 k = alloc_levels ops e p i (ns_parent n) 0 (?k1\<lparr>k_pids := ?X\<rparr>)"
      using nr(1,4) False P k1 by (simp add: pid_upd_def)
    moreover have "idr_alloc_levels api e p (Suc i) (Some a) rv0' k'
        = idr_alloc_levels api e p i (ns_parent n) rv0' (k1'\<lparr>k_pids := ?X\<rparr>)"
      using nr(2) False P p1 m'(1) par by (simp add: pid_upd_def)
    moreover have "idr_rel inv abs B api (?k1\<lparr>k_pids := ?X\<rparr>) (k1'\<lparr>k_pids := ?X\<rparr>)" by (rule idr_rel_pids [OF nr(3)])
    moreover have "length (p_numbers ?Q) = length (p_numbers P)" by simp
    ultimately show ?thesis using sl by blast
  qed
qed

lemma idr_levels_sim:
  assumes api: "idr_ok api B" and good: "\<forall>t. good (e_draw e t)" and mem: "mem_ok e"
  shows "idr_rel inv abs B api k k' \<Longrightarrow> ns_wf inv k \<Longrightarrow> live k a n \<Longrightarrow> ns_level n = i \<Longrightarrow> k_pids k p = Some P \<Longrightarrow>
     i < length (p_numbers P) \<Longrightarrow> same_choices abs k (Suc i) (Some a) \<Longrightarrow>
     \<exists>j rv k1 k1'. alloc_levels ops e p (Suc i) (Some a) rv0 k = Some (j, rv, k1) \<and>
       idr_alloc_levels api e p (Suc i) (Some a) rv0' k' = Some (j, if j = -1 then rv0' else - EAGAIN, k1') \<and>
       idr_rel inv abs B api k1 k1'"
proof (induction i arbitrary: a n rv0 k k' P)
  case 0
  have "no_null (abs (pid_sl n))" "\<not> wraps_low (abs (pid_sl n)) (last_pid n) (pid_max k)"
    using 0 by (auto simp: live_def)
  from idr_round_sim [OF 0(1) api good mem 0(3,5,6) this, of rv0 rv0'] show ?case by fastforce
next
  case (Suc i)
  have na: "k_ns k a = Some n" using Suc.prems(3) by (simp add: live_def)
  have c: "no_null (abs (pid_sl n))" "\<not> wraps_low (abs (pid_sl n)) (last_pid n) (pid_max k)"
     "same_choices abs k (Suc i) (ns_parent n)"
    using Suc.prems(7) na by (simp_all del: same_choices.simps add: same_choices.simps(2) [of _ _ "Suc i"])
  from idr_round_sim [OF Suc.prems(1) api good mem Suc.prems(3,5,6) c(1,2), of rv0 rv0'] show ?case
  proof (elim disjE exE conjE)
    fix rv k1 k1' assume "alloc_levels ops e p (Suc (Suc i)) (Some a) rv0 k = Some (int (Suc i), rv, k1)"
      "idr_alloc_levels api e p (Suc (Suc i)) (Some a) rv0' k' = Some (int (Suc i), - EAGAIN, k1')"
      "idr_rel inv abs B api k1 k1'"
    then show ?thesis by (intro exI [of _ "int (Suc i)"] exI [of _ rv] exI [of _ k1] exI [of _ k1']) simp
  next
    fix sl lp t Q k1 k1'
    assume r: "alloc_levels ops e p (Suc (Suc i)) (Some a) rv0 k = alloc_levels ops e p (Suc i) (ns_parent n) 0 k1"
      "idr_alloc_levels api e p (Suc (Suc i)) (Some a) rv0' k' = idr_alloc_levels api e p (Suc i) (ns_parent n) rv0' k1'"
      "idr_rel inv abs B api k1 k1'" "inv sl" "k1 = (set_index a n sl lp t k)\<lparr>k_pids := (k_pids k)(p \<mapsto> Q)\<rparr>"
      "length (p_numbers Q) = length (p_numbers P)"
    obtain b m where b: "ns_parent n = Some b" "live k b m" "ns_level m = i"
      using Suc.prems(2-4) by (fastforce simp: ns_wf_def split: option.splits)
    have "ns_step inv abs (\<lambda>b. if b = a then (\<lambda>_. abs sl) else (\<lambda>m. m)) (\<lambda>_ c. c) k (set_index a n sl lp t k)"
      by (rule set_index_step [where f = "\<lambda>_. abs sl"]) (use na r(4) in auto)
    then have wf1: "ns_wf inv k1" using ns_step_wf Suc.prems(2) unfolding r(5) by simp blast
    have ne: "b' \<noteq> a" if "live k b' m'" "ns_level m' < Suc i" for b' m' using that Suc.prems(3,4) by (auto simp: live_def)
    then have b1: "live k1 b m" using b by (force simp: r(5) set_index_def live_def)
    have "same_choices abs k1 (Suc i) (Some b) = same_choices abs k (Suc i) (Some b)"
      by (rule same_choices_cong [OF Suc.prems(2) _ _ b(2), of "Suc i"]) (use ne b(3) in \<open>auto simp: r(5) set_index_def\<close>)
    then have c1: "same_choices abs k1 (Suc i) (Some b)" using c(3) b(1) by (simp only:)
    have p1: "k_pids k1 p = Some Q" "i < length (p_numbers Q)" using Suc.prems(6) r(5,6) by simp_all
    from Suc.IH [OF r(3) wf1 b1 b(3) p1 c1, of 0] show ?thesis unfolding r(1,2) b(1) .
  qed
qed

section \<open>Publishing and removing\<close>

lemma idr_publish_sim:
  assumes api: "idr_ok api B" and good: "\<forall>t. good (e_draw e t)"
  shows "idr_rel inv abs B api k k' \<Longrightarrow> k_pids k p = Some P \<Longrightarrow> take (length us) (p_numbers P) = map Some (rev us) \<Longrightarrow>
     \<forall>u \<in> set us. \<exists>m. live k (u_ns u) m \<and> u_nr u \<in> dom (abs (pid_sl m)) \<Longrightarrow>
     \<exists>k1 k1'. alloc_publish ops e p (length us) k = Some k1 \<and> idr_alloc_publish api p (length us) k' = Some k1' \<and>
       idr_rel inv abs B api k1 k1'"
proof (induction us arbitrary: k k')
  case (Cons u us)
  note tk = take_number(1) [OF Cons.prems(3)] and pn = take_number(2) [OF Cons.prems(3)]
  obtain n where n: "k_ns k (u_ns u) = Some n" "0 < kref n" "u_nr u \<in> dom (abs (pid_sl n))"
    using Cons.prems(4) by (auto simp: live_def)
  obtain n' where n': "k_ns k' (u_ns u) = Some n'" "ns_rel inv abs B api n n'" using idr_rel_ns [OF Cons.prems(1) n(1)] .
  note R = ns_relD(6) [OF n'(2) n(2)]
  obtain r sl' where ins: "op_insert ops (e_draw e (k_tick k)) (pid_sl n) (u_nr u) (Some p) GFP_ATOMIC = Some (r, sl')"
      "inv sl'" "abs sl' = (abs (pid_sl n))(u_nr u \<mapsto> Some p)"
    using insert [of "pid_sl n" "e_draw e (k_tick k)" "u_nr u" "Some p" GFP_ATOMIC] good n(3) R by blast
  define m where "m = n\<lparr>pid_sl := sl', pid_allocated := pid_allocated n + 1\<rparr>"
  define m' where "m' = n'\<lparr>pid_sl := idr_replace api (pid_sl n') (Some p) (u_nr u), pid_allocated := pid_allocated n' + 1\<rparr>"
  let ?k = "tick (k\<lparr>k_ns := (k_ns k)(u_ns u \<mapsto> m)\<rparr>)" and ?k' = "k'\<lparr>k_ns := (k_ns k')(u_ns u \<mapsto> m')\<rparr>"
  have "u_nr u \<in> dom (B (pid_sl n'))" using n(3) R by simp
  then have "ns_rel inv abs B api m m'"
    using n'(2) ins(2,3) idr_okD(4,5) [OF api, of "u_nr u" "pid_sl n'" "Some p"] R
    by (simp add: ns_rel_def ns_rest_def m_def m'_def)
  then have rel: "idr_rel inv abs B api ?k ?k'" using idr_rel_write [OF Cons.prems(1)] by simp
  have st: "alloc_publish ops e p (length (u # us)) k = alloc_publish ops e p (length us) ?k"
    using Cons.prems(2) pn n(1) ins(1) by (simp add: ns_upd_def m_def)
  have st': "idr_alloc_publish api p (length (u # us)) k' = idr_alloc_publish api p (length us) ?k'"
    using Cons.prems(2) pn n'(1) by (simp add: ns_upd_def m'_def idr_rel_fields(1) [OF Cons.prems(1)])
  have "\<exists>m2. live ?k (u_ns v) m2 \<and> u_nr v \<in> dom (abs (pid_sl m2))" if "v \<in> set us" for v
  proof (cases "u_ns v = u_ns u")
    case True
    with Cons.prems(4) that n(1) have "u_nr v \<in> dom (abs (pid_sl n))" by (force simp: live_def)
    with True n(2) ins(3) show ?thesis by (simp add: live_def tick_def m_def)
  next
    case False
    with Cons.prems(4) that show ?thesis by (auto simp: live_def tick_def)
  qed
  then have lv: "\<forall>v \<in> set us. \<exists>m2. live ?k (u_ns v) m2 \<and> u_nr v \<in> dom (abs (pid_sl m2))" by blast
  have "k_pids ?k p = Some P" using Cons.prems(2) by (simp add: tick_def)
  from Cons.IH [OF rel this tk lv] show ?case unfolding st st' .
qed simp

text \<open>Taking a number out of the index of a live namespace.\<close>

lemma idr_remove_sim:
  assumes rel: "idr_rel inv abs B api k k'" and api: "idr_ok api B" and n: "live k a n"
  shows "\<exists>sl' n'. k_ns k' a = Some n' \<and> op_remove ops (pid_sl n) nr = Some sl' \<and>
     idr_rel inv abs B api (k\<lparr>k_ns := (k_ns k)(a \<mapsto> n\<lparr>pid_sl := sl'\<rparr>)\<rparr>)
       (k'\<lparr>k_ns := (k_ns k')(a \<mapsto> n'\<lparr>pid_sl := idr_remove api (pid_sl n') nr\<rparr>)\<rparr>)"
proof -
  have na: "k_ns k a = Some n" "0 < kref n" using n by (auto simp: live_def)
  obtain n' where n': "k_ns k' a = Some n'" "ns_rel inv abs B api n n'" using idr_rel_ns [OF rel na(1)] .
  note R = ns_relD(6) [OF n'(2) na(2)]
  obtain sl' where rem: "op_remove ops (pid_sl n) nr = Some sl'" "inv sl'" "abs sl' = (abs (pid_sl n))(nr := None)"
    using remove [of "pid_sl n" nr] R by blast
  have "ns_rel inv abs B api (n\<lparr>pid_sl := sl'\<rparr>) (n'\<lparr>pid_sl := idr_remove api (pid_sl n') nr\<rparr>)"
    using n'(2) rem(2,3) R idr_okD(2,3) [OF api] by (simp add: ns_rel_def ns_rest_def)
  from idr_rel_write [OF rel this] rem(1) n'(1) show ?thesis by blast
qed

lemma idr_unreserve_sim:
  assumes api: "idr_ok api B"
  shows "idr_rel inv abs B api k k' \<Longrightarrow> k_pids k p = Some P \<Longrightarrow> drop j (p_numbers P) = map Some vs @ ws \<Longrightarrow>
     \<forall>u \<in> set vs. \<exists>m. live k (u_ns u) m \<Longrightarrow>
     \<exists>k1 k1'. alloc_unreserve ops p j (length vs) k = Some k1 \<and>
       alloc_unreserve (idr_calls api) p j (length vs) k' = Some k1' \<and> idr_rel inv abs B api k1 k1'"
proof (induction vs arbitrary: k k' j)
  case (Cons u vs)
  have pn: "pid_number P j = Some u" and dr: "drop (Suc j) (p_numbers P) = map Some vs @ ws"
    using Cons.prems(3) drop_number [of j P "Some u"] by auto
  obtain n where n: "live k (u_ns u) n" using Cons.prems(4) by auto
  obtain sl' n' where r: "k_ns k' (u_ns u) = Some n'" "op_remove ops (pid_sl n) (u_nr u) = Some sl'"
     "idr_rel inv abs B api (k\<lparr>k_ns := (k_ns k)(u_ns u \<mapsto> n\<lparr>pid_sl := sl'\<rparr>)\<rparr>)
       (k'\<lparr>k_ns := (k_ns k')(u_ns u \<mapsto> n'\<lparr>pid_sl := idr_remove api (pid_sl n') (u_nr u)\<rparr>)\<rparr>)" (is "idr_rel _ _ _ _ ?k ?k'")
    using idr_remove_sim [OF Cons.prems(1) api n, of "u_nr u"] by blast
  have st: "alloc_unreserve ops p j (length (u # vs)) k = alloc_unreserve ops p (Suc j) (length vs) ?k"
    using Cons.prems(2) pn n r(2) by (simp add: ns_upd_def live_def)
  have st': "alloc_unreserve (idr_calls api) p j (length (u # vs)) k' = alloc_unreserve (idr_calls api) p (Suc j) (length vs) ?k'"
    using Cons.prems(2) pn r(1) by (simp add: ns_upd_def idr_calls_def idr_rel_fields(1) [OF Cons.prems(1)])
  have lv: "\<forall>v \<in> set vs. \<exists>m. live ?k (u_ns v) m" using Cons.prems(4) n by (auto simp: live_def)
  have kp: "k_pids ?k p = Some P" using Cons.prems(2) by simp
  from Cons.IH [OF r(3) kp dr lv] show ?case unfolding st st' .
qed simp

lemma idr_out_free_sim:
  assumes rel: "idr_rel inv abs B api k k'" and api: "idr_ok api B" and wf: "ns_wf inv k" and n: "live k ns n"
    and Q: "k_pids k p = Some Q" "drop (nat (j + 1)) (p_numbers Q) = map Some vs"
    and vs: "int (length vs) = int (ns_level n) - j" "\<forall>v \<in> set vs. \<exists>m. live k (u_ns v) m"
  shows "\<exists>k1 k1'. alloc_out_free ops ns p j rv k = Some (ERR_PTR rv, k1) \<and>
     idr_alloc_out_free api ns p j rv' k' = Some (ERR_PTR rv', k1') \<and> idr_rel inv abs B api k1 k1'"
proof -
  have na: "k_ns k ns = Some n" using n by (simp add: live_def)
  obtain n' where n': "k_ns k' ns = Some n'" "ns_rel inv abs B api n n'" using idr_rel_ns [OF rel na] .
  have len: "nat (int (ns_level n) - j) = length vs" using vs(1) by simp
  obtain k1 k1' where k1: "alloc_unreserve ops p (nat (j + 1)) (length vs) k = Some k1"
     "alloc_unreserve (idr_calls api) p (nat (j + 1)) (length vs) k' = Some k1'" "idr_rel inv abs B api k1 k1'"
    using idr_unreserve_sim [OF api rel Q(1), of "nat (j + 1)" vs "[]"] Q(2) vs(2) by auto
  have "ns_step inv abs (chg_all (\<lambda>nr m. m(nr := None)) vs) (\<lambda>_ c. c) k k1"
    using alloc_unreserve_ok [OF wf Q(1), of "nat (j + 1)" vs "[]"] Q(2) vs(2) k1(1) by auto
  then obtain n1 where n1: "k_ns k1 ns = Some n1" using ns_step_at [OF _ na] by blast
  obtain n1' where n1': "k_ns k1' ns = Some n1'" "ns_rel inv abs B api n1 n1'" using idr_rel_ns [OF k1(3) n1] .
  have cur: "ns_rel inv abs B api (n1\<lparr>last_pid := 0\<rparr>) (n1'\<lparr>pid_sl := idr_set_cursor api (pid_sl n1') 0\<rparr>)"
    using n1'(2) idr_okD(6,7) [OF api] by (simp add: ns_rel_def ns_rest_def)
  define k2 where "k2 = (if pid_allocated n1 = PIDNS_ADDING then k1\<lparr>k_ns := (k_ns k1)(ns \<mapsto> n1\<lparr>last_pid := 0\<rparr>)\<rparr> else k1)"
  define k2' where "k2' = (if pid_allocated n1 = PIDNS_ADDING
    then k1'\<lparr>k_ns := (k_ns k1')(ns \<mapsto> n1'\<lparr>pid_sl := idr_set_cursor api (pid_sl n1') 0\<rparr>)\<rparr> else k1')"
  have rel2: "idr_rel inv abs B api k2 k2'" using idr_rel_write [OF k1(3) cur] k1(3) by (simp add: k2_def k2'_def)
  have "alloc_out_free ops ns p j rv k = Some (ERR_PTR rv, k2\<lparr>k_pids := (k_pids k2)(p := None)\<rparr>)"
    using na len k1(1) n1 by (simp add: alloc_out_free_def ns_upd_def k2_def)
  moreover have "idr_alloc_out_free api ns p j rv' k' = Some (ERR_PTR rv', k2'\<lparr>k_pids := (k_pids k2')(p := None)\<rparr>)"
    using n' len k1(2) n1' by (simp add: idr_alloc_out_free_def ns_upd_def k2'_def ns_relD)
  moreover have "idr_rel inv abs B api (k2\<lparr>k_pids := (k_pids k2)(p := None)\<rparr>) (k2'\<lparr>k_pids := (k_pids k2')(p := None)\<rparr>)"
    using idr_rel_pids [OF rel2] idr_rel_fields(1) [OF rel2] by simp
  ultimately show ?thesis by blast
qed

section \<open>Freeing\<close>

lemma idr_free_levels_sim:
  assumes api: "idr_ok api B"
  shows "idr_rel inv abs B api k k' \<Longrightarrow> k_pids k p = Some P \<Longrightarrow> drop j (p_numbers P) = map Some vs @ ws \<Longrightarrow>
     \<forall>u \<in> set vs. \<exists>m. live k (u_ns u) m \<Longrightarrow>
     \<exists>k1 k1'. free_pid_levels ops p j (length vs) k = Some k1 \<and>
       free_pid_levels (idr_calls api) p j (length vs) k' = Some k1' \<and> idr_rel inv abs B api k1 k1'"
proof (induction vs arbitrary: k k' j)
  case (Cons u vs)
  have pn: "pid_number P j = Some u" and dr: "drop (Suc j) (p_numbers P) = map Some vs @ ws"
    using Cons.prems(3) drop_number [of j P "Some u"] by auto
  obtain n where n: "k_ns k (u_ns u) = Some n" "0 < kref n" using Cons.prems(4) by (auto simp: live_def)
  obtain n' where n': "k_ns k' (u_ns u) = Some n'" "ns_rel inv abs B api n n'" using idr_rel_ns [OF Cons.prems(1) n(1)] .
  note D = ns_relD [OF n'(2)]
  have ev: "free_events k' u = free_events k u" unfolding free_events_def by (simp only: n(1) n'(1) option.case D(2,3))
  let ?c = "free_count (pid_allocated n)"
  let ?n = "n\<lparr>pid_allocated := ?c\<rparr>"
  let ?k1 = "k\<lparr>k_ns := (k_ns k)(u_ns u \<mapsto> ?n), k_events := k_events k @ free_events k u\<rparr>"
  let ?k1' = "k'\<lparr>k_ns := (k_ns k')(u_ns u \<mapsto> n'\<lparr>pid_allocated := ?c\<rparr>), k_events := k_events k @ free_events k u\<rparr>"
  have rel1: "idr_rel inv abs B api ?k1 ?k1'"
    using idr_rel_events [OF idr_rel_write [OF Cons.prems(1) ns_rel_count [OF n'(2)]]] by simp
  have "live ?k1 (u_ns u) ?n" using n(2) by (simp add: live_def)
  from idr_remove_sim [OF rel1 api this, of "u_nr u"] obtain sl' m' where r: "k_ns ?k1' (u_ns u) = Some m'"
     "op_remove ops (pid_sl ?n) (u_nr u) = Some sl'"
     "idr_rel inv abs B api (?k1\<lparr>k_ns := (k_ns ?k1)(u_ns u \<mapsto> ?n\<lparr>pid_sl := sl'\<rparr>)\<rparr>)
       (?k1'\<lparr>k_ns := (k_ns ?k1')(u_ns u \<mapsto> m'\<lparr>pid_sl := idr_remove api (pid_sl m') (u_nr u)\<rparr>)\<rparr>)" (is "idr_rel _ _ _ _ ?k ?k'")
    by blast
  have st: "free_pid_levels ops p j (length (u # vs)) k = free_pid_levels ops p (Suc j) (length vs) ?k"
    using Cons.prems(2) pn r(2) by (simp add: free_account_ok [OF n(1)] ns_upd_def)
  have st': "free_pid_levels (idr_calls api) p j (length (u # vs)) k' = free_pid_levels (idr_calls api) p (Suc j) (length vs) ?k'"
    using Cons.prems(2) pn r(1)
    by (simp add: free_account_ok [OF n'(1)] ns_upd_def idr_calls_def idr_rel_fields(1,5) [OF Cons.prems(1)] ev D)
  have lv: "\<forall>v \<in> set vs. \<exists>m. live ?k (u_ns v) m" using Cons.prems(4) n by (auto simp: live_def)
  have kp: "k_pids ?k p = Some P" using Cons.prems(2) by simp
  from Cons.IH [OF r(3) kp dr lv] show ?case unfolding st st' .
qed simp

theorem idr_free_sim:
  assumes api: "idr_ok api B" and rel: "idr_rel inv abs B api k k'" and vs: "pid_numbered k p vs"
  shows "\<exists>k1 k1'. free_pid ops p k = Some k1 \<and> idr_free_pid api p k' = Some k1' \<and> idr_rel inv abs B api k1 k1'"
proof -
  obtain P where P: "k_pids k p = Some P" "p_numbers P = map Some vs" "length vs = Suc (p_level P)"
    "\<forall>u \<in> set vs. \<exists>n. live k (u_ns u) n" using vs by (auto simp: pid_numbered_def)
  obtain k1 k1' where r: "free_pid_levels ops p 0 (length vs) k = Some k1"
    "free_pid_levels (idr_calls api) p 0 (length vs) k' = Some k1'" "idr_rel inv abs B api k1 k1'"
    using idr_free_levels_sim [OF api rel P(1), of 0 vs "[]"] P(2,4) by auto
  have "free_pid ops p k = Some (call_rcu (DelayedPutPid p) k1)"
    using P(1) r(1) unfolding P(3) by (simp add: free_pid_def del: free_pid_levels.simps)
  moreover have "idr_free_pid api p k' = Some (call_rcu (DelayedPutPid p) k1')"
    using P(1) r(2) unfolding P(3) by (simp add: idr_free_pid_def free_pid_def idr_rel_fields(1) [OF rel] del: free_pid_levels.simps)
  ultimately show ?thesis
    using idr_rel_rcu [OF r(3)] idr_rel_fields(6) [OF r(3)] by (simp add: call_rcu_def)
qed

section \<open>The whole of alloc\_pid\<close>

text \<open>Taking a reference to the namespace of the new pid, and giving it back.\<close>

lemma idr_get_sim:
  assumes rel: "idr_rel inv abs B api k k'" and n: "live k ns n"
  shows "\<exists>k1 k1' n1. get_pid_ns ns k = Some k1 \<and> get_pid_ns ns k' = Some k1' \<and> idr_rel inv abs B api k1 k1' \<and> ns_same k k1 \<and>
     k_pids k1 = k_pids k \<and> k_ns k1 ns = Some n1 \<and> ns_level n1 = ns_level n \<and> pid_allocated n1 = pid_allocated n \<and>
     0 < kref n1 \<and> (ns \<noteq> init_pid_ns \<longrightarrow> 1 < kref n1)"
proof -
  have na: "k_ns k ns = Some n" "0 < kref n" using n by (auto simp: live_def)
  obtain n' where n': "k_ns k' ns = Some n'" "ns_rel inv abs B api n n'" using idr_rel_ns [OF rel na(1)] .
  show ?thesis
  proof (cases "ns = init_pid_ns")
    case True
    with rel na show ?thesis by (simp add: get_pid_ns_def)
  next
    case False
    let ?f = "\<lambda>n. n\<lparr>kref := Suc (kref n)\<rparr>"
    have "get_pid_ns ns k = Some (k\<lparr>k_ns := (k_ns k)(ns \<mapsto> ?f n)\<rparr>)"
      using False na by (simp add: get_pid_ns_def refcount_inc_def ns_upd_def)
    moreover have "get_pid_ns ns k' = Some (k'\<lparr>k_ns := (k_ns k')(ns \<mapsto> n'\<lparr>kref := Suc (kref n)\<rparr>)\<rparr>)"
      using False n' na(2) ns_relD(1) [OF n'(2)] by (simp add: get_pid_ns_def refcount_inc_def ns_upd_def)
    moreover note idr_rel_write [OF rel ns_rel_kref [OF n'(2) na(2)], of ns "Suc (kref n)"] ns_same_kref [OF na, of "Suc (kref n)"]
    ultimately show ?thesis using na(2)
      by (intro exI [of _ "k\<lparr>k_ns := (k_ns k)(ns \<mapsto> ?f n)\<rparr>"]
          exI [of _ "k'\<lparr>k_ns := (k_ns k')(ns \<mapsto> n'\<lparr>kref := Suc (kref n)\<rparr>)\<rparr>"] exI [of _ "?f n"]) simp
  qed
qed

lemma idr_put_sim:
  assumes rel: "idr_rel inv abs B api k k'" and n: "k_ns k ns = Some n" "0 < kref n" "ns \<noteq> init_pid_ns \<longrightarrow> 1 < kref n"
  shows "\<exists>k1 k1' n1. put_pid_ns ops (Some ns) k = Some k1 \<and> put_pid_ns (idr_calls api) (Some ns) k' = Some k1' \<and>
     idr_rel inv abs B api k1 k1' \<and> ns_same k k1 \<and> k_pids k1 = k_pids k"
proof -
  obtain n' where n': "k_ns k' ns = Some n'" "ns_rel inv abs B api n n'" using idr_rel_ns [OF rel n(1)] .
  have kr: "kref n' = kref n" by (rule ns_relD(1) [OF n'(2)])
  have p: "put_pid_ns ops (Some ns) k
      = Some (if ns = init_pid_ns then k else k\<lparr>k_ns := (k_ns k)(ns \<mapsto> n\<lparr>kref := kref n - 1\<rparr>)\<rparr>)"
    by (rule put_pid_ns_back) (use n in auto)
  have p': "put_pid_ns (idr_calls api) (Some ns) k'
      = Some (if ns = init_pid_ns then k' else k'\<lparr>k_ns := (k_ns k')(ns \<mapsto> n'\<lparr>kref := kref n' - 1\<rparr>)\<rparr>)"
    by (rule put_pid_ns_back) (use n n' kr in auto)
  show ?thesis
    using p p' rel idr_rel_write [OF rel ns_rel_kref [OF n'(2) n(2)], of ns "kref n - 1"]
      ns_same_kref [OF n(1,2), of "kref n - 1"] n(3)
    by (cases "ns = init_pid_ns") (simp_all add: kr)
qed

lemma idr_commit_sim:
  assumes rel: "idr_rel inv abs B api k k'" and api: "idr_ok api B" and good: "\<forall>t. good (e_draw e t)"
    and wf: "ns_wf inv k" and n: "live k ns n"
    and Q: "k_pids k p = Some Q" "p_numbers Q = map Some (rev us)" "length us = Suc (ns_level n)"
    and us: "\<forall>u \<in> set us. \<exists>m. live k (u_ns u) m \<and> u_nr u \<in> dom (abs (pid_sl m))"
  shows "\<exists>r k1 k1'. alloc_commit ops e ns p 0 k = Some (r, k1) \<and>
     idr_alloc_commit api ns p (- ENOMEM) k' = Some (idr_result r, k1') \<and> idr_rel inv abs B api k1 k1'"
proof -
  obtain k1 k1' n1 where k1: "get_pid_ns ns k = Some k1" "get_pid_ns ns k' = Some k1'" "idr_rel inv abs B api k1 k1'"
    "ns_same k k1" "k_pids k1 = k_pids k" and n1: "k_ns k1 ns = Some n1" "ns_level n1 = ns_level n"
    "0 < kref n1" "ns \<noteq> init_pid_ns \<longrightarrow> 1 < kref n1"
    using idr_get_sim [OF rel n] by blast
  obtain n1' where n1': "k_ns k1' ns = Some n1'" "ns_rel inv abs B api n1 n1'" using idr_rel_ns [OF k1(3) n1(1)] .
  let ?Q = "Q\<lparr>p_count := 1, p_tasks := (\<lambda>_. [])\<rparr>"
  let ?X = "(k_pids k)(p \<mapsto> ?Q)"
  let ?k2 = "k1\<lparr>k_pids := ?X\<rparr>" and ?k2' = "k1'\<lparr>k_pids := ?X\<rparr>"
  have rel2: "idr_rel inv abs B api ?k2 ?k2'" by (rule idr_rel_pids [OF k1(3)])
  have wf2: "ns_wf inv ?k2" using ns_same_wf [OF k1(4) wf] by simp
  have lv: "\<forall>u \<in> set us. \<exists>m. live ?k2 (u_ns u) m \<and> u_nr u \<in> dom (abs (pid_sl m))"
    using us ns_same_live [OF k1(4)] by (metis live_pids)
  have eq: "alloc_commit ops e ns p 0 k = (if pid_allocated n1 AND PIDNS_ADDING = 0
      then do { k3 \<leftarrow> put_pid_ns ops (Some ns) ?k2; alloc_out_free ops ns p (-1) 0 k3 }
      else do { k3 \<leftarrow> alloc_publish ops e p (length us) ?k2; Some (ValidPtr p, k3) })"
    using k1(1,5) n1(1,2) Q by (simp add: alloc_commit_def pid_upd_def del: alloc_publish.simps)
  have eq': "idr_alloc_commit api ns p (- ENOMEM) k' = (if pid_allocated n1 AND PIDNS_ADDING = 0
      then do { k3 \<leftarrow> put_pid_ns (idr_calls api) (Some ns) ?k2'; idr_alloc_out_free api ns p (-1) (- ENOMEM) k3 }
      else do { k3 \<leftarrow> idr_alloc_publish api p (length us) ?k2'; Some (ValidPtr p, k3) })"
    using k1(2,5) n1' n1(2) Q idr_rel_fields(1) [OF k1(3)] ns_relD(2,4) [OF n1'(2)]
    by (simp add: idr_alloc_commit_def pid_upd_def del: idr_alloc_publish.simps)
  show ?thesis
  proof (cases "pid_allocated n1 AND PIDNS_ADDING = 0")
    case True
    have n2: "k_ns ?k2 ns = Some n1" using n1(1) by simp
    obtain k3 k3' where k3: "put_pid_ns ops (Some ns) ?k2 = Some k3" "put_pid_ns (idr_calls api) (Some ns) ?k2' = Some k3'"
      "idr_rel inv abs B api k3 k3'" "ns_same ?k2 k3" "k_pids k3 = ?X"
      using idr_put_sim [OF rel2 n2 n1(3,4)] by auto
    have same3: "ns_same k k3" using ns_same_trans [OF k1(4)] k3(4) by (simp add: ns_same_def)
    obtain n3 where n3: "live k3 ns n3" "ns_level n3 = ns_level n" using ns_same_live [OF same3 n] by blast
    have lv3: "\<forall>v \<in> set (rev us). \<exists>m. live k3 (u_ns v) m" using us ns_same_live [OF same3] by (metis set_rev)
    have "k_pids k3 p = Some ?Q" using k3(5) by simp
    from idr_out_free_sim [OF k3(3) api ns_same_wf [OF same3 wf] n3(1) this, of "-1" "rev us" 0 "- ENOMEM"] lv3 Q(2,3) n3(2)
    show ?thesis unfolding eq eq' using True k3(1,2) by (auto simp: ERR_PTR_def)
  next
    case False
    have p2: "k_pids ?k2 p = Some ?Q" "take (length us) (p_numbers ?Q) = map Some (rev us)" using Q(2) by simp_all
    from idr_publish_sim [OF api good rel2 p2 lv] show ?thesis unfolding eq eq' using False by auto
  qed
qed

text \<open>The numbers that have been reserved are bound in the indexes.\<close>

lemma reserved_bound:
  assumes st: "ns_step inv abs (reserve_all us) (\<lambda>_ c. c) k0 k2" and wf: "ns_wf inv k0" and up: "upath k0 a i us"
  shows "\<forall>u \<in> set us. \<exists>m. live k2 (u_ns u) m \<and> u_nr u \<in> dom (abs (pid_sl m))"
proof
  fix u assume u: "u \<in> set us"
  obtain m where "live k0 (u_ns u) m" using upath_lives [OF up u] by blast
  from ns_step_map [OF st wf this] obtain m2 where
    m2: "live k2 (u_ns u) m2" "abs (pid_sl m2) = reserve_all us (u_ns u) (abs (pid_sl m))" by blast
  have "reserve_all us (u_ns u) (abs (pid_sl m)) = (abs (pid_sl m))(u_nr u \<mapsto> None)"
    by (rule chg_all_in [OF upath_distinct [OF up] u])
  with m2 show "\<exists>m. live k2 (u_ns u) m \<and> u_nr u \<in> dom (abs (pid_sl m))" by auto
qed

lemma idr_reserve_sim:
  assumes api: "idr_ok api B" and good: "\<forall>t. good (e_draw e t)" and mem: "mem_ok e"
    and ki: "kinv inv abs k" and n: "live k ns n" and rel: "idr_rel inv abs B api k k'"
    and ch: "same_choices abs k (Suc (ns_level n)) (Some ns)"
  obtains k1 k2 j us Q k1' k2' n2 where "new_pid (ns_level n) (tick k) = (k_brk k, k1)"
    and "new_pid (ns_level n) (tick k') = (k_brk k, k1')"
    and "alloc_levels ops e (k_brk k) (Suc (ns_level n)) (Some ns) (- ENOMEM) k1 = Some (j, if j = -1 then 0 else -1, k2)"
    and "idr_alloc_levels api e (k_brk k) (Suc (ns_level n)) (Some ns) (- ENOMEM) k1'
       = Some (j, if j = -1 then - ENOMEM else - EAGAIN, k2')"
    and "-1 \<le> j" and "int (length us) = int (ns_level n) - j" and "idr_rel inv abs B api k2 k2'" and "ns_wf inv k2"
    and "live k2 ns n2" and "ns_level n2 = ns_level n" and "k_pids k2 (k_brk k) = Some Q"
    and "p_numbers Q = replicate (nat (j + 1)) None @ map Some (rev us)" and "p_level Q = ns_level n"
    and "\<forall>u \<in> set us. \<exists>m. live k2 (u_ns u) m \<and> u_nr u \<in> dom (abs (pid_sl m))"
proof -
  let ?l = "ns_level n" and ?p = "k_brk k"
  have wf: "ns_wf inv k" using ki by (simp add: kinv_def)
  obtain k1 k0 k2 j us Q where new: "new_pid ?l (tick k) = (?p, k1)"
    and lv: "alloc_levels ops e ?p (Suc ?l) (Some ns) (- ENOMEM) k1 = Some (j, if j = -1 then 0 else -1, k2)"
    and j: "-1 \<le> j" "int (length us) = int ?l - j"
    and st: "ns_step inv abs (reserve_all us) (\<lambda>_ c. c) k0 k2" and ns0: "k_ns k0 = k_ns k"
    and pids2: "k_pids k2 = (k_pids k)(?p \<mapsto> Q)"
    and Q: "p_numbers Q = replicate (nat (j + 1)) None @ map Some (rev us)" "p_level Q = ?l"
    and up: "upath k (Some ns) ?l us"
    by (rule alloc_reserve [OF ki n good])
  define P where "P = \<lparr>p_count = 0, p_level = ?l, p_tasks = (\<lambda>_. []), p_numbers = replicate (Suc ?l) (None :: upid option)\<rparr>"
  define k1' where "k1' = (tick k')\<lparr>k_brk := Suc ?p, k_pids := (k_pids k)(?p \<mapsto> P)\<rparr>"
  have k1: "k1 = (tick k)\<lparr>k_brk := Suc ?p, k_pids := (k_pids k)(?p \<mapsto> P)\<rparr>"
    using new by (simp add: new_pid_def P_def tick_def)
  have new': "new_pid ?l (tick k') = (?p, k1')"
    by (simp add: new_pid_def k1'_def P_def tick_def idr_rel_fields(1,3) [OF rel])
  have rel1: "idr_rel inv abs B api k1 k1'" unfolding k1 k1'_def by (intro idr_rel_moves) (simp add: rel)
  have same1: "ns_same k k1" by (rule ns_same_ns) (simp add: k1 tick_def)
  have n1: "live k1 ns n" using n by (simp add: k1 live_def tick_def)
  have p1: "k_pids k1 ?p = Some P" "?l < length (p_numbers P)" by (simp_all add: k1 P_def)
  have "same_choices abs k1 (Suc ?l) (Some ns) = same_choices abs k (Suc ?l) (Some ns)"
    by (rule same_choices_cong [OF wf _ _ n, of "Suc ?l"]) (auto simp: k1 tick_def live_def)
  with ch have c1: "same_choices abs k1 (Suc ?l) (Some ns)" by (simp only:)
  obtain k2' where k2': "idr_alloc_levels api e ?p (Suc ?l) (Some ns) (- ENOMEM) k1'
       = Some (j, if j = -1 then - ENOMEM else - EAGAIN, k2')" "idr_rel inv abs B api k2 k2'"
    using idr_levels_sim [OF api good mem rel1 ns_same_wf [OF same1 wf] n1 refl p1 c1, of "- ENOMEM" "- ENOMEM"] lv by auto
  have same0: "ns_same k k0" by (rule ns_same_ns) (simp add: ns0)
  note wf0 = ns_same_wf [OF same0 wf]
  have "live k0 ns n" using n ns0 by (simp add: live_def)
  from ns_step_level [OF st this] obtain n2 where n2: "live k2 ns n2" "ns_level n2 = ?l" by blast
  have q2: "k_pids k2 ?p = Some Q" using pids2 by simp
  show thesis
    by (rule that [OF new new' lv k2'(1) j k2'(2) ns_step_wf [OF st wf0] n2 q2 Q
          reserved_bound [OF st wf0 ns_same_upath [OF same0 up]]])
qed

text \<open>The same pid, or errors that correspond, and related states again.\<close>

theorem idr_alloc_sim:
  assumes api: "idr_ok api B" and good: "\<forall>t. good (e_draw e t)" and mem: "mem_ok e" and steady: "env_steady e"
    and ki: "kinv inv abs k" and n: "live k ns n" and rel: "idr_rel inv abs B api k k'"
    and ch: "same_choices abs k (Suc (ns_level n)) (Some ns)"
  shows "\<exists>r k1 k1'. alloc_pid ops e ns k = Some (r, k1) \<and> idr_alloc_pid api e ns k' = Some (idr_result r, k1') \<and>
     idr_rel inv abs B api k1 k1'"
proof -
  let ?l = "ns_level n" and ?p = "k_brk k"
  have na: "k_ns k ns = Some n" using n by (simp add: live_def)
  obtain n' where n': "k_ns k' ns = Some n'" "ns_rel inv abs B api n n'" using idr_rel_ns [OF rel na] .
  have hd: "op_header ops (pid_sl n) \<noteq> None" using ki n header by (auto simp: kinv_def ns_wf_def)
  have slab: "kmem_cache_alloc_ok e (k_tick k') = kmem_cache_alloc_ok e (k_tick k)"
    and prep: "pid_ns_prepare_proc e t = pid_ns_prepare_proc e 0" for t
    using steady unfolding env_steady_def by blast+
  show ?thesis
  proof (cases "kmem_cache_alloc_ok e (k_tick k)")
    case False
    with na n'(1) hd slab rel show ?thesis by (auto simp: alloc_pid_def idr_alloc_pid_def ERR_PTR_def)
  next
    case True
    obtain k1 k2 j us Q k1' k2' n2 where new: "new_pid ?l (tick k) = (?p, k1)" "new_pid ?l (tick k') = (?p, k1')"
      and lv: "alloc_levels ops e ?p (Suc ?l) (Some ns) (- ENOMEM) k1 = Some (j, if j = -1 then 0 else -1, k2)"
        "idr_alloc_levels api e ?p (Suc ?l) (Some ns) (- ENOMEM) k1' = Some (j, if j = -1 then - ENOMEM else - EAGAIN, k2')"
      and j: "-1 \<le> j" "int (length us) = int ?l - j" and rel2: "idr_rel inv abs B api k2 k2'" and wf2: "ns_wf inv k2"
      and n2: "live k2 ns n2" "ns_level n2 = ?l" and q2: "k_pids k2 ?p = Some Q"
      and Q: "p_numbers Q = replicate (nat (j + 1)) None @ map Some (rev us)" "p_level Q = ?l"
      and us2: "\<forall>u \<in> set us. \<exists>m. live k2 (u_ns u) m \<and> u_nr u \<in> dom (abs (pid_sl m))"
      by (rule idr_reserve_sim [OF api good mem ki n rel ch])
    have undo: "\<exists>k3 k3'. alloc_out_free ops ns ?p j rv (k2\<lparr>k_tick := t\<rparr>) = Some (ERR_PTR rv, k3) \<and>
        idr_alloc_out_free api ns ?p j rv' (k2'\<lparr>k_tick := t'\<rparr>) = Some (ERR_PTR rv', k3') \<and> idr_rel inv abs B api k3 k3'"
      for rv rv' t t'
    proof (rule idr_out_free_sim [OF _ api, where Q = Q and vs = "rev us"])
      show "ns_wf inv (k2\<lparr>k_tick := t\<rparr>)" by (rule ns_same_wf [OF ns_same_ns wf2]) simp
      show "idr_rel inv abs B api (k2\<lparr>k_tick := t\<rparr>) (k2'\<lparr>k_tick := t'\<rparr>)" using rel2 by simp
      show "live (k2\<lparr>k_tick := t\<rparr>) ns n2" "\<forall>v \<in> set (rev us). \<exists>m. live (k2\<lparr>k_tick := t\<rparr>) (u_ns v) m"
        using n2(1) us2 by (auto simp: live_def)
      show "k_pids (k2\<lparr>k_tick := t\<rparr>) ?p = Some Q" using q2 by simp
      show "drop (nat (j + 1)) (p_numbers Q) = map Some (rev us)" "int (length (rev us)) = int (ns_level n2) - j"
        using Q(1) j n2(2) by simp_all
    qed
    have ap: "alloc_pid ops e ns k = (if 0 \<le> j then alloc_out_free ops ns ?p j (-1) k2
     else do { reaper \<leftarrow> is_child_reaper ?p k2;
       if reaper \<and> pid_ns_prepare_proc e (k_tick k2) ns \<noteq> 0
       then alloc_out_free ops ns ?p (-1) 0 (tick k2)
       else alloc_commit ops e ns ?p 0 (if reaper then tick k2 else k2) })"
      using True na hd new(1) lv(1) j(1) by (auto simp: alloc_pid_def simp del: alloc_levels.simps)
    have ap': "idr_alloc_pid api e ns k' = (if 0 \<le> j then idr_alloc_out_free api ns ?p j (- EAGAIN) k2'
     else do { reaper \<leftarrow> is_child_reaper ?p k2';
       if reaper \<and> pid_ns_prepare_proc e (k_tick k2') ns \<noteq> 0
       then idr_alloc_out_free api ns ?p (-1) (- ENOMEM) (tick k2')
       else idr_alloc_commit api ns ?p (- ENOMEM) (if reaper then tick k2' else k2') })"
      using True slab n'(1) new(2) lv(2) j(1) ns_relD(4) [OF n'(2)]
      by (auto simp: idr_alloc_pid_def simp del: idr_alloc_levels.simps)
    show ?thesis
    proof (cases "0 \<le> j")
      case True
      with undo [of "-1" "k_tick k2" "- EAGAIN" "k_tick k2'"] show ?thesis unfolding ap ap' by (auto simp: ERR_PTR_def)
    next
      case False
      then have jm: "j = -1" and len: "length us = Suc ?l" using j by auto
      then obtain b where b: "is_child_reaper ?p k2 = Some b"
        using q2 Q by (cases us) (auto simp: is_child_reaper_def pid_number_def nth_append)
      then have b': "is_child_reaper ?p k2' = Some b" using idr_rel_fields(1) [OF rel2] by (simp add: is_child_reaper_def)
      show ?thesis
      proof (cases "b \<and> pid_ns_prepare_proc e 0 ns \<noteq> 0")
        case True
        with undo [of 0 "Suc (k_tick k2)" "- ENOMEM" "Suc (k_tick k2')"] jm b b' show ?thesis
          unfolding ap ap' prep [of "k_tick k2"] prep [of "k_tick k2'"] by (auto simp: ERR_PTR_def tick_def)
      next
        case nb: False
        let ?k = "if b then tick k2 else k2" and ?k' = "if b then tick k2' else k2'"
        have relb: "idr_rel inv abs B api ?k ?k'" using rel2 by simp
        have wfb: "ns_wf inv ?k" by (rule ns_same_wf [OF ns_same_ns wf2]) (simp add: tick_def)
        have nb2: "live ?k ns n2" and qb: "k_pids ?k ?p = Some Q" using n2 q2 by (simp_all add: live_def tick_def)
        have usb: "\<forall>u \<in> set us. \<exists>m. live ?k (u_ns u) m \<and> u_nr u \<in> dom (abs (pid_sl m))"
          using us2 by (simp add: live_def tick_def)
        have "p_numbers Q = map Some (rev us)" "length us = Suc (ns_level n2)" using jm Q len n2(2) by simp_all
        from idr_commit_sim [OF relb api good wfb nb2 qb this usb] show ?thesis
          using nb jm b b' unfolding ap ap' prep [of "k_tick k2"] prep [of "k_tick k2'"] by auto
      qed
    qed
  qed
qed

end

end
