(* ===== verification/Idr_Run.thy ===== *)
theory Idr_Run
  imports Idr_Sim
begin

text \<open>
  Runs of the operations of \<^verbatim>\<open>pid.c\<close> that use the index, in the configuration with an index like the skip lists and in
  the one with an IDR, and that the runs correspond.
\<close>

section \<open>Runs\<close>

datatype pid_cmd = CAlloc nsaddr | CFree paddr | CFind int nsaddr | CFindGe int nsaddr | CDisable nsaddr | CLastPid bool

datatype pid_out = OAlloc "paddr errptr" | OFind "paddr option" | OCode int | ODone

fun pid_cmd_step :: "'sl index_ops \<Rightarrow> kenv \<Rightarrow> pid_cmd \<Rightarrow> 'sl kernel \<Rightarrow> (pid_out \<times> 'sl kernel) option" where
  "pid_cmd_step ops e (CAlloc ns) k = map_option (map_prod OAlloc id) (alloc_pid ops e ns k)"
| "pid_cmd_step ops e (CFree p) k = map_option (Pair ODone) (free_pid ops p k)"
| "pid_cmd_step ops e (CFind nr ns) k = map_option (\<lambda>r. (OFind r, k)) (find_pid_ns ops nr ns k)"
| "pid_cmd_step ops e (CFindGe nr ns) k = map_option (\<lambda>r. (OFind r, k)) (find_ge_pid ops nr (Some ns) k)"
| "pid_cmd_step ops e (CDisable ns) k = map_option (Pair ODone) (disable_pid_allocation ns k)"
| "pid_cmd_step ops e (CLastPid w) k = map_option (map_prod OCode id) (pid_ns_ctl_handler e w k)"

fun idr_cmd_step :: "'i idr_api \<Rightarrow> kenv \<Rightarrow> pid_cmd \<Rightarrow> 'i kernel \<Rightarrow> (pid_out \<times> 'i kernel) option" where
  "idr_cmd_step api e (CAlloc ns) k = map_option (map_prod OAlloc id) (idr_alloc_pid api e ns k)"
| "idr_cmd_step api e (CFree p) k = map_option (Pair ODone) (idr_free_pid api p k)"
| "idr_cmd_step api e (CFind nr ns) k = map_option (\<lambda>r. (OFind r, k)) (idr_find_pid_ns api nr ns k)"
| "idr_cmd_step api e (CFindGe nr ns) k = map_option (\<lambda>r. (OFind r, k)) (idr_find_ge_pid api nr (Some ns) k)"
| "idr_cmd_step api e (CDisable ns) k = map_option (Pair ODone) (disable_pid_allocation ns k)"
| "idr_cmd_step api e (CLastPid w) k = map_option (map_prod OCode id) (idr_pid_ns_ctl_handler api e w k)"

primrec run_cmds :: "(pid_cmd \<Rightarrow> 's \<Rightarrow> (pid_out \<times> 's) option) \<Rightarrow> pid_cmd list \<Rightarrow> 's \<Rightarrow> (pid_out list \<times> 's) option" where
  "run_cmds step [] k = Some ([], k)"
| "run_cmds step (c # cs) k = do {
     (r, k1) \<leftarrow> step c k;
     (rs, k2) \<leftarrow> run_cmds step cs k1;
     Some (r # rs, k2) }"

text \<open>The output in the IDR configuration.\<close>

fun idr_out :: "pid_out \<Rightarrow> pid_out" where
  "idr_out (OAlloc r) = OAlloc (idr_result r)"
| "idr_out (OFind q) = OFind q"
| "idr_out (OCode c) = OCode c"
| "idr_out ODone = ODone"

text \<open>
  The calls that are compared: in live namespaces (\<^verbatim>\<open>ns_last_pid\<close> in that of the current task), of pids that are numbered, and where neither the two rules for the
  next number nor a number bound to \<^verbatim>\<open>NULL\<close> makes the difference.
\<close>

fun cmd_same :: "kenv \<Rightarrow> ('sl \<Rightarrow> idx) \<Rightarrow> pid_cmd \<Rightarrow> 'sl kernel \<Rightarrow> bool" where
  "cmd_same e A (CAlloc ns) k = (\<exists>n. live k ns n \<and> same_choices A k (Suc (ns_level n)) (Some ns))"
| "cmd_same e A (CFree p) k = (\<exists>vs. pid_numbered k p vs)"
| "cmd_same e A (CFind nr ns) k = (\<exists>n. live k ns n)"
| "cmd_same e A (CFindGe nr ns) k = (\<exists>n. live k ns n \<and> no_null (A (pid_sl n)))"
| "cmd_same e A (CDisable ns) k = (\<exists>n. live k ns n)"
| "cmd_same e A (CLastPid w) k = (\<exists>ns n. task_active_pid_ns e (k_current k) k = Some (Some ns) \<and> live k ns n)"

primrec run_same :: "'sl index_ops \<Rightarrow> ('sl \<Rightarrow> idx) \<Rightarrow> kenv \<Rightarrow> pid_cmd list \<Rightarrow> 'sl kernel \<Rightarrow> bool" where
  "run_same ops A e [] k = True"
| "run_same ops A e (c # cs) k = (cmd_same e A c k \<and>
     (case pid_cmd_step ops e c k of None \<Rightarrow> True | Some (r, k1) \<Rightarrow> run_same ops A e cs k1))"

section \<open>Lookups\<close>

lemma idx_find_ge_next:
  assumes "idr_ok api B" and "finite (dom (B s))" and "no_null (B s)"
  shows "idx_find_ge (B s) k = map_option snd (idr_get_next api s k)"
proof (cases "idr_get_next api s k")
  case None
  note none = idr_ok_next(2) [OF assms(1) None]
  have "j \<notin> dom (B s)" if "k \<le> j" for j
    using none [OF that] assms(3) [unfolded no_null_def, rule_format, of j] by (cases "B s j") (auto simp: idx_get_def)
  then have "{j \<in> dom (B s). k \<le> j} = {}" by blast
  then show ?thesis using None unfolding idx_find_ge_def idx_keys_ge_def by (simp only:) simp
next
  case (Some r)
  obtain j p where r: "r = (j, p)" by (cases r)
  have j: "k \<le> j" "B s j = Some (Some p)" "\<And>i. k \<le> i \<Longrightarrow> i < j \<Longrightarrow> idx_get (B s) i = None"
    using idr_ok_next(1) [OF assms(1) Some [unfolded r]] by blast+
  have low: "j \<le> i" if "i \<in> dom (B s)" "k \<le> i" for i
  proof (rule ccontr)
    assume "\<not> j \<le> i"
    with j(3) [of i] that(2) have "idx_get (B s) i = None" by simp
    with that(1) assms(3) [unfolded no_null_def, rule_format, of i] show False by (auto simp: idx_get_def)
  qed
  have fin: "finite {i \<in> dom (B s). k \<le> i}" using assms(2) by simp
  have mem: "j \<in> {i \<in> dom (B s). k \<le> i}" using j by auto
  have "Min {i \<in> dom (B s). k \<le> i} = j" by (rule Min_eqI [OF fin _ mem]) (use low in auto)
  then have "idx_keys_ge (B s) k = j # sorted_list_of_set ({i \<in> dom (B s). k \<le> i} - {j})"
    unfolding idx_keys_ge_def using sorted_list_of_set_nonempty [OF fin] mem by auto
  then show ?thesis using j(2) Some r by (simp add: idx_find_ge_def idx_get_def)
qed

section \<open>Runs correspond\<close>

context pid_kernel
begin

lemma idr_finds_sim:
  assumes rel: "idr_rel inv abs B api k k'" and api: "idr_ok api B" and n: "live k ns n"
  shows "\<exists>q. find_pid_ns ops nr ns k = Some q \<and> idr_find_pid_ns api nr ns k' = Some q"
    and "no_null (abs (pid_sl n)) \<Longrightarrow> \<exists>q. find_ge_pid ops nr (Some ns) k = Some q \<and> idr_find_ge_pid api nr (Some ns) k' = Some q"
proof -
  have na: "k_ns k ns = Some n" "0 < kref n" using n by (auto simp: live_def)
  obtain n' where n': "k_ns k' ns = Some n'" "ns_rel inv abs B api n n'" using idr_rel_ns [OF rel na(1)] .
  note R = ns_relD(6) [OF n'(2) na(2)]
  show "\<exists>q. find_pid_ns ops nr ns k = Some q \<and> idr_find_pid_ns api nr ns k' = Some q"
    using na n'(1) R lookup idr_okD(1) [OF api] by (simp add: find_pid_ns_def idr_find_pid_ns_def)
  assume "no_null (abs (pid_sl n))"
  then have "idx_find_ge (abs (pid_sl n)) nr = map_option snd (idr_get_next api (pid_sl n') nr)"
    using idx_find_ge_next [OF api, of "pid_sl n'" nr] R finite_keys by simp
  then show "\<exists>q. find_ge_pid ops nr (Some ns) k = Some q \<and> idr_find_ge_pid api nr (Some ns) k' = Some q"
    using na n'(1) R find_ge header [of "pid_sl n"] by (auto simp: find_ge_pid_def idr_find_ge_pid_def)
qed

lemma idr_disable_sim:
  assumes rel: "idr_rel inv abs B api k k'" and ki: "kinv inv abs k" and n: "live k ns n"
  shows "\<exists>k1 k1'. disable_pid_allocation ns k = Some k1 \<and> disable_pid_allocation ns k' = Some k1' \<and>
     idr_rel inv abs B api k1 k1' \<and> kinv inv abs k1"
proof -
  have na: "k_ns k ns = Some n" using n by (simp add: live_def)
  obtain n' where n': "k_ns k' ns = Some n'" "ns_rel inv abs B api n n'" using idr_rel_ns [OF rel na] .
  let ?c = "pid_allocated n AND NOT PIDNS_ADDING"
  have "kinv inv abs (k\<lparr>k_ns := (k_ns k)(ns \<mapsto> n\<lparr>pid_allocated := ?c\<rparr>)\<rparr>)"
    by (rule kinv_ns_fields(1) [OF ki na]) simp_all
  then show ?thesis
    using na n'(1) idr_rel_write [OF rel ns_rel_count [OF n'(2), of ?c], of ns] ns_relD(2) [OF n'(2)]
    by (simp add: disable_pid_allocation_def ns_upd_def)
qed

lemma idr_last_pid_sim:
  assumes rel: "idr_rel inv abs B api k k'" and api: "idr_ok api B" and st: "env_steady e" and ki: "kinv inv abs k"
    and act: "task_active_pid_ns e (k_current k) k = Some (Some ns)" and n: "live k ns n"
  shows "\<exists>r k1 k1'. pid_ns_ctl_handler e w k = Some (r, k1) \<and> idr_pid_ns_ctl_handler api e w k' = Some (r, k1') \<and>
     idr_rel inv abs B api k1 k1' \<and> kinv inv abs k1"
proof -
  have na: "k_ns k ns = Some n" "0 < kref n" using n by (auto simp: live_def)
  obtain n' where n': "k_ns k' ns = Some n'" "ns_rel inv abs B api n n'" using idr_rel_ns [OF rel na(1)] .
  note R = ns_relD(6) [OF n'(2) na(2)]
  have act': "task_active_pid_ns e (k_current k') k' = Some (Some ns)" by (rule idr_rel_active [OF rel act])
  have un: "user_ns n' = user_ns n" using n'(2) by (simp add: ns_rel_def ns_rest_def)
  let ?f = "proc_dointvec_minmax e w 0 (pid_max k)" and ?c = "idr_get_cursor api (pid_sl n')"
  have "minmax_uniform ?f 0" using st by (simp add: env_steady_def)
  then have f: "fst (?f (?c - 1)) = fst (?f (last_pid n))"
    "fst (?f (last_pid n)) = 0 \<longrightarrow> snd (?f (last_pid n)) = last_pid n \<and> snd (?f (?c - 1)) = ?c - 1 \<or>
       snd (?f (last_pid n)) = snd (?f (?c - 1)) \<and> 0 \<le> snd (?f (last_pid n))"
    unfolding minmax_uniform_def by metis+
  obtain r v where v: "?f (last_pid n) = (r, v)" by fastforce
  obtain v' where v': "?f (?c - 1) = (r, v')" using f(1) v by (cases "?f (?c - 1)") auto
  have vv: "0 \<le> v \<and> max 1 (v' + 1) = v + 1" if "r = 0" using f(2) R that by (auto simp: v v')
  let ?m = "n\<lparr>last_pid := v\<rparr>" and ?m' = "n'\<lparr>pid_sl := idr_set_cursor api (pid_sl n') (v' + 1)\<rparr>"
  have mm: "ns_rel inv abs B api ?m ?m'" if "r = 0"
    using n'(2) R vv [OF that] idr_okD(6,7) [OF api] by (simp add: ns_rel_def ns_rest_def)
  have km: "kinv inv abs (k\<lparr>k_ns := (k_ns k)(ns \<mapsto> ?m)\<rparr>)" by (rule kinv_ns_fields(1) [OF ki na(1)]) simp_all
  have e1: "pid_ns_ctl_handler e w k = Some (if w \<and> \<not> ns_capable e (user_ns n) then (- EPERM, k)
      else (r, if r = 0 \<and> w then k\<lparr>k_ns := (k_ns k)(ns \<mapsto> ?m)\<rparr> else k))"
    using act na(1) v by (simp add: pid_ns_ctl_handler_def ns_upd_def)
  have e2: "idr_pid_ns_ctl_handler api e w k' = Some (if w \<and> \<not> ns_capable e (user_ns n) then (- EPERM, k')
      else (r, if r = 0 \<and> w then k'\<lparr>k_ns := (k_ns k')(ns \<mapsto> ?m')\<rparr> else k'))"
    using act' n'(1) v' un idr_rel_fields(4) [OF rel] by (simp add: idr_pid_ns_ctl_handler_def ns_upd_def)
  show ?thesis using rel ki km idr_rel_write [OF rel mm, of ns] unfolding e1 e2 by auto
qed

theorem idr_step_sim:
  assumes api: "idr_ok api B" and good: "\<forall>t. good (e_draw e t)" and env: "mem_ok e" "env_steady e"
    and ki: "kinv inv abs k" and rel: "idr_rel inv abs B api k k'" and c: "cmd_same e abs c k"
  shows "\<exists>r k1 k1'. pid_cmd_step ops e c k = Some (r, k1) \<and> idr_cmd_step api e c k' = Some (idr_out r, k1') \<and>
     idr_rel inv abs B api k1 k1' \<and> kinv inv abs k1"
proof (cases c)
  case (CAlloc ns)
  then obtain n where n: "live k ns n" "same_choices abs k (Suc (ns_level n)) (Some ns)" using c by auto
  obtain r k1 where r: "alloc_pid ops e ns k = Some (r, k1)" "kinv inv abs k1"
    using alloc_pid_ok [OF ki n(1) good] by blast
  with idr_alloc_sim [OF api good env ki n(1) rel n(2)] CAlloc show ?thesis by auto
next
  case (CFree p)
  then obtain vs where vs: "pid_numbered k p vs" using c by auto
  obtain k1 where "free_pid ops p k = Some k1" "kinv inv abs k1" using free_pid_ok [OF ki vs] by blast
  with idr_free_sim [OF api rel vs] CFree show ?thesis by auto
next
  case (CFind nr ns)
  with c idr_finds_sim(1) [OF rel api] rel ki show ?thesis by fastforce
next
  case (CFindGe nr ns)
  with c obtain n where "live k ns n" "no_null (abs (pid_sl n))" by auto
  from idr_finds_sim(2) [OF rel api this] rel ki CFindGe show ?thesis by fastforce
next
  case (CDisable ns)
  with c idr_disable_sim [OF rel ki] show ?thesis by fastforce
next
  case (CLastPid w)
  with c obtain ns n where "task_active_pid_ns e (k_current k) k = Some (Some ns)" "live k ns n" by auto
  from idr_last_pid_sim [OF rel api env(2) ki this, of w] CLastPid show ?thesis by auto
qed

theorem idr_run_sim:
  assumes api: "idr_ok api B" and good: "\<forall>t. good (e_draw e t)" and env: "mem_ok e" "env_steady e"
  shows "kinv inv abs k \<Longrightarrow> idr_rel inv abs B api k k' \<Longrightarrow> run_same ops abs e cs k \<Longrightarrow>
     \<exists>rs k1 k1'. run_cmds (pid_cmd_step ops e) cs k = Some (rs, k1) \<and>
       run_cmds (idr_cmd_step api e) cs k' = Some (map idr_out rs, k1') \<and> idr_rel inv abs B api k1 k1' \<and> kinv inv abs k1"
proof (induction cs arbitrary: k k')
  case (Cons c cs)
  have c: "cmd_same e abs c k" using Cons.prems(3) by simp
  obtain r k1 k1' where r: "pid_cmd_step ops e c k = Some (r, k1)" "idr_cmd_step api e c k' = Some (idr_out r, k1')"
     "idr_rel inv abs B api k1 k1'" "kinv inv abs k1" using idr_step_sim [OF api good env Cons.prems(1,2) c] by blast
  with Cons.prems(3) have "run_same ops abs e cs k1" by simp
  from Cons.IH [OF r(4,3) this] r(1,2) show ?case by auto
qed simp

end

end
