(* ===== verification/Idr_Zap.thy ===== *)
theory Idr_Zap
  imports Idr_Run
begin

text \<open>
  The shutdown of a namespace in the two configurations: the IDR visits every pid from number 2 on, the
  skip list those before the first number that is bound to \<^verbatim>\<open>NULL\<close>.
\<close>

definition idx_all :: "idx \<Rightarrow> int \<Rightarrow> paddr list" where
  "idx_all m k = map (\<lambda>j. the (idx_get m j)) (sorted_list_of_set {j. k \<le> j \<and> idx_get m j \<noteq> None})"

lemma idx_get_dom: "{j. k \<le> j \<and> idx_get m j \<noteq> None} = {j \<in> dom m. k \<le> j \<and> idx_get m j \<noteq> None}"
  by (auto simp: idx_get_def split: option.splits)

lemma finite_idx_get: "finite (dom m) \<Longrightarrow> finite {j. k \<le> j \<and> idx_get m j \<noteq> None}"
  unfolding idx_get_dom by simp

lemma filter_sorted_list_of_set:
  assumes "finite S"
  shows "filter Q (sorted_list_of_set S) = sorted_list_of_set {x \<in> S. Q x}"
proof (rule sorted_distinct_set_unique)
  show "sorted (filter Q (sorted_list_of_set S))" by (simp add: sorted_wrt_filter)
qed (use assms in auto)

lemma until_null_prefix:
  "\<exists>qs. map (\<lambda>j. the (f j)) (filter (\<lambda>j. f j \<noteq> None) ks) = until_null (map f ks) @ qs"
proof (induction ks)
  case (Cons k ks)
  then show ?case by (cases "f k") auto
qed simp

text \<open>The skip list visits the first of them, and all if no number is bound to \<^verbatim>\<open>NULL\<close>.\<close>

lemma idx_all_filter:
  assumes "finite (dom m)"
  shows "idx_all m k = map (\<lambda>j. the (idx_get m j)) (filter (\<lambda>j. idx_get m j \<noteq> None) (idx_keys_ge m k))"
proof -
  have "{x \<in> {j \<in> dom m. k \<le> j}. idx_get m x \<noteq> None} = {j. k \<le> j \<and> idx_get m j \<noteq> None}" unfolding idx_get_dom by auto
  moreover have "finite {j \<in> dom m. k \<le> j}" using assms by simp
  ultimately show ?thesis
    unfolding idx_all_def idx_keys_ge_def by (simp only: filter_sorted_list_of_set)
qed

lemma idx_iter_prefix: "finite (dom m) \<Longrightarrow> \<exists>qs. idx_all m k = idx_iter m k @ qs"
  unfolding idx_iter_def idx_all_filter by (rule until_null_prefix)

lemma idx_iter_no_null:
  assumes "finite (dom m)" and "no_null m"
  shows "idx_iter m k = idx_all m k"
proof -
  have "idx_get m j \<noteq> None" if "j \<in> set (idx_keys_ge m k)" for j
  proof -
    have "j \<in> dom m" using that assms(1) by (simp add: set_idx_keys_ge)
    with assms(2) [unfolded no_null_def, rule_format, of j] show ?thesis by (auto simp: idx_get_def)
  qed
  then have "filter (\<lambda>j. idx_get m j \<noteq> None) (idx_keys_ge m k) = idx_keys_ge m k"
    and "map (idx_get m) (idx_keys_ge m k) = map Some (map (\<lambda>j. the (idx_get m j)) (idx_keys_ge m k))"
    by (auto simp: filter_id_conv)
  then show ?thesis unfolding idx_all_filter [OF assms(1)] idx_iter_def by (simp only: until_null_Some)
qed

text \<open>The loop over an IDR.\<close>

lemma idx_all_next:
  assumes api: "idr_ok api B" and fin: "finite (dom (B s))"
  shows "case idr_get_next api s k of None \<Rightarrow> idx_all (B s) k = []
     | Some (j, p) \<Rightarrow> k \<le> j \<and> j \<in> dom (B s) \<and> idx_get (B s) j = Some p \<and> idx_all (B s) k = p # idx_all (B s) (j + 1)"
proof (cases "idr_get_next api s k")
  case None
  have "{j. k \<le> j \<and> idx_get (B s) j \<noteq> None} = {}" using idr_ok_next(2) [OF api None] by simp
  with None show ?thesis unfolding idx_all_def by (simp only: option.case) simp
next
  case (Some r)
  obtain j p where r: "r = (j, p)" by (cases r)
  have j: "k \<le> j" "B s j = Some (Some p)" "\<And>i. k \<le> i \<Longrightarrow> i < j \<Longrightarrow> idx_get (B s) i = None"
    using idr_ok_next(1) [OF api Some [unfolded r]] by blast+
  let ?S = "\<lambda>k. {j. k \<le> j \<and> idx_get (B s) j \<noteq> None}"
  have get: "idx_get (B s) j = Some p" using j(2) by (simp add: idx_get_def)
  have split: "?S k = insert j (?S (j + 1))"
  proof (rule set_eqI)
    fix i show "i \<in> ?S k \<longleftrightarrow> i \<in> insert j (?S (j + 1))"
      using j(1) j(3) [of i] get by (cases i j rule: linorder_cases) auto
  qed
  have fS: "finite (?S i)" for i by (rule finite_idx_get [OF fin])
  have mem: "j \<in> ?S k" using j(1) get by simp
  have "Min (?S k) = j"
  proof (rule Min_eqI [OF fS _ mem])
    fix i assume "i \<in> ?S k"
    with j(3) [of i] show "j \<le> i" by (cases "j \<le> i") auto
  qed
  moreover have "?S k - {j} = ?S (j + 1)" unfolding split by auto
  moreover have "sorted_list_of_set (?S k) = Min (?S k) # sorted_list_of_set (?S k - {Min (?S k)})"
    by (rule sorted_list_of_set_nonempty [OF fS]) (use mem in blast)
  ultimately have "sorted_list_of_set (?S k) = j # sorted_list_of_set (?S (j + 1))" by (simp only:)
  then have "idx_all (B s) k = p # idx_all (B s) (j + 1)" unfolding idx_all_def by (simp only: list.map get option.sel)
  with Some r j(1,2) get show ?thesis by auto
qed

theorem idr_zap_kill_ok:
  assumes api: "idr_ok api B" and fin: "finite (dom (B (pid_sl n)))"
  shows "k_ns k ns = Some n \<Longrightarrow> \<forall>p \<in> set (idx_all (B (pid_sl n)) nr). k_pids k p \<noteq> None \<Longrightarrow>
     idr_zap_kill api e ns nr k = Some (k\<lparr>k_events := k_events k @ kill_log e k (idx_all (B (pid_sl n)) nr)\<rparr>)"
proof (induction "length (idx_all (B (pid_sl n)) nr)" arbitrary: nr k)
  case 0
  then have "idr_get_next api (pid_sl n) nr = None"
    using idx_all_next [OF api fin, of nr] by (auto split: option.splits)
  with 0 show ?case by (subst idr_zap_kill.simps) (simp add: kill_log_def)
next
  case (Suc m)
  then obtain j p where j: "idr_get_next api (pid_sl n) nr = Some (j, p)"
    "idx_all (B (pid_sl n)) nr = p # idx_all (B (pid_sl n)) (j + 1)"
    using idx_all_next [OF api fin, of nr] by (auto split: option.splits)
  obtain P where P: "k_pids k p = Some P" using Suc.prems(2) j(2) by auto
  define x where "x = kill_log e k [p]"
  have step: "idr_zap_kill api e ns nr k = idr_zap_kill api e ns (j + 1) (k\<lparr>k_events := k_events k @ x\<rparr>)"
    using Suc.prems(1) j(1) P
    by (subst idr_zap_kill.simps) (auto simp: pid_task_def x_def kill_log_def log_event_def split: list.splits)
  have kl: "kill_log e k (p # ps) = x @ kill_log e k ps" for ps by (simp add: x_def kill_log_def)
  have len: "m = length (idx_all (B (pid_sl n)) (j + 1))" using Suc.hyps(2) j(2) by simp
  have "\<forall>p \<in> set (idx_all (B (pid_sl n)) (j + 1)). k_pids (k\<lparr>k_events := k_events k @ x\<rparr>) p \<noteq> None"
    using Suc.prems(2) j(2) by simp
  from Suc.hyps(1) [OF len _ this] Suc.prems(1) show ?case unfolding step j(2) kl by (simp add: kill_log_events)
qed

end
