(* ===== verification/Spu_Invariant.thy ===== *)
theory Spu_Invariant
  imports Spu_Sched
begin

text \<open>
  The invariant of the SPU scheduler.  It has one part for the run queues, one for the binding of contexts
  to SPUs, one for the lists of SPUs per node and the time slices, and one for the counters of the nodes; each depends
  on a few fields only, so an operation that leaves these alone keeps it.
\<close>

section \<open>Invariant\<close>

text \<open>
  The queue of a priority holds exactly the contexts that are linked there, which have this priority; the
  bitmap marks the queues that are not empty, \<^verbatim>\<open>nr_waiting\<close> counts the queued contexts, and the timer of the
  scheduler is pending exactly if there are any.
\<close>

definition rq_wf :: "spu_env \<Rightarrow> spu_sys \<Rightarrow> spu_prio_array \<Rightarrow> bool" where
  "rq_wf e y P \<longleftrightarrow>
     (\<forall>p. distinct (runq P p)) \<and>
     (\<forall>p c. c \<in> set (runq P p) \<longleftrightarrow> (\<exists>C. sy_ctx y c = Some C \<and> c_rq C = Some p)) \<and>
     (\<forall>c C p. sy_ctx y c = Some C \<longrightarrow> c_rq C = Some p \<longrightarrow> p = c_prio C \<and> p < MAX_PRIO e) \<and>
     (\<forall>p. bitmap P p \<longleftrightarrow> runq P p \<noteq> []) \<and>
     nr_waiting P = (\<Sum>p<MAX_PRIO e. int (length (runq P p))) \<and>
     (spusched_timer y \<noteq> None \<longleftrightarrow> nr_waiting P \<noteq> 0)"

text \<open>
  A context and an SPU that refer to each other agree, an SPU with a context is in use, and a context is
  runnable exactly if it is bound; a bound context has time left, unless it is in \<open>X\<close>.
\<close>

definition bind_wf :: "caddr set \<Rightarrow> spu_sys \<Rightarrow> bool" where
  "bind_wf X y \<longleftrightarrow>
     (\<forall>s S c. sy_spu y s = Some S \<longrightarrow> s_ctx S = Some c \<longrightarrow>
        alloc_state S = SPU_USED \<and> (\<exists>C. sy_ctx y c = Some C \<and> c_spu C = Some s)) \<and>
     (\<forall>c C s. sy_ctx y c = Some C \<longrightarrow> c_spu C = Some s \<longrightarrow> (\<exists>S. sy_spu y s = Some S \<and> s_ctx S = Some c)) \<and>
     (\<forall>c C. sy_ctx y c = Some C \<longrightarrow> (c_state C = SPU_STATE_RUNNABLE \<longleftrightarrow> c_spu C \<noteq> None) \<and>
        (c_spu C \<noteq> None \<longrightarrow> c \<notin> X \<longrightarrow> time_slice C \<noteq> 0))"

definition node_wf :: "spu_env \<Rightarrow> spu_sys \<Rightarrow> bool" where
  "node_wf e y \<longleftrightarrow>
     (\<forall>n. distinct (n_spus (sy_node y n))) \<and>
     (\<forall>n s. s \<in> set (n_spus (sy_node y n)) \<longleftrightarrow> (\<exists>S. sy_spu y s = Some S \<and> s_node S = n)) \<and>
     (\<forall>s S. sy_spu y s = Some S \<longrightarrow> s_node S < MAX_NUMNODES e) \<and>
     (\<forall>c C g. sy_ctx y c = Some C \<longrightarrow> c_gang C = Some g \<longrightarrow> sy_gang y g \<noteq> None)"

text \<open>The SPUs of a node whose context has a property.\<close>

definition holds :: "spu_sys \<Rightarrow> (spu_context \<Rightarrow> bool) \<Rightarrow> saddr \<Rightarrow> bool" where
  "holds y Q s \<longleftrightarrow> (case sy_spu y s of None \<Rightarrow> False
     | Some S \<Rightarrow> (case s_ctx S of None \<Rightarrow> False
         | Some c \<Rightarrow> (case sy_ctx y c of None \<Rightarrow> False | Some C \<Rightarrow> Q C)))"

definition spu_count :: "spu_sys \<Rightarrow> (spu_context \<Rightarrow> bool) \<Rightarrow> nat \<Rightarrow> int" where
  "spu_count y Q n = int (length (filter (holds y Q) (n_spus (sy_node y n))))"

definition is_nosched :: "spu_context \<Rightarrow> bool" where
  "is_nosched C \<longleftrightarrow> SPU_CREATE_NOSCHED \<in> c_flags C"

definition is_user :: "spu_context \<Rightarrow> bool" where
  "is_user C \<longleftrightarrow> st_util (c_stats C) = SPU_UTIL_USER"

definition count_wf :: "spu_sys \<Rightarrow> bool" where
  "count_wf y \<longleftrightarrow> (\<forall>n. nr_active (sy_node y n) = spu_count y (\<lambda>_. True) n \<and>
     reserved_spus (sy_node y n) = spu_count y is_nosched n \<and> busy_spus (sy_node y n) = spu_count y is_user n)"

definition spu_inv_but :: "caddr set \<Rightarrow> spu_env \<Rightarrow> spu_sys \<Rightarrow> bool" where
  "spu_inv_but X e y \<longleftrightarrow> (\<exists>P. sy_prio y = Some P \<and> rq_wf e y P) \<and> bind_wf X y \<and> node_wf e y \<and> count_wf y"

lemma bind_wfD:
  assumes "bind_wf X y"
  shows "sy_spu y s = Some S \<Longrightarrow> s_ctx S = Some c \<Longrightarrow> alloc_state S = SPU_USED"
    and "sy_spu y s = Some S \<Longrightarrow> s_ctx S = Some c \<Longrightarrow> \<exists>C. sy_ctx y c = Some C \<and> c_spu C = Some s"
    and "sy_ctx y c = Some C \<Longrightarrow> c_spu C = Some s \<Longrightarrow> \<exists>S. sy_spu y s = Some S \<and> s_ctx S = Some c"
    and "sy_ctx y c = Some C \<Longrightarrow> (c_state C = SPU_STATE_RUNNABLE) = (c_spu C \<noteq> None)"
    and "sy_ctx y c = Some C \<Longrightarrow> c_spu C \<noteq> None \<Longrightarrow> c \<notin> X \<Longrightarrow> time_slice C \<noteq> 0"
  using assms unfolding bind_wf_def by blast+

abbreviation spu_inv :: "spu_env \<Rightarrow> spu_sys \<Rightarrow> bool" where
  "spu_inv \<equiv> spu_inv_but {}"

lemma spu_invD:
  assumes "spu_inv_but X e y"
  shows "bind_wf X y" and "node_wf e y" and "count_wf y"
  using assms by (simp_all add: spu_inv_but_def)

lemma spu_inv_prio:
  assumes "spu_inv_but X e y"
  obtains P where "sy_prio y = Some P" "rq_wf e y P"
  using assms by (auto simp: spu_inv_but_def)

lemma spu_invI: "sy_prio y = Some P \<Longrightarrow> rq_wf e y P \<Longrightarrow> bind_wf X y \<Longrightarrow> node_wf e y \<Longrightarrow> count_wf y \<Longrightarrow> spu_inv_but X e y"
  by (auto simp: spu_inv_but_def)

section \<open>Fields that matter\<close>

definition rq_view :: "spu_context \<Rightarrow> nat option \<times> nat" where
  "rq_view C = (c_rq C, c_prio C)"

definition bind_view :: "spu_context \<Rightarrow> saddr option \<times> spu_state \<times> bool" where
  "bind_view C = (c_spu C, c_state C, time_slice C = 0)"

definition count_view :: "spu_context \<Rightarrow> create_flag set \<times> gaddr option \<times> bool" where
  "count_view C = (c_flags C, c_gang C, is_user C)"

definition spu_view :: "spu \<Rightarrow> nat \<times> caddr option \<times> alloc" where
  "spu_view S = (s_node S, s_ctx S, alloc_state S)"

text \<open>Two states that agree on a view of their heaps.\<close>

definition same_by :: "('a \<Rightarrow> 'v) \<Rightarrow> (nat \<Rightarrow> 'a option) \<Rightarrow> (nat \<Rightarrow> 'a option) \<Rightarrow> bool" where
  "same_by v m m' \<longleftrightarrow> (\<forall>a. map_option v (m a) = map_option v (m' a))"

lemma same_by_refl [simp]: "same_by v m m"
  by (simp add: same_by_def)

lemma same_by_trans [trans]: "same_by v m1 m2 \<Longrightarrow> same_by v m2 m3 \<Longrightarrow> same_by v m1 m3"
  by (simp add: same_by_def)

lemma same_by_sym: "same_by v m m' \<Longrightarrow> same_by v m' m"
  by (simp add: same_by_def)

lemma same_by_upd: "m a = Some x \<Longrightarrow> v x' = v x \<Longrightarrow> same_by v m (m(a \<mapsto> x'))"
  by (simp add: same_by_def)

lemma same_byD:
  assumes "same_by v m m'" and "m a = Some x"
  shows "\<exists>x'. m' a = Some x' \<and> v x' = v x"
proof -
  have "map_option v (m' a) = Some (v x)" using assms by (metis same_by_def option.simps(9))
  then show ?thesis by auto
qed

lemma rq_wf_cong:
  assumes wf: "rq_wf e y P" and s: "same_by rq_view (sy_ctx y) (sy_ctx y')" and t: "spusched_timer y' = spusched_timer y"
  shows "rq_wf e y' P"
proof -
  have 1: "(\<exists>C. sy_ctx y' c = Some C \<and> c_rq C = Some p) \<longleftrightarrow> (\<exists>C. sy_ctx y c = Some C \<and> c_rq C = Some p)" for c p
    using same_byD [OF s] same_byD [OF same_by_sym [OF s]] by (fastforce simp: rq_view_def)
  have 2: "\<exists>C. sy_ctx y c = Some C \<and> c_rq C = c_rq C' \<and> c_prio C = c_prio C'" if "sy_ctx y' c = Some C'" for c C'
    using same_byD [OF same_by_sym [OF s] that] by (auto simp: rq_view_def)
  have 3: "\<forall>c C p. sy_ctx y c = Some C \<longrightarrow> c_rq C = Some p \<longrightarrow> p = c_prio C \<and> p < MAX_PRIO e"
    using wf by (simp add: rq_wf_def)
  have "p = c_prio C' \<and> p < MAX_PRIO e" if "sy_ctx y' c = Some C'" "c_rq C' = Some p" for c C' p
    using 2 [OF that(1)] 3 that(2) by metis
  then show ?thesis using wf unfolding rq_wf_def 1 t by blast
qed

lemma bind_wf_cong:
  assumes wf: "bind_wf X y" and c: "same_by bind_view (sy_ctx y) (sy_ctx y')" and s: "same_by spu_view (sy_spu y) (sy_spu y')"
  shows "bind_wf X y'"
proof -
  have C: "\<exists>C. sy_ctx y a = Some C \<and> c_spu C' = c_spu C \<and> c_state C' = c_state C \<and> (time_slice C' = 0) = (time_slice C = 0)"
    if "sy_ctx y' a = Some C'" for a C'
    using same_byD [OF same_by_sym [OF c] that] by (auto simp: bind_view_def)
  have C': "\<exists>C'. sy_ctx y' a = Some C' \<and> c_spu C' = c_spu C" if "sy_ctx y a = Some C" for a C
    using same_byD [OF c that] by (auto simp: bind_view_def)
  have S: "\<exists>S. sy_spu y a = Some S \<and> s_ctx S' = s_ctx S \<and> alloc_state S' = alloc_state S" if "sy_spu y' a = Some S'" for a S'
    using same_byD [OF same_by_sym [OF s] that] by (auto simp: spu_view_def)
  have S': "\<exists>S'. sy_spu y' a = Some S' \<and> s_ctx S' = s_ctx S" if "sy_spu y a = Some S" for a S
    using same_byD [OF s that] by (auto simp: spu_view_def)
  show ?thesis unfolding bind_wf_def
  proof (intro conjI allI impI)
    fix a S' b assume a: "sy_spu y' a = Some S'" "s_ctx S' = Some b"
    then obtain S where S: "sy_spu y a = Some S" "s_ctx S = Some b" "alloc_state S' = alloc_state S" using S by metis
    then have "alloc_state S = SPU_USED" "\<exists>B. sy_ctx y b = Some B \<and> c_spu B = Some a" using wf by (auto simp: bind_wf_def)
    with S(3) C' show "alloc_state S' = SPU_USED" "\<exists>C. sy_ctx y' b = Some C \<and> c_spu C = Some a" by metis+
  next
    fix a B' b assume a: "sy_ctx y' a = Some B'" "c_spu B' = Some b"
    with C have "\<exists>S. sy_spu y b = Some S \<and> s_ctx S = Some a" using wf unfolding bind_wf_def by metis
    with S' show "\<exists>S. sy_spu y' b = Some S \<and> s_ctx S = Some a" by metis
  next
    fix a B' assume a: "sy_ctx y' a = Some B'"
    with C show "(c_state B' = SPU_STATE_RUNNABLE) = (c_spu B' \<noteq> None)" "c_spu B' \<noteq> None \<Longrightarrow> a \<notin> X \<Longrightarrow> time_slice B' \<noteq> 0"
      using wf unfolding bind_wf_def by metis+
  qed
qed

lemma node_wf_cong:
  assumes wf: "node_wf e y" and c: "same_by count_view (sy_ctx y) (sy_ctx y')" and s: "same_by spu_view (sy_spu y) (sy_spu y')"
    and n: "\<And>n. n_spus (sy_node y' n) = n_spus (sy_node y n)" and g: "\<And>g. sy_gang y g \<noteq> None \<Longrightarrow> sy_gang y' g \<noteq> None"
  shows "node_wf e y'"
proof -
  have 1: "(\<exists>S. sy_spu y' a = Some S \<and> s_node S = m) \<longleftrightarrow> (\<exists>S. sy_spu y a = Some S \<and> s_node S = m)" for a m
    using same_byD [OF s] same_byD [OF same_by_sym [OF s]] by (fastforce simp: spu_view_def)
  have 2: "s_node S < MAX_NUMNODES e" if "sy_spu y' a = Some S" for a S
    using 1 [of a "s_node S"] that wf unfolding node_wf_def by metis
  have 3: "sy_gang y' h \<noteq> None" if "sy_ctx y' a = Some A" "c_gang A = Some h" for a A h
    using same_byD [OF same_by_sym [OF c] that(1)] that(2) wf g unfolding node_wf_def by (metis count_view_def prod.inject)
  show ?thesis using wf 2 3 unfolding node_wf_def 1 n by blast
qed

lemma holds_cong:
  assumes c: "same_by count_view (sy_ctx y) (sy_ctx y')" and s: "same_by spu_view (sy_spu y) (sy_spu y')"
    and Q: "\<And>C C'. count_view C' = count_view C \<Longrightarrow> Q C' = Q C"
  shows "holds y' Q a = holds y Q a"
proof (cases "sy_spu y a")
  case None
  then have "sy_spu y' a = None" using s unfolding same_by_def by (metis map_option_is_None)
  with None show ?thesis by (simp add: holds_def)
next
  case (Some S)
  then obtain S' where S': "sy_spu y' a = Some S'" "s_ctx S' = s_ctx S" using same_byD [OF s] by (auto simp: spu_view_def)
  show ?thesis
  proof (cases "s_ctx S")
    case ctx: (Some b)
    have "map_option count_view (sy_ctx y b) = map_option count_view (sy_ctx y' b)" using c by (simp add: same_by_def)
    then consider "sy_ctx y b = None" "sy_ctx y' b = None"
      | B B' where "sy_ctx y b = Some B" "sy_ctx y' b = Some B'" "count_view B' = count_view B"
      by (cases "sy_ctx y b"; cases "sy_ctx y' b") auto
    then show ?thesis
    proof cases
      case 2
      then have "Q B' = Q B" by (intro Q)
      with 2 Some S' ctx show ?thesis by (simp add: holds_def)
    qed (use Some S' ctx in \<open>simp add: holds_def\<close>)
  qed (use Some S' in \<open>simp add: holds_def\<close>)
qed

lemma count_view_props: "count_view C' = count_view C \<Longrightarrow> is_nosched C' = is_nosched C" "count_view C' = count_view C \<Longrightarrow> is_user C' = is_user C"
  by (simp_all add: count_view_def is_nosched_def)

lemma count_wf_cong:
  assumes wf: "count_wf y" and c: "same_by count_view (sy_ctx y) (sy_ctx y')" and s: "same_by spu_view (sy_spu y) (sy_spu y')"
    and n: "sy_node y' = sy_node y"
  shows "count_wf y'"
proof -
  have cnt: "spu_count y' Q m = spu_count y Q m" if "\<And>C C'. count_view C' = count_view C \<Longrightarrow> Q C' = Q C" for Q m
  proof -
    have "holds y' Q = holds y Q" by (rule ext) (rule holds_cong [OF c s that])
    then show ?thesis by (simp add: spu_count_def n)
  qed
  have "spu_count y' (\<lambda>_. True) m = spu_count y (\<lambda>_. True) m" "spu_count y' is_nosched m = spu_count y is_nosched m"
    "spu_count y' is_user m = spu_count y is_user m" for m
    by (rule cnt, simp) (rule cnt, erule count_view_props(1), rule cnt, erule count_view_props(2))
  then show ?thesis using wf by (simp add: count_wf_def n)
qed

section \<open>Steps that leave the invariant alone\<close>

definition full_view :: "spu_context \<Rightarrow> (nat option \<times> nat) \<times> (saddr option \<times> spu_state \<times> bool) \<times> create_flag set \<times> gaddr option \<times> bool" where
  "full_view C = (rq_view C, bind_view C, count_view C)"

definition quiet :: "spu_sys \<Rightarrow> spu_sys \<Rightarrow> bool" where
  "quiet y y' \<longleftrightarrow> same_by full_view (sy_ctx y) (sy_ctx y') \<and> same_by spu_view (sy_spu y) (sy_spu y') \<and>
     sy_node y' = sy_node y \<and> sy_prio y' = sy_prio y \<and> spusched_timer y' = spusched_timer y \<and>
     (\<forall>g. sy_gang y g \<noteq> None \<longrightarrow> sy_gang y' g \<noteq> None)"

lemma quiet_refl [simp]: "quiet y y"
  by (simp add: quiet_def)

lemma quiet_trans [trans]: "quiet y1 y2 \<Longrightarrow> quiet y2 y3 \<Longrightarrow> quiet y1 y3"
  unfolding quiet_def using same_by_trans by metis

lemma same_by_weak:
  assumes "same_by v m m'" and "\<And>x. w x = f (v x)"
  shows "same_by w m m'"
proof -
  have "w = f \<circ> v" using assms(2) by auto
  then show ?thesis using assms(1) unfolding same_by_def by (metis option.map_comp)
qed

lemma full_view_weak:
  assumes "same_by full_view m m'"
  shows "same_by rq_view m m'" and "same_by bind_view m m'" and "same_by count_view m m'"
  by (rule same_by_weak [OF assms, where f = fst], simp add: full_view_def)
    (rule same_by_weak [OF assms, where f = "\<lambda>v. fst (snd v)"], simp add: full_view_def,
     rule same_by_weak [OF assms, where f = "\<lambda>v. snd (snd v)"], simp add: full_view_def)

lemma quiet_inv:
  assumes q: "quiet y y'" and i: "spu_inv_but X e y"
  shows "spu_inv_but X e y'"
proof -
  from i obtain P where P: "sy_prio y = Some P" "rq_wf e y P" by (rule spu_inv_prio)
  note v = full_view_weak [of "sy_ctx y" "sy_ctx y'"]
  have f: "same_by full_view (sy_ctx y) (sy_ctx y')" "same_by spu_view (sy_spu y) (sy_spu y')"
    "sy_node y' = sy_node y" "sy_prio y' = sy_prio y" "spusched_timer y' = spusched_timer y"
    "\<And>g. sy_gang y g \<noteq> None \<Longrightarrow> sy_gang y' g \<noteq> None" using q by (auto simp: quiet_def)
  show ?thesis
    by (rule spu_invI [of _ P]) (use P f v [OF f(1)] spu_invD [OF i] in
      \<open>auto intro: rq_wf_cong bind_wf_cong node_wf_cong count_wf_cong\<close>)
qed

lemma quiet_ctx_upd:
  assumes "ctx_upd y c f = Some y'" and "\<And>C. full_view (f C) = full_view C"
  shows "quiet y y'"
  using assms same_by_upd [of "sy_ctx y" c _ full_view] by (auto simp: ctx_upd_def quiet_def split: option.splits)

lemma quiet_spu_upd:
  assumes "spu_upd y s f = Some y'" and "\<And>S. spu_view (f S) = spu_view S"
  shows "quiet y y'"
  using assms same_by_upd [of "sy_spu y" s _ spu_view] by (auto simp: spu_upd_def quiet_def split: option.splits)

lemma quiet_gang_upd: "gang_upd y g f = Some y' \<Longrightarrow> quiet y y'"
  by (auto simp: gang_upd_def quiet_def split: option.splits)

lemma quiet_log [simp]: "quiet y (spu_log v y)" and quiet_tick [simp]: "quiet y (spu_tick y)"
  by (simp_all add: quiet_def spu_log_def spu_tick_def)

lemmas view_defs = full_view_def rq_view_def bind_view_def count_view_def is_user_def spu_view_def

lemma get_spu_context_quiet: "get_spu_context c y = Some y' \<Longrightarrow> quiet y y'"
  by (auto simp: get_spu_context_def bind_eq_Some_conv view_defs split: if_splits intro!: quiet_ctx_upd)

lemma put_spu_context_quiet: "put_spu_context c y = Some y' \<Longrightarrow> quiet y y'"
  by (auto simp: put_spu_context_def bind_eq_Some_conv view_defs split: if_splits
      intro: quiet_ctx_upd quiet_trans [OF quiet_ctx_upd quiet_log])

end
