(* ===== verification/Spu_Steps.thy ===== *)
theory Spu_Steps
  imports Spu_Invariant
begin

text \<open>
  The effect of the basic operations of the SPU scheduler on its invariant: linking a context on a run queue
  and taking it off, binding it to an SPU and unbinding it.
\<close>

section \<open>Run queues\<close>

lemma sum_upd:
  fixes h :: "'a \<Rightarrow> int" and p :: nat
  assumes "p < M"
  shows "(\<Sum>q<M. h ((f(p := x)) q)) = (\<Sum>q<M. h (f q)) - h (f p) + h x"
proof -
  have p: "p \<in> {..<M}" using assms by simp
  have "(\<Sum>q\<in>{..<M} - {p}. h ((f(p := x)) q)) = (\<Sum>q\<in>{..<M} - {p}. h (f q))" by (rule sum.cong) auto
  with sum.remove [OF finite_lessThan p, of "\<lambda>q. h ((f(p := x)) q)"] sum.remove [OF finite_lessThan p, of "\<lambda>q. h (f q)"] show ?thesis by simp
qed

lemma rq_wf_at:
  assumes "rq_wf e y P"
  shows "distinct (runq P p)" and "c \<in> set (runq P p) \<longleftrightarrow> (\<exists>C. sy_ctx y c = Some C \<and> c_rq C = Some p)"
    and "sy_ctx y c = Some C \<Longrightarrow> c_rq C = Some p \<Longrightarrow> p = c_prio C \<and> p < MAX_PRIO e"
    and "bitmap P p \<longleftrightarrow> runq P p \<noteq> []" and "nr_waiting P = (\<Sum>p<MAX_PRIO e. int (length (runq P p)))"
    and "spusched_timer y \<noteq> None \<longleftrightarrow> nr_waiting P \<noteq> 0" and "0 \<le> nr_waiting P"
  using assms unfolding rq_wf_def by (auto simp: sum_nonneg)

lemma rq_wf_queued:
  assumes wf: "rq_wf e y P" and C: "sy_ctx y c = Some C" "c_rq C = Some p"
  shows "1 \<le> nr_waiting P"
proof -
  have "p < MAX_PRIO e" using rq_wf_at(3) [OF wf C] by simp
  have "c \<in> set (runq P p)" using rq_wf_at(2) [OF wf, of c p] C by simp
  then have "runq P p \<noteq> []" by auto
  then have "int (length (runq P p)) \<le> nr_waiting P"
    using \<open>p < MAX_PRIO e\<close> unfolding rq_wf_at(5) [OF wf]
    by (intro member_le_sum [of p "{..<MAX_PRIO e}" "\<lambda>p. int (length (runq P p))"]) auto
  then show ?thesis using \<open>runq P p \<noteq> []\<close> by (cases "runq P p") auto
qed

lemma rq_inv_change:
  assumes i: "spu_inv_but X e y" and P: "sy_prio y' = Some P'" "rq_wf e y' P'"
    and v: "same_by bind_view (sy_ctx y) (sy_ctx y')" "same_by count_view (sy_ctx y) (sy_ctx y')"
    and f: "sy_spu y' = sy_spu y" "sy_node y' = sy_node y" "sy_gang y' = sy_gang y"
  shows "spu_inv_but X e y'"
proof (rule spu_invI [OF P])
  have s: "same_by spu_view (sy_spu y) (sy_spu y')" by (simp add: f)
  show "bind_wf X y'" by (rule bind_wf_cong [OF spu_invD(1) [OF i] v(1) s])
  show "node_wf e y'" by (rule node_wf_cong [OF spu_invD(2) [OF i] v(2) s]) (simp_all add: f)
  show "count_wf y'" by (rule count_wf_cong [OF spu_invD(3) [OF i] v(2) s f(2)])
qed

definition queued :: "spu_env \<Rightarrow> caddr \<Rightarrow> spu_context \<Rightarrow> spu_prio_array \<Rightarrow> spu_sys \<Rightarrow> spu_sys" where
  "queued e c C P y = y\<lparr>sy_ctx := (sy_ctx y)(c \<mapsto> C\<lparr>c_rq := Some (c_prio C)\<rparr>),
     sy_prio := Some (P\<lparr>runq := (runq P)(c_prio C := runq P (c_prio C) @ [c]), bitmap := (bitmap P)(c_prio C := True),
       nr_waiting := nr_waiting P + 1\<rparr>),
     spusched_timer := (if nr_waiting P = 0 then Some (jiffies e (sy_tick y) + of_int SPUSCHED_TICK) else spusched_timer y)\<rparr>"

lemma spu_add_to_rq_eq:
  assumes "sy_ctx y c = Some C" and "sy_prio y = Some P" and "c_prio C < MAX_PRIO e"
  shows "spu_add_to_rq_locked e c y = Some (if c_rq C = None then queued e c C P y else y)"
  using assms by (simp add: spu_add_to_rq_locked_def ctx_upd_def queued_def Let_def)

lemma queued_inv:
  assumes i: "spu_inv_but X e y" and C: "sy_ctx y c = Some C" "c_rq C = None" "c_prio C < MAX_PRIO e" and P: "sy_prio y = Some P"
  shows "spu_inv_but X e (queued e c C P y)"
proof -
  let ?y = "queued e c C P y" and ?q = "c_prio C"
  let ?P = "P\<lparr>runq := (runq P)(?q := runq P ?q @ [c]), bitmap := (bitmap P)(?q := True), nr_waiting := nr_waiting P + 1\<rparr>"
  have wf: "rq_wf e y P" using i P by (auto simp: spu_inv_but_def)
  have nin: "c \<notin> set (runq P p)" for p using rq_wf_at(2) [OF wf] C by auto
  have "nr_waiting ?P = (\<Sum>p<MAX_PRIO e. int (length (runq ?P p)))"
    using sum_upd [OF C(3), of "\<lambda>l. int (length l)" "runq P" "runq P ?q @ [c]"] rq_wf_at(5) [OF wf] by simp
  moreover have "(spusched_timer ?y \<noteq> None) = (nr_waiting ?P \<noteq> 0)"
    using rq_wf_at(6,7) [OF wf] by (simp add: queued_def)
  moreover have "x \<in> set (runq ?P p) \<longleftrightarrow> (\<exists>D. sy_ctx ?y x = Some D \<and> c_rq D = Some p)" for x p
    using rq_wf_at(2) [OF wf, of x p] nin C by (auto simp: queued_def)
  moreover have "p = c_prio D \<and> p < MAX_PRIO e" if "sy_ctx ?y x = Some D" "c_rq D = Some p" for x D p
    using that rq_wf_at(3) [OF wf] C(3) by (auto simp: queued_def split: if_splits)
  ultimately have "rq_wf e ?y ?P" unfolding rq_wf_def
    using rq_wf_at(1,4) [OF wf] nin by (auto simp del: fun_upd_apply simp add: fun_upd_def)
  then show ?thesis
    by (rule rq_inv_change [OF i, rotated]) (use C(1) in \<open>auto simp: queued_def view_defs intro: same_by_upd\<close>)
qed

lemma spu_add_to_rq_inv:
  assumes "spu_inv_but X e y" and "spu_add_to_rq_locked e c y = Some y'"
  shows "spu_inv_but X e y'"
proof -
  obtain P where P: "sy_prio y = Some P" using assms(1) by (rule spu_inv_prio)
  obtain C where C: "sy_ctx y c = Some C" using assms(2) by (auto simp: spu_add_to_rq_locked_def bind_eq_Some_conv)
  show ?thesis
  proof (cases "c_rq C = None")
    case True
    then have "c_prio C < MAX_PRIO e" using assms(2) C P by (auto simp: spu_add_to_rq_locked_def split: if_splits)
    with spu_add_to_rq_eq [OF C P] queued_inv [OF assms(1) C True _ P] assms(2) True show ?thesis by simp
  next
    case False
    then show ?thesis using assms C by (simp add: spu_add_to_rq_locked_def)
  qed
qed

definition dequeued :: "caddr \<Rightarrow> spu_context \<Rightarrow> spu_prio_array \<Rightarrow> spu_sys \<Rightarrow> spu_sys" where
  "dequeued c C P y =
     (let l = remove1 c (runq P (c_prio C)); w = nr_waiting P - 1 in
      y\<lparr>sy_ctx := (sy_ctx y)(c \<mapsto> C\<lparr>c_rq := None\<rparr>),
        sy_prio := Some (P\<lparr>runq := (runq P)(c_prio C := l), bitmap := (bitmap P)(c_prio C := (l \<noteq> [])), nr_waiting := w\<rparr>),
        spusched_timer := (if w = 0 then None else spusched_timer y)\<rparr>)"

lemma spu_del_from_rq_eq:
  assumes wf: "rq_wf e y P" and P: "sy_prio y = Some P" and C: "sy_ctx y c = Some C"
  shows "spu_del_from_rq_locked e c y = Some (if c_rq C = None then y else dequeued c C P y)"
proof (cases "c_rq C")
  case (Some q)
  have q: "q = c_prio C" "q < MAX_PRIO e" using rq_wf_at(3) [OF wf C Some] by auto
  have "c \<in> set (runq P q)" using rq_wf_at(2) [OF wf, of c q] C Some by simp
  then have "bitmap P (c_prio C)" using rq_wf_at(4) [OF wf, of q] q(1) by auto
  then have "(bitmap P)(c_prio C := True) = bitmap P" by (simp add: fun_upd_idem_iff)
  with q Some P C show ?thesis by (auto simp: spu_del_from_rq_locked_def dequeued_def ctx_upd_def Let_def)
qed (use C in \<open>simp add: spu_del_from_rq_locked_def\<close>)

lemma dequeued_inv:
  assumes i: "spu_inv_but X e y" and C: "sy_ctx y c = Some C" "c_rq C \<noteq> None" and P: "sy_prio y = Some P"
  shows "spu_inv_but X e (dequeued c C P y)"
proof -
  let ?y = "dequeued c C P y" and ?q = "c_prio C"
  let ?l = "remove1 c (runq P ?q)"
  let ?P = "P\<lparr>runq := (runq P)(?q := ?l), bitmap := (bitmap P)(?q := (?l \<noteq> [])), nr_waiting := nr_waiting P - 1\<rparr>"
  have wf: "rq_wf e y P" using i P by (auto simp: spu_inv_but_def)
  have q: "c_rq C = Some ?q" "?q < MAX_PRIO e" using rq_wf_at(3) [OF wf C(1)] C(2) by auto
  have q3: "c \<in> set (runq P ?q)" using rq_wf_at(2) [OF wf, of c ?q] C(1) q(1) by simp
  have one: "1 \<le> nr_waiting P" by (rule rq_wf_queued [OF wf C(1) q(1)])
  have "int (length ?l) = int (length (runq P ?q)) - 1" 
    using q3 length_pos_if_in_set [OF q3] by (simp add: length_remove1 Suc_le_eq)
  then have "nr_waiting ?P = (\<Sum>p<MAX_PRIO e. int (length (runq ?P p)))"
    using sum_upd [OF q(2), of "\<lambda>l. int (length l)" "runq P" ?l] rq_wf_at(5) [OF wf] by simp
  moreover have "(spusched_timer ?y \<noteq> None) = (nr_waiting ?P \<noteq> 0)"
    using rq_wf_at(6) [OF wf] one by (simp add: dequeued_def Let_def)
  moreover have "x \<in> set (runq ?P p) \<longleftrightarrow> (\<exists>D. sy_ctx ?y x = Some D \<and> c_rq D = Some p)" for x p
    using rq_wf_at(1) [OF wf, of ?q] rq_wf_at(2) [OF wf, of x p] q C by (auto simp: dequeued_def Let_def)
  moreover have "p = c_prio D \<and> p < MAX_PRIO e" if "sy_ctx ?y x = Some D" "c_rq D = Some p" for x D p
    using that rq_wf_at(3) [OF wf] by (auto simp: dequeued_def Let_def split: if_splits)
  ultimately have "rq_wf e ?y ?P" unfolding rq_wf_def
    using rq_wf_at(1,4) [OF wf] by (auto simp del: fun_upd_apply simp add: fun_upd_def)
  then show ?thesis
    by (rule rq_inv_change [OF i, rotated]) (use C(1) in \<open>auto simp: dequeued_def Let_def view_defs intro: same_by_upd\<close>)
qed

lemma spu_del_from_rq_inv:
  assumes "spu_inv_but X e y" and "spu_del_from_rq_locked e c y = Some y'"
  shows "spu_inv_but X e y'"
proof -
  obtain P where P: "sy_prio y = Some P" "rq_wf e y P" using assms(1) by (rule spu_inv_prio)
  obtain C where C: "sy_ctx y c = Some C" using assms(2) by (auto simp: spu_del_from_rq_locked_def bind_eq_Some_conv)
  from spu_del_from_rq_eq [OF P(2,1) C] dequeued_inv [OF assms(1) C _ P(1)] assms show ?thesis by (auto split: if_splits)
qed

end
