(* ===== verification/Spu_Bind.thy ===== *)
theory Spu_Bind
  imports Spu_Steps
begin

text \<open>
  The effect of binding and unbinding on the invariant of the SPU scheduler: which fields change, and that
  the counters of the nodes follow.
\<close>

section \<open>Counters\<close>

abbreviation num :: "bool \<Rightarrow> int" where
  "num b \<equiv> (if b then 1 else 0)"

lemma filter_change:
  assumes "distinct l" and "\<And>x. x \<in> set l \<Longrightarrow> x \<noteq> s \<Longrightarrow> P' x = P x"
  shows "int (length (filter P' l)) = int (length (filter P l)) + (if s \<in> set l then num (P' s) - num (P s) else 0)"
  using assms
proof (induction l)
  case (Cons a l)
  then have IH: "int (length (filter P' l)) = int (length (filter P l)) + (if s \<in> set l then num (P' s) - num (P s) else 0)" by simp
  show ?case
  proof (cases "a = s")
    case True
    then have "s \<notin> set l" using Cons.prems(1) by auto
    then show ?thesis using IH True by simp
  next
    case False
    then have "P' a = P a" using Cons.prems(2) by simp
    then show ?thesis using IH False by (cases "s \<in> set l") auto
  qed
qed simp

text \<open>Only the SPU \<open>s\<close> and the context \<open>c\<close> change, and no other SPU has the context \<open>c\<close>.\<close>

lemma holds_other:
  assumes y': "sy_ctx y' = (sy_ctx y)(c \<mapsto> C')" "sy_spu y' = (sy_spu y)(s \<mapsto> S')" and b: "bind_wf X y"
    and C: "sy_ctx y c = Some C" "c_spu C = None \<or> c_spu C = Some s" and ne: "s' \<noteq> s"
  shows "holds y' Q s' = holds y Q s'"
proof (cases "sy_spu y s'")
  case (Some T)
  have "s_ctx T \<noteq> Some c" using b Some C ne unfolding bind_wf_def by (metis option.inject option.simps(3))
  with Some y' ne show ?thesis by (auto simp: holds_def split: option.splits)
qed (use y' ne in \<open>simp add: holds_def\<close>)

lemma count_change:
  assumes y': "sy_ctx y' = (sy_ctx y)(c \<mapsto> C')" "sy_spu y' = (sy_spu y)(s \<mapsto> S')" and b: "bind_wf X y" and nw: "node_wf e y"
    and n: "\<And>m. n_spus (sy_node y' m) = n_spus (sy_node y m)"
    and C: "sy_ctx y c = Some C" "c_spu C = None \<or> c_spu C = Some s" and S: "sy_spu y s = Some S"
  shows "spu_count y' Q m = spu_count y Q m + (if m = s_node S then num (holds y' Q s) - num (holds y Q s) else 0)"
proof -
  have "s \<in> set (n_spus (sy_node y m)) \<longleftrightarrow> m = s_node S" using nw S unfolding node_wf_def by (metis option.inject)
  moreover have "distinct (n_spus (sy_node y m))" using nw by (simp add: node_wf_def)
  ultimately show ?thesis unfolding spu_count_def n
    using filter_change [of "n_spus (sy_node y m)" s "holds y' Q" "holds y Q"] holds_other [OF y' b C] by simp
qed

section \<open>Switching the utilisation\<close>

lemma switch_unbound:
  assumes "sy_ctx y c = Some C" and "c_spu C = None"
  shows "\<exists>t ev st. spuctx_switch_state e c new y = Some (y\<lparr>sy_ctx := (sy_ctx y)(c \<mapsto> C\<lparr>c_stats := st\<rparr>), sy_tick := t, sy_events := ev\<rparr>) \<and>
     st_util st = new"
  using assms by (cases y) (auto simp: spuctx_switch_state_def ctx_upd_def spu_log_def spu_tick_def Let_def intro!: exI)

lemma switch_bound:
  assumes "sy_ctx y c = Some C" and "c_spu C = Some s" and "sy_spu y s = Some S"
  shows "\<exists>t ev st st'. spuctx_switch_state e c new y = Some (y\<lparr>sy_ctx := (sy_ctx y)(c \<mapsto> C\<lparr>c_stats := st\<rparr>),
       sy_spu := (sy_spu y)(s \<mapsto> S\<lparr>s_stats := st'\<rparr>), sy_node := (sy_node y)(s_node S := (sy_node y (s_node S))\<lparr>busy_spus :=
         busy_spus (sy_node y (s_node S)) - num (is_user C) + num (new = SPU_UTIL_USER)\<rparr>), sy_tick := t, sy_events := ev\<rparr>) \<and>
     st_util st = new"
  using assms
  by (cases y) (auto simp: spuctx_switch_state_def ctx_upd_def spu_upd_def node_upd_def spu_log_def spu_tick_def Let_def is_user_def
      fun_upd_idem intro!: exI)

text \<open>The fields of a context that binding leaves alone.\<close>

definition ctx_keep :: "spu_context \<Rightarrow> spu_context \<Rightarrow> bool" where
  "ctx_keep C C' \<longleftrightarrow> c_rq C' = c_rq C \<and> c_prio C' = c_prio C \<and> c_flags C' = c_flags C \<and> c_gang C' = c_gang C \<and>
     time_slice C' = time_slice C \<and> sched_flags C' = sched_flags C \<and> c_kref C' = c_kref C \<and> cpus_allowed C' = cpus_allowed C \<and>
     c_policy C' = c_policy C"

definition bound_to :: "saddr \<Rightarrow> caddr \<Rightarrow> spu_context \<Rightarrow> spu \<Rightarrow> spu_context \<Rightarrow> spu \<Rightarrow> bool" where
  "bound_to s c C S C' S' \<longleftrightarrow> ctx_keep C C' \<and> c_spu C' = Some s \<and> c_state C' = SPU_STATE_RUNNABLE \<and> is_user C' \<and>
     s_ctx S' = Some c \<and> s_node S' = s_node S \<and> alloc_state S' = alloc_state S"

definition unbound :: "spu_context \<Rightarrow> spu \<Rightarrow> spu_context \<Rightarrow> spu \<Rightarrow> bool" where
  "unbound C S C' S' \<longleftrightarrow> ctx_keep C C' \<and> c_spu C' = None \<and> c_state C' = SPU_STATE_SAVED \<and> \<not> is_user C' \<and>
     s_ctx S' = None \<and> s_node S' = s_node S \<and> alloc_state S' = alloc_state S"

section \<open>Binding\<close>

lemma bind_eq:
  assumes C: "sy_ctx y c = Some C" "c_spu C = None" and S: "sy_spu y s = Some S"
  shows "\<exists>C' S' t ev. spu_bind_context e s c y = Some (y\<lparr>sy_ctx := (sy_ctx y)(c \<mapsto> C'), sy_spu := (sy_spu y)(s \<mapsto> S'),
       sy_node := (sy_node y)(s_node S := (sy_node y (s_node S))\<lparr>
         reserved_spus := reserved_spus (sy_node y (s_node S)) + num (is_nosched C),
         busy_spus := busy_spus (sy_node y (s_node S)) + 1\<rparr>), sy_tick := t, sy_events := ev\<rparr>) \<and> bound_to s c C S C' S'"
proof -
  obtain t1 ev1 st1 where 1: "spuctx_switch_state e c SPU_UTIL_SYSTEM y
      = Some (y\<lparr>sy_ctx := (sy_ctx y)(c \<mapsto> C\<lparr>c_stats := st1\<rparr>), sy_tick := t1, sy_events := ev1\<rparr>)" (is "_ = Some ?y1") "st_util st1 = SPU_UTIL_SYSTEM"
    using switch_unbound [OF C] by blast
  let ?n = "s_node S"
  let ?N = "(sy_node y ?n)\<lparr>reserved_spus := reserved_spus (sy_node y ?n) + num (is_nosched C)\<rparr>"
  let ?C = "C\<lparr>c_stats := st1, slb_flt_base := st_slb (s_stats S), class2_intr_base := st_class2 (s_stats S), c_spu := Some s,
     c_ops := SpuHwOps, c_state := SPU_STATE_RUNNABLE\<rparr>"
  let ?S = "S\<lparr>s_ctx := Some c, s_flags := 0, s_pid := cur_pid e, s_tgid := cur_tgid e, s_callbacks := True, s_timestamp := jiffies e t1\<rparr>"
  define ev where "ev = ev1 @ [AssociateMm s (Some c), UnmapMappings c, SwitchLogStart s c, SpuRestore c s, SwitchNotify s (Some c)]"
  have b: "spu_bind_context e s c y = spuctx_switch_state e c SPU_UTIL_USER
     (y\<lparr>sy_ctx := (sy_ctx y)(c \<mapsto> ?C), sy_spu := (sy_spu y)(s \<mapsto> ?S), sy_node := (sy_node y)(?n := ?N), sy_tick := t1, sy_events := ev\<rparr>)"
    (is "_ = spuctx_switch_state e c SPU_UTIL_USER ?y9")
    using 1(1) C S by (cases y) (simp add: spu_bind_context_def ctx_upd_def spu_upd_def node_upd_def spu_log_def Let_def
      is_nosched_def fun_upd_idem ev_def)
  have "sy_ctx ?y9 c = Some ?C" "c_spu ?C = Some s" "sy_spu ?y9 s = Some ?S" by simp_all
  from switch_bound [OF this, of e SPU_UTIL_USER] obtain t2 ev2 st2 st2' where 2:
    "spuctx_switch_state e c SPU_UTIL_USER ?y9 = Some (?y9\<lparr>sy_ctx := (sy_ctx ?y9)(c \<mapsto> ?C\<lparr>c_stats := st2\<rparr>),
       sy_spu := (sy_spu ?y9)(s \<mapsto> ?S\<lparr>s_stats := st2'\<rparr>), sy_node := (sy_node ?y9)(s_node ?S := (sy_node ?y9 (s_node ?S))\<lparr>busy_spus :=
         busy_spus (sy_node ?y9 (s_node ?S)) - num (is_user ?C) + num (SPU_UTIL_USER = SPU_UTIL_USER)\<rparr>), sy_tick := t2, sy_events := ev2\<rparr>)"
    "st_util st2 = SPU_UTIL_USER" by blast
  have nu: "\<not> is_user ?C" using 1(2) by (simp add: is_user_def)
  have "bound_to s c C S (?C\<lparr>c_stats := st2\<rparr>) (?S\<lparr>s_stats := st2'\<rparr>)" using 2(2) by (simp add: bound_to_def ctx_keep_def is_user_def)
  moreover have "spu_bind_context e s c y = Some (y\<lparr>sy_ctx := (sy_ctx y)(c \<mapsto> ?C\<lparr>c_stats := st2\<rparr>), sy_spu := (sy_spu y)(s \<mapsto> ?S\<lparr>s_stats := st2'\<rparr>),
     sy_node := (sy_node y)(?n := ?N\<lparr>busy_spus := busy_spus (sy_node y ?n) + 1\<rparr>), sy_tick := t2, sy_events := ev2\<rparr>)"
    unfolding b 2(1) using nu by simp
  ultimately show ?thesis by fastforce
qed

section \<open>Unbinding\<close>

lemma unbind_eq:
  assumes C: "sy_ctx y c = Some C" "c_spu C = Some s" and S: "sy_spu y s = Some S" "s_ctx S = Some c"
    and g: "\<And>g. c_gang C = Some g \<Longrightarrow> sy_gang y g \<noteq> None"
  shows "\<exists>C' S' G t ev. spu_unbind_context e s c y = Some (y\<lparr>sy_ctx := (sy_ctx y)(c \<mapsto> C'), sy_spu := (sy_spu y)(s \<mapsto> S'),
       sy_node := (sy_node y)(s_node S := (sy_node y (s_node S))\<lparr>
         busy_spus := busy_spus (sy_node y (s_node S)) - num (is_user C),
         reserved_spus := reserved_spus (sy_node y (s_node S)) - num (is_nosched C)\<rparr>),
       sy_gang := G, sy_tick := t, sy_events := ev\<rparr>) \<and> unbound C S C' S' \<and> dom G = dom (sy_gang y)"
proof -
  let ?n = "s_node S"
  obtain t1 ev1 st1 st1' where 1: "spuctx_switch_state e c SPU_UTIL_SYSTEM y = Some (y\<lparr>sy_ctx := (sy_ctx y)(c \<mapsto> C\<lparr>c_stats := st1\<rparr>),
       sy_spu := (sy_spu y)(s \<mapsto> S\<lparr>s_stats := st1'\<rparr>), sy_node := (sy_node y)(?n := (sy_node y ?n)\<lparr>busy_spus :=
         busy_spus (sy_node y ?n) - num (is_user C) + num (SPU_UTIL_SYSTEM = SPU_UTIL_USER)\<rparr>), sy_tick := t1, sy_events := ev1\<rparr>)"
    "st_util st1 = SPU_UTIL_SYSTEM"
    using switch_bound [OF C S(1)] by blast
  let ?N = "(sy_node y ?n)\<lparr>busy_spus := busy_spus (sy_node y ?n) - num (is_user C), reserved_spus := reserved_spus (sy_node y ?n) - num (is_nosched C)\<rparr>"
  define G where "G = (case c_gang C of None \<Rightarrow> sy_gang y
     | Some g \<Rightarrow> (sy_gang y)(g := map_option (\<lambda>G. G\<lparr>aff_sched_count := dec_if_positive (aff_sched_count G)\<rparr>) (sy_gang y g)))"
  have dG: "dom G = dom (sy_gang y)" using g by (auto simp: G_def split: option.splits if_splits)
  let ?st = "st1\<lparr>st_slb := st_slb st1 + (st_slb st1' - slb_flt_base C), st_class2 := st_class2 st1 + (st_class2 st1' - class2_intr_base C)\<rparr>"
  let ?C = "C\<lparr>c_state := SPU_STATE_SAVED, c_ops := SpuBackingOps, c_stats := ?st\<rparr>"
  let ?S = "S\<lparr>s_stats := st1', s_timestamp := jiffies e t1, s_callbacks := False, s_pid := 0, s_tgid := 0, s_flags := 0, s_ctx := None\<rparr>"
  let ?z = "\<lambda>ev. y\<lparr>sy_ctx := (sy_ctx y)(c \<mapsto> ?C), sy_spu := (sy_spu y)(s \<mapsto> ?S), sy_node := (sy_node y)(?n := ?N), sy_gang := G, sy_tick := t1, sy_events := ev\<rparr>"
  let ?fin = "\<lambda>y9. do { y10 \<leftarrow> ctx_upd y9 c (\<lambda>C. C\<lparr>c_spu := None\<rparr>);
     Some (if spu_stopped e (sy_tick y10) c then spu_log (WakeStopAll c) (spu_tick y10) else spu_tick y10) }"
  define ev where "ev = ev1 @ [SwitchNotify s None, UnmapMappings c, SpuSave c s, SwitchLogStop s c, AssociateMm s None]"
  have G: "(case c_gang C of None \<Rightarrow> Some z
       | Some g \<Rightarrow> gang_upd z g (\<lambda>G. G\<lparr>aff_sched_count := dec_if_positive (aff_sched_count G)\<rparr>)) = Some (z\<lparr>sy_gang := G\<rparr>)"
    if "sy_gang z = sy_gang y" for z
    using that g by (cases z) (auto simp: G_def gang_upd_def split: option.splits)
  have b: "spu_unbind_context e s c y = Option.bind (spuctx_switch_state e c SPU_UTIL_IDLE_LOADED (?z ev)) ?fin"
    using 1(1) C S by (cases y) (simp add: spu_unbind_context_def ctx_upd_def spu_upd_def node_upd_def spu_log_def Let_def
      is_nosched_def fun_upd_idem ev_def G)
  have "sy_ctx (?z ev) c = Some ?C" "c_spu ?C = Some s" "sy_spu (?z ev) s = Some ?S" using C by simp_all
  from switch_bound [OF this, of e SPU_UTIL_IDLE_LOADED] obtain t2 ev2 st2 st2' where 2:
    "spuctx_switch_state e c SPU_UTIL_IDLE_LOADED (?z ev) = Some ((?z ev)\<lparr>sy_ctx := (sy_ctx (?z ev))(c \<mapsto> ?C\<lparr>c_stats := st2\<rparr>),
       sy_spu := (sy_spu (?z ev))(s \<mapsto> ?S\<lparr>s_stats := st2'\<rparr>), sy_node := (sy_node (?z ev))(s_node ?S := (sy_node (?z ev) (s_node ?S))\<lparr>busy_spus :=
         busy_spus (sy_node (?z ev) (s_node ?S)) - num (is_user ?C) + num (SPU_UTIL_IDLE_LOADED = SPU_UTIL_USER)\<rparr>), sy_tick := t2, sy_events := ev2\<rparr>)"
    "st_util st2 = SPU_UTIL_IDLE_LOADED" by blast
  have nu: "\<not> is_user ?C" using 1(2) by (simp add: is_user_def)
  let ?C' = "?C\<lparr>c_stats := st2, c_spu := None\<rparr>" and ?S' = "?S\<lparr>s_stats := st2'\<rparr>"
  have "unbound C S ?C' ?S'" using 2(2) by (simp add: unbound_def ctx_keep_def is_user_def)
  moreover have "\<exists>t ev. spu_unbind_context e s c y = Some (y\<lparr>sy_ctx := (sy_ctx y)(c \<mapsto> ?C'), sy_spu := (sy_spu y)(s \<mapsto> ?S'),
     sy_node := (sy_node y)(?n := ?N), sy_gang := G, sy_tick := t, sy_events := ev\<rparr>)"
    unfolding b 2(1) using nu by (cases y) (auto simp: ctx_upd_def spu_log_def spu_tick_def intro!: exI)
  ultimately show ?thesis using dG by blast
qed

end
