(* ===== verification/Spu_Place.thy ===== *)
theory Spu_Place
  imports Spu_Bind
begin

text \<open>
  Placing a context on an SPU and taking it off keep the invariant of the SPU scheduler: \<^verbatim>\<open>__spu_schedule\<close>,
  \<^verbatim>\<open>spu_unschedule\<close> and the time slices.
\<close>

section \<open>Time slices\<close>

definition slice :: "spu_env \<Rightarrow> nat \<Rightarrow> int" where
  "slice e prio = (if prio < NORMAL_PRIO then SCALE_PRIO e (DEF_SPU_TIMESLICE e * 4) prio else SCALE_PRIO e (DEF_SPU_TIMESLICE e) prio)"

lemma spu_set_timeslice_eq:
  "sy_ctx y c = Some C \<Longrightarrow>
   spu_set_timeslice e c y = Some (y\<lparr>sy_ctx := (sy_ctx y)(c \<mapsto> C\<lparr>time_slice := word_of_int (slice e (c_prio C))\<rparr>)\<rparr>)"
  by (simp add: spu_set_timeslice_def ctx_upd_def slice_def)

lemma slice_bounds:
  assumes "prio_consts e"
  shows "1 \<le> slice e prio" and "slice e prio \<le> 2800"
proof -
  have D: "0 \<le> DEF_SPU_TIMESLICE e" "DEF_SPU_TIMESLICE e \<le> 100" and M: "1 \<le> MIN_SPU_TIMESLICE e" "MIN_SPU_TIMESLICE e \<le> 5"
    using assms by (auto simp: prio_consts_def DEF_SPU_TIMESLICE_def MIN_SPU_TIMESLICE_def SPUSCHED_TICK_def)
  have "x * (140 - int prio) div 20 \<le> 2800" if "0 \<le> x" "x \<le> 400" for x :: int
  proof -
    have "x * (140 - int prio) \<le> x * 140" using that by (intro mult_left_mono) auto
    also have "\<dots> \<le> 400 * 140" using that by (intro mult_right_mono) auto
    finally have "x * (140 - int prio) \<le> 400 * 140" .
    then show ?thesis by simp
  qed
  from this [of "DEF_SPU_TIMESLICE e * 4"] this [of "DEF_SPU_TIMESLICE e"] D M assms
  show "1 \<le> slice e prio" "slice e prio \<le> 2800"
    by (auto simp: slice_def SCALE_PRIO_def prio_consts_def)
qed

lemma slice_word:
  assumes "prio_consts e"
  shows "word_of_int (slice e prio) \<noteq> (0 :: 32 word)" and "uint (word_of_int (slice e prio) :: 32 word) = slice e prio"
proof -
  show u: "uint (word_of_int (slice e prio) :: 32 word) = slice e prio"
    using slice_bounds [OF assms, of prio] by (simp add: uint_word_of_int)
  show "word_of_int (slice e prio) \<noteq> (0 :: 32 word)"
    using u slice_bounds(1) [OF assms, of prio] by (metis not_one_le_zero unsigned_0)
qed

lemma slice_change_inv:
  assumes i: "spu_inv_but X e y" and C: "sy_ctx y c = Some C" and X: "X \<subseteq> insert c X'" and t: "t \<noteq> 0 \<or> c \<in> X'"
  shows "spu_inv_but X' e (y\<lparr>sy_ctx := (sy_ctx y)(c \<mapsto> C\<lparr>time_slice := t\<rparr>)\<rparr>)"
proof -
  let ?y = "y\<lparr>sy_ctx := (sy_ctx y)(c \<mapsto> C\<lparr>time_slice := t\<rparr>)\<rparr>"
  obtain P where P: "sy_prio y = Some P" "rq_wf e y P" using i by (rule spu_inv_prio)
  have v: "same_by rq_view (sy_ctx y) (sy_ctx ?y)" "same_by count_view (sy_ctx y) (sy_ctx ?y)"
    using C by (auto simp: view_defs intro: same_by_upd)
  have b: "bind_wf X y" by (rule spu_invD(1) [OF i])
  have "bind_wf X' ?y" unfolding bind_wf_def
  proof (intro conjI allI impI)
    fix s S d assume "sy_spu ?y s = Some S" "s_ctx S = Some d"
    then have "alloc_state S = SPU_USED" "\<exists>D. sy_ctx y d = Some D \<and> c_spu D = Some s" using b by (auto simp: bind_wf_def)
    then show "alloc_state S = SPU_USED" "\<exists>D. sy_ctx ?y d = Some D \<and> c_spu D = Some s" using C by auto
  next
    fix d D s assume "sy_ctx ?y d = Some D" "c_spu D = Some s"
    then have "\<exists>D. sy_ctx y d = Some D \<and> c_spu D = Some s" using C by (auto split: if_splits)
    then show "\<exists>S. sy_spu ?y s = Some S \<and> s_ctx S = Some d" using b by (auto simp: bind_wf_def)
  next
    fix d D assume "sy_ctx ?y d = Some D"
    then obtain D' where D': "sy_ctx y d = Some D'" "c_state D = c_state D'" "c_spu D = c_spu D'" "time_slice D = (if d = c then t else time_slice D')"
      using C by (auto split: if_splits)
    then show "(c_state D = SPU_STATE_RUNNABLE) = (c_spu D \<noteq> None)" using bind_wfD(4) [OF b] by simp
    show "time_slice D \<noteq> 0" if "c_spu D \<noteq> None" "d \<notin> X'" using D' t X that bind_wfD(5) [OF b D'(1)] by (cases "d = c") auto
  qed
  then show ?thesis
    by (rule spu_invI [rotated 2]) (use P rq_wf_cong [OF P(2) v(1)] spu_invD(2,3) [OF i] v(2) in
      \<open>auto intro: node_wf_cong count_wf_cong\<close>)
qed

lemma slice_inv:
  assumes "spu_inv_but X e y" and "sy_ctx y c = Some C" and "t \<noteq> 0"
  shows "spu_inv_but (X - {c}) e (y\<lparr>sy_ctx := (sy_ctx y)(c \<mapsto> C\<lparr>time_slice := t\<rparr>)\<rparr>)"
  by (rule slice_change_inv [OF assms(1,2)]) (use assms(3) in auto)

section \<open>Unbinding and binding\<close>

lemma rq_view_keep: "ctx_keep C C' \<Longrightarrow> rq_view C' = rq_view C"
  by (simp add: ctx_keep_def rq_view_def)

lemma node_wf_place:
  assumes nw: "node_wf e y" and y': "sy_ctx y' = (sy_ctx y)(c \<mapsto> C')" "sy_spu y' = (sy_spu y)(s \<mapsto> S')"
    and n: "\<And>m. n_spus (sy_node y' m) = n_spus (sy_node y m)" and g: "dom (sy_gang y') = dom (sy_gang y)"
    and C: "sy_ctx y c = Some C" "c_gang C' = c_gang C" and S: "sy_spu y s = Some S" "s_node S' = s_node S"
  shows "node_wf e y'"
proof -
  have 1: "(\<exists>T. sy_spu y' a = Some T \<and> s_node T = m) \<longleftrightarrow> (\<exists>T. sy_spu y a = Some T \<and> s_node T = m)" for a m
    using S by (auto simp: y')
  have 2: "s_node T < MAX_NUMNODES e" if "sy_spu y' a = Some T" for a T
    using that 1 [of a "s_node T"] nw unfolding node_wf_def by metis
  have 3: "sy_gang y' h \<noteq> None" if A: "sy_ctx y' a = Some A" "c_gang A = Some h" for a A h
  proof -
    obtain B where "sy_ctx y a = Some B" "c_gang B = Some h" using A C by (auto simp: y' split: if_splits)
    then have "h \<in> dom (sy_gang y)" using nw by (auto simp: node_wf_def)
    then show ?thesis using g by auto
  qed
  show ?thesis using nw 2 3 unfolding node_wf_def 1 n by blast
qed

lemma detach_inv:
  assumes i: "spu_inv_but X e y" and C: "sy_ctx y c = Some C" "c_spu C = Some s" and S: "sy_spu y s = Some S" "s_ctx S = Some c"
    and y': "sy_ctx y' = (sy_ctx y)(c \<mapsto> C')" "sy_spu y' = (sy_spu y)(s \<mapsto> S')" "sy_node y' = (sy_node y)(s_node S := N')"
      "sy_prio y' = sy_prio y" "spusched_timer y' = spusched_timer y" "dom (sy_gang y') = dom (sy_gang y)"
    and N: "n_spus N' = n_spus (sy_node y (s_node S))" "nr_active N' = nr_active (sy_node y (s_node S)) - 1"
      "busy_spus N' = busy_spus (sy_node y (s_node S)) - num (is_user C)"
      "reserved_spus N' = reserved_spus (sy_node y (s_node S)) - num (is_nosched C)"
    and u: "ctx_keep C C'" "c_spu C' = None" "c_state C' = SPU_STATE_SAVED" "s_ctx S' = None" "s_node S' = s_node S"
  shows "spu_inv_but (X - {c}) e y'"
proof -
  obtain P where P: "sy_prio y = Some P" "rq_wf e y P" using i by (rule spu_inv_prio)
  note b = spu_invD(1) [OF i] and nw = spu_invD(2) [OF i] and cw = spu_invD(3) [OF i]
  have n: "n_spus (sy_node y' m) = n_spus (sy_node y m)" for m using N(1) by (simp add: y')
  have "same_by rq_view (sy_ctx y) (sy_ctx y')" using same_by_upd [of "sy_ctx y" c C rq_view C'] C(1) rq_view_keep [OF u(1)] by (simp add: y')
  then have rq: "rq_wf e y' P" using rq_wf_cong [OF P(2)] y'(5) by blast
  have nw': "node_wf e y'" by (rule node_wf_place [OF nw y'(1,2) n y'(6) C(1) _ S(1) u(5)]) (use u(1) in \<open>simp add: ctx_keep_def\<close>)
  have after: "holds y' Q s = False" and before: "holds y Q s = Q C" for Q using C S u by (simp_all add: holds_def y')
  have "spu_count y' Q m = spu_count y Q m - (if m = s_node S then num (Q C) else 0)" for Q m
    using count_change [OF y'(1,2) b nw n C(1) _ S(1), of Q m] C(2) unfolding after before by simp
  then have cw': "count_wf y'" using cw N by (simp add: count_wf_def y'(3))
  have no: "s_ctx T \<noteq> Some c" if "sy_spu y t = Some T" "t \<noteq> s" for t T using b that C unfolding bind_wf_def by (metis option.inject)
  have no2: "c_spu D \<noteq> Some s" if "sy_ctx y d = Some D" "d \<noteq> c" for d D using b that S unfolding bind_wf_def by (metis option.inject)
  have "bind_wf (X - {c}) y'" unfolding bind_wf_def
  proof (intro conjI allI impI)
    fix t T d assume t: "sy_spu y' t = Some T" "s_ctx T = Some d"
    then have "t \<noteq> s" "sy_spu y t = Some T" using u(4) by (auto simp: y' split: if_splits)
    moreover from this have "d \<noteq> c" using no t(2) by blast
    ultimately show "alloc_state T = SPU_USED" "\<exists>D. sy_ctx y' d = Some D \<and> c_spu D = Some t"
      using bind_wfD(1,2) [OF b _ t(2)] by (auto simp: y')
  next
    fix d D t assume d: "sy_ctx y' d = Some D" "c_spu D = Some t"
    then have "d \<noteq> c" "sy_ctx y d = Some D" using u(2) by (auto simp: y' split: if_splits)
    moreover from this have "t \<noteq> s" using no2 d(2) by blast
    ultimately show "\<exists>T. sy_spu y' t = Some T \<and> s_ctx T = Some d" using bind_wfD(3) [OF b _ d(2)] by (auto simp: y')
  next
    fix d D assume d: "sy_ctx y' d = Some D"
    then consider "d = c" "D = C'" | "d \<noteq> c" "sy_ctx y d = Some D" by (auto simp: y' split: if_splits)
    then show "(c_state D = SPU_STATE_RUNNABLE) = (c_spu D \<noteq> None)" "c_spu D \<noteq> None \<Longrightarrow> d \<notin> X - {c} \<Longrightarrow> time_slice D \<noteq> 0"
      using bind_wfD(4,5) [OF b] u(2,3) by (cases, simp, simp, cases, simp, simp)
  qed
  with P rq nw' cw' show ?thesis by (intro spu_invI) (auto simp: y'(4))
qed

lemma attach_inv:
  assumes i: "spu_inv_but X e y" and C: "sy_ctx y c = Some C" "c_spu C = None" and S: "sy_spu y s = Some S" "s_ctx S = None"
    and y': "sy_ctx y' = (sy_ctx y)(c \<mapsto> C')" "sy_spu y' = (sy_spu y)(s \<mapsto> S')" "sy_node y' = (sy_node y)(s_node S := N')"
      "sy_prio y' = sy_prio y" "spusched_timer y' = spusched_timer y" "sy_gang y' = sy_gang y"
    and N: "n_spus N' = n_spus (sy_node y (s_node S))" "nr_active N' = nr_active (sy_node y (s_node S)) + 1"
      "busy_spus N' = busy_spus (sy_node y (s_node S)) + 1"
      "reserved_spus N' = reserved_spus (sy_node y (s_node S)) + num (is_nosched C)"
    and u: "bound_to s c C S C' S''" "S' = S''\<lparr>alloc_state := SPU_USED\<rparr>" "time_slice C \<noteq> 0"
  shows "spu_inv_but X e y'"
proof -
  obtain P where P: "sy_prio y = Some P" "rq_wf e y P" using i by (rule spu_inv_prio)
  note b = spu_invD(1) [OF i] and nw = spu_invD(2) [OF i] and cw = spu_invD(3) [OF i]
  have k: "ctx_keep C C'" "c_spu C' = Some s" "c_state C' = SPU_STATE_RUNNABLE" "is_user C'" "s_ctx S' = Some c"
    "s_node S' = s_node S" "alloc_state S' = SPU_USED" using u by (simp_all add: bound_to_def)
  have n: "n_spus (sy_node y' m) = n_spus (sy_node y m)" for m using N(1) by (simp add: y')
  have "same_by rq_view (sy_ctx y) (sy_ctx y')" using same_by_upd [of "sy_ctx y" c C rq_view C'] C(1) rq_view_keep [OF k(1)] by (simp add: y')
  then have rq: "rq_wf e y' P" using rq_wf_cong [OF P(2)] y'(5) by blast
  have nw': "node_wf e y'" by (rule node_wf_place [OF nw y'(1,2) n _ C(1) _ S(1) k(6)]) (use k(1) in \<open>simp_all add: ctx_keep_def y'\<close>)
  have after: "holds y' Q s = Q C'" and before: "holds y Q s = False" for Q using C S k by (simp_all add: holds_def y')
  have "spu_count y' Q m = spu_count y Q m + (if m = s_node S then num (Q C') else 0)" for Q m
    using count_change [OF y'(1,2) b nw n C(1) _ S(1), of Q m] C(2) unfolding after before by simp
  moreover have "is_nosched C' = is_nosched C" using k(1) by (simp add: ctx_keep_def is_nosched_def)
  ultimately have cw': "count_wf y'" using cw N k(4) by (simp add: count_wf_def y'(3))
  have no: "s_ctx T \<noteq> Some c" if "sy_spu y t = Some T" for t T using b that C unfolding bind_wf_def by (metis option.inject option.simps(3))
  have no2: "c_spu D \<noteq> Some s" if "sy_ctx y d = Some D" for d D using b that S unfolding bind_wf_def by (metis option.inject option.simps(3))
  have "bind_wf X y'" unfolding bind_wf_def
  proof (intro conjI allI impI)
    fix t T d assume t: "sy_spu y' t = Some T" "s_ctx T = Some d"
    then consider "t = s" "T = S'" "d = c" | "t \<noteq> s" "sy_spu y t = Some T" "d \<noteq> c" using no k(5) by (fastforce simp: y' split: if_splits)
    then show "alloc_state T = SPU_USED" "\<exists>D. sy_ctx y' d = Some D \<and> c_spu D = Some t"
      using bind_wfD(1,2) [OF b _ t(2)] k(2,7) by (cases, simp, simp, cases, simp add: y', simp add: y')
  next
    fix d D t assume d: "sy_ctx y' d = Some D" "c_spu D = Some t"
    then consider "d = c" "t = s" | "d \<noteq> c" "sy_ctx y d = Some D" "t \<noteq> s" using no2 k(2) by (fastforce simp: y' split: if_splits)
    then show "\<exists>T. sy_spu y' t = Some T \<and> s_ctx T = Some d" using bind_wfD(3) [OF b _ d(2)] k(5) by cases (simp_all add: y')
  next
    fix d D assume d: "sy_ctx y' d = Some D"
    then consider "d = c" "D = C'" | "d \<noteq> c" "sy_ctx y d = Some D" by (auto simp: y' split: if_splits)
    then show "(c_state D = SPU_STATE_RUNNABLE) = (c_spu D \<noteq> None)" "c_spu D \<noteq> None \<Longrightarrow> d \<notin> X \<Longrightarrow> time_slice D \<noteq> 0"
      using bind_wfD(4,5) [OF b] k(1-3) u(3) unfolding ctx_keep_def by (cases, simp, simp, cases, simp, simp)
  qed
  with P rq nw' cw' show ?thesis by (intro spu_invI) (auto simp: y'(4))
qed

end
