(* ===== verification/Spu_Correct.thy ===== *)
theory Spu_Correct
  imports Spu_Place
begin

text \<open>
  What the composed operations of the SPU scheduler do: taking a context off its SPU, scheduling one on a
  free SPU, choosing an idle SPU, a context to preempt and a context to run.
\<close>

section \<open>Unscheduling and scheduling\<close>

definition off_spu :: "spu_context \<Rightarrow> spu_context \<Rightarrow> bool" where
  "off_spu C C' \<longleftrightarrow> ctx_keep C C' \<and> c_spu C' = None \<and> c_state C' = SPU_STATE_SAVED"

lemma unschedule_ok:
  assumes i: "spu_inv_but X e y" and C: "sy_ctx y c = Some C" "c_spu C = Some s"
  shows "\<exists>y' C' S S'. sy_spu y s = Some S \<and> spu_unschedule e s c f y = Some y' \<and> spu_inv_but (X - {c}) e y' \<and>
     sy_ctx y' = (sy_ctx y)(c \<mapsto> C') \<and> sy_spu y' = (sy_spu y)(s \<mapsto> S') \<and> sy_prio y' = sy_prio y \<and> off_spu C C' \<and>
     s_ctx S' = None \<and> s_node S' = s_node S \<and> alloc_state S' = (if f then SPU_FREE else SPU_USED)"
proof -
  obtain S where S: "sy_spu y s = Some S" "s_ctx S = Some c" using bind_wfD(3) [OF spu_invD(1) [OF i] C] by blast
  have used: "alloc_state S = SPU_USED" by (rule bind_wfD(1) [OF spu_invD(1) [OF i] S])
  let ?n = "s_node S"
  let ?S = "if f then S\<lparr>alloc_state := SPU_FREE\<rparr> else S"
  define z where "z = y\<lparr>sy_node := (sy_node y)(?n := (sy_node y ?n)\<lparr>nr_active := nr_active (sy_node y ?n) - 1\<rparr>),
     sy_spu := (sy_spu y)(s \<mapsto> ?S)\<rparr>"
  have g: "\<And>g. c_gang C = Some g \<Longrightarrow> sy_gang z g \<noteq> None" using spu_invD(2) [OF i] C(1) by (auto simp: z_def node_wf_def)
  have "sy_ctx z c = Some C" "sy_spu z s = Some ?S" "s_ctx ?S = Some c" "s_node ?S = ?n" using C S by (simp_all add: z_def)
  from unbind_eq [OF this(1) C(2) this(2,3) g, of e] this(4) obtain C' S' G t ev where
    b: "spu_unbind_context e s c z = Some (z\<lparr>sy_ctx := (sy_ctx z)(c \<mapsto> C'), sy_spu := (sy_spu z)(s \<mapsto> S'),
       sy_node := (sy_node z)(?n := (sy_node z ?n)\<lparr>busy_spus := busy_spus (sy_node z ?n) - num (is_user C),
         reserved_spus := reserved_spus (sy_node z ?n) - num (is_nosched C)\<rparr>),
       sy_gang := G, sy_tick := t, sy_events := ev\<rparr>)" and u: "unbound C ?S C' S'" and G: "dom G = dom (sy_gang z)" by auto
  let ?C' = "C'\<lparr>c_stats := (c_stats C')\<lparr>st_invol := st_invol (c_stats C') + 1\<rparr>\<rparr>"
  let ?S' = "S'\<lparr>s_stats := (s_stats S')\<lparr>st_invol := st_invol (s_stats S') + 1\<rparr>\<rparr>"
  let ?N = "(sy_node y ?n)\<lparr>nr_active := nr_active (sy_node y ?n) - 1, busy_spus := busy_spus (sy_node y ?n) - num (is_user C),
     reserved_spus := reserved_spus (sy_node y ?n) - num (is_nosched C)\<rparr>"
  let ?y = "y\<lparr>sy_ctx := (sy_ctx y)(c \<mapsto> ?C'), sy_spu := (sy_spu y)(s \<mapsto> ?S'), sy_node := (sy_node y)(?n := ?N), sy_gang := G,
     sy_tick := t, sy_events := ev\<rparr>"
  have z: "(if f then spu_upd (node_upd y ?n (\<lambda>N. N\<lparr>nr_active := nr_active N - 1\<rparr>)) s (\<lambda>S. S\<lparr>alloc_state := SPU_FREE\<rparr>)
     else Some (node_upd y ?n (\<lambda>N. N\<lparr>nr_active := nr_active N - 1\<rparr>))) = Some z"
    using S(1) by (cases y) (simp add: z_def spu_upd_def node_upd_def fun_upd_idem)
  have "spu_unschedule e s c f y = Option.bind (spu_unbind_context e s c z) (\<lambda>y3.
     Option.bind (ctx_upd y3 c (\<lambda>C. C\<lparr>c_stats := (c_stats C)\<lparr>st_invol := st_invol (c_stats C) + 1\<rparr>\<rparr>)) (\<lambda>y4.
       spu_upd y4 s (\<lambda>S. S\<lparr>s_stats := (s_stats S)\<lparr>st_invol := st_invol (s_stats S) + 1\<rparr>\<rparr>)))"
    using z by (simp add: spu_unschedule_def Let_def S(1))
  then have r: "spu_unschedule e s c f y = Some ?y"
    unfolding b by (cases y) (simp add: ctx_upd_def spu_upd_def z_def)
  have k: "ctx_keep C ?C'" "c_spu ?C' = None" "c_state ?C' = SPU_STATE_SAVED" "s_ctx ?S' = None" "s_node ?S' = s_node S"
    "alloc_state ?S' = (if f then SPU_FREE else SPU_USED)" using u used by (auto simp: unbound_def ctx_keep_def)
  have "spu_inv_but (X - {c}) e ?y"
    by (rule detach_inv [OF i C S, where C' = ?C' and S' = ?S' and N' = ?N]) (use k G in \<open>auto simp: z_def\<close>)
  with r S k show ?thesis unfolding off_spu_def by fastforce
qed

definition on_spu :: "spu_env \<Rightarrow> saddr \<Rightarrow> spu_context \<Rightarrow> spu_context \<Rightarrow> bool" where
  "on_spu e s C C' \<longleftrightarrow> c_rq C' = c_rq C \<and> c_prio C' = c_prio C \<and> c_flags C' = c_flags C \<and> sched_flags C' = sched_flags C \<and>
     c_kref C' = c_kref C \<and> c_spu C' = Some s \<and> c_state C' = SPU_STATE_RUNNABLE \<and> uint (time_slice C') = slice e (c_prio C)"

lemma schedule_ok:
  assumes i: "spu_inv_but X e y" and pc: "prio_consts e" and C: "sy_ctx y c = Some C" "c_spu C = None"
    and S: "sy_spu y s = Some S" "s_ctx S = None"
  shows "\<exists>y' C' S'. spu_schedule_locked e s c y = Some y' \<and> spu_inv_but (X - {c}) e y' \<and>
     sy_ctx y' = (sy_ctx y)(c \<mapsto> C') \<and> sy_spu y' = (sy_spu y)(s \<mapsto> S') \<and> sy_prio y' = sy_prio y \<and> on_spu e s C C' \<and>
     s_ctx S' = Some c \<and> alloc_state S' = SPU_USED"
proof -
  let ?n = "s_node S" and ?D = "C\<lparr>time_slice := word_of_int (slice e (c_prio C))\<rparr>"
  define z where "z = y\<lparr>sy_ctx := (sy_ctx y)(c \<mapsto> ?D)\<rparr>"
  have iz: "spu_inv_but (X - {c}) e z" unfolding z_def by (rule slice_inv [OF i C(1) slice_word(1) [OF pc]])
  have zc: "sy_ctx z c = Some ?D" "c_spu ?D = None" and zs: "sy_spu z s = Some S" using C S by (simp_all add: z_def)
  from bind_eq [OF zc zs, of e] obtain C' S' t ev where b: "spu_bind_context e s c z = Some (z\<lparr>sy_ctx := (sy_ctx z)(c \<mapsto> C'),
       sy_spu := (sy_spu z)(s \<mapsto> S'), sy_node := (sy_node z)(?n := (sy_node z ?n)\<lparr>
         reserved_spus := reserved_spus (sy_node z ?n) + num (is_nosched ?D), busy_spus := busy_spus (sy_node z ?n) + 1\<rparr>),
       sy_tick := t, sy_events := ev\<rparr>)" and u: "bound_to s c ?D S C' S'" by blast
  let ?N = "(sy_node z ?n)\<lparr>reserved_spus := reserved_spus (sy_node z ?n) + num (is_nosched ?D),
     busy_spus := busy_spus (sy_node z ?n) + 1, nr_active := nr_active (sy_node z ?n) + 1\<rparr>"
  let ?S' = "S'\<lparr>alloc_state := SPU_USED\<rparr>"
  let ?y = "z\<lparr>sy_ctx := (sy_ctx z)(c \<mapsto> C'), sy_spu := (sy_spu z)(s \<mapsto> ?S'), sy_node := (sy_node z)(?n := ?N), sy_tick := t,
     sy_events := ev @ [WakeRunAll c]\<rparr>"
  have r: "spu_schedule_locked e s c y = Some ?y"
    using S b spu_set_timeslice_eq [OF C(1), of e, folded z_def]
    by (cases z) (simp add: spu_schedule_locked_def Let_def spu_upd_def node_upd_def spu_log_def)
  have "spu_inv_but (X - {c}) e ?y"
    by (rule attach_inv [OF iz zc zs S(2), where C' = C' and S' = ?S' and S'' = S' and N' = ?N])
      (use u slice_word(1) [OF pc] in auto)
  moreover have "on_spu e s C C'" using u slice_word(2) [OF pc] by (simp add: on_spu_def bound_to_def ctx_keep_def)
  moreover have "s_ctx ?S' = Some c" using u by (simp add: bound_to_def)
  ultimately show ?thesis using r by (intro exI [of _ ?y] exI [of _ C'] exI [of _ ?S']) (simp add: z_def)
qed

lemma inv_drop: "spu_inv_but (X - {c}) e y \<Longrightarrow> spu_inv_but X e y"
  unfolding spu_inv_but_def bind_wf_def by blast

lemma spu_schedule_inv:
  assumes i: "spu_inv e y" and pc: "prio_consts e" and r: "spu_schedule_locked e s c y = Some y'"
    and C: "sy_ctx y c = Some C" "c_spu C = None"
  shows "spu_inv e y'"
proof -
  obtain S where S: "sy_spu y s = Some S" using r by (auto simp: spu_schedule_locked_def bind_eq_Some_conv)
  show ?thesis
  proof (cases "s_ctx S = None")
    case True
    from schedule_ok [OF i pc C S True] r show ?thesis by auto
  next
    case False
    have "spu_inv e (y\<lparr>sy_ctx := (sy_ctx y)(c \<mapsto> C\<lparr>time_slice := word_of_int (slice e (c_prio C))\<rparr>)\<rparr>)"
      using slice_inv [OF i C(1) slice_word(1) [OF pc]] by simp
    with spu_add_to_rq_inv [OF this] r S False show ?thesis
      by (auto simp: spu_schedule_locked_def spu_set_timeslice_eq [OF C(1)] spu_add_to_rq_def)
  qed
qed

lemma spu_schedule_saved_inv:
  assumes i: "spu_inv e y" and pc: "prio_consts e" and r: "spu_schedule e s c y = Some y'"
  shows "spu_inv e y'"
proof -
  obtain C where C: "sy_ctx y c = Some C" using r by (auto simp: spu_schedule_def bind_eq_Some_conv)
  show ?thesis
  proof (cases "c_state C = SPU_STATE_SAVED")
    case True
    then have "c_spu C = None" using bind_wfD(4) [OF spu_invD(1) [OF i] C] by auto
    with spu_schedule_inv [OF i pc _ C] r C True show ?thesis by (simp add: spu_schedule_def)
  qed (use r i C in \<open>auto simp: spu_schedule_def\<close>)
qed

section \<open>The contexts that wait\<close>

text \<open>The contexts on the queues below a priority that may run on a node, most urgent first.\<close>

definition waiting :: "spu_env \<Rightarrow> nat \<Rightarrow> nat \<Rightarrow> nat \<Rightarrow> spu_prio_array \<Rightarrow> spu_sys \<Rightarrow> caddr list" where
  "waiting e node lo hi P y = filter (\<lambda>c. \<exists>C. sy_ctx y c = Some C \<and> node_allowed e C node) (concat (map (runq P) [lo..<hi]))"

lemma find_m_pure: "(\<And>x. x \<in> set l \<Longrightarrow> f x = Some (Q x)) \<Longrightarrow> find_m f l = Some (find Q l)"
  by (induction l) auto

lemma grab_from_eq:
  assumes wf: "rq_wf e y P" and P: "sy_prio y = Some P"
  shows "lo + n \<le> MAX_PRIO e \<Longrightarrow> grab_from e node lo n y = (case waiting e node lo (lo + n) P y of [] \<Rightarrow> Some (None, y)
     | c # _ \<Rightarrow> Option.bind (spu_del_from_rq_locked e c y) (\<lambda>y'. Some (Some c, y')))"
proof (induction n arbitrary: lo)
  case (Suc n)
  let ?Q = "\<lambda>c. \<exists>C. sy_ctx y c = Some C \<and> node_allowed e C node"
  have "Option.bind (sy_ctx y c) (\<lambda>C. Some (node_allowed e C node)) = Some (?Q c)" if "c \<in> set (runq P lo)" for c
    using that rq_wf_at(2) [OF wf, of c lo] by auto
  then have f: "find_m (\<lambda>c. Option.bind (sy_ctx y c) (\<lambda>C. Some (node_allowed e C node))) (runq P lo) = Some (find ?Q (runq P lo))"
    by (rule find_m_pure)
  have w: "waiting e node lo (lo + Suc n) P y = filter ?Q (runq P lo) @ waiting e node (Suc lo) (Suc lo + n) P y"
    using upt_conv_Cons [of lo "lo + Suc n"] by (simp add: waiting_def del: upt_Suc)
  have lo: "lo < MAX_PRIO e" using Suc.prems by simp
  show ?case
  proof (cases "filter ?Q (runq P lo)")
    case Nil
    then have "find ?Q (runq P lo) = None" by (simp add: find_filter)
    then show ?thesis using Suc P lo f Nil w by simp
  next
    case (Cons c cs)
    then have "find ?Q (runq P lo) = Some c" by (simp add: find_filter)
    then show ?thesis using P lo f Cons w by simp
  qed
qed (simp add: waiting_def)

lemma grab_eq:
  assumes wf: "rq_wf e y P" and P: "sy_prio y = Some P" and prio: "prio \<le> MAX_PRIO e"
  shows "grab_runnable_context e prio node y = Some (case waiting e node 0 prio P y of [] \<Rightarrow> (None, y)
     | c # _ \<Rightarrow> (Some c, dequeued c (the (sy_ctx y c)) P y))"
proof -
  define best where "best = find_first_bit (bitmap P) prio"
  have le: "best \<le> prio" unfolding best_def find_first_bit_def by (auto simp: find_Some_iff split: option.splits)
  have low: "\<not> bitmap P p" if "p < best" for p
    using that unfolding best_def find_first_bit_def
    by (auto simp: find_Some_iff find_None_iff split: option.splits)
  then have "runq P p = []" if "p < best" for p using that rq_wf_at(4) [OF wf, of p] by blast
  then have "concat (map (runq P) [0..<best]) = []" by (simp add: concat_eq_Nil_conv)
  moreover have "[0..<prio] = [0..<best] @ [best..<prio]" using le upt_add_eq_append [of 0 best "prio - best"] by simp
  ultimately have w: "waiting e node best prio P y = waiting e node 0 prio P y" by (simp add: waiting_def)
  have g: "grab_runnable_context e prio node y = (case waiting e node 0 prio P y of [] \<Rightarrow> Some (None, y)
     | c # _ \<Rightarrow> Option.bind (spu_del_from_rq_locked e c y) (\<lambda>y'. Some (Some c, y')))"
    using grab_from_eq [OF wf P, of best "prio - best" node] le prio P w
    by (simp add: grab_runnable_context_def Let_def best_def [symmetric])
  show ?thesis
  proof (cases "waiting e node 0 prio P y")
    case (Cons c cs)
    then have "c \<in> set (waiting e node 0 prio P y)" by simp
    then obtain p where "c \<in> set (runq P p)" by (auto simp: waiting_def)
    then obtain C where C: "sy_ctx y c = Some C" "c_rq C \<noteq> None" using rq_wf_at(2) [OF wf] by auto
    with spu_del_from_rq_eq [OF wf P C(1)] g Cons show ?thesis by simp
  qed (simp add: g)
qed

lemma find_m_mem: "find_m f l = Some (Some x) \<Longrightarrow> x \<in> set l"
  by (induction l) (auto simp: bind_eq_Some_conv split: if_splits)

lemma grab_from_cases:
  assumes wf: "rq_wf e y P" and P: "sy_prio y = Some P" and r: "grab_from e node lo n y = Some (new, y')"
  shows "new = None \<and> y' = y \<or> (\<exists>d D. new = Some d \<and> sy_ctx y d = Some D \<and> c_rq D \<noteq> None \<and> y' = dequeued d D P y)"
  using r
proof (induction n arbitrary: lo)
  case (Suc n)
  then obtain f where f: "find_m (\<lambda>c. do { C \<leftarrow> sy_ctx y c; Some (node_allowed e C node) }) (runq P lo) = Some f"
    "(case f of Some c \<Rightarrow> do { y1 \<leftarrow> spu_del_from_rq_locked e c y; Some (Some c, y1) }
       | None \<Rightarrow> grab_from e node (Suc lo) n y) = Some (new, y')"
    using P by (auto simp: bind_eq_Some_conv split: if_splits)
  show ?case
  proof (cases f)
    case (Some d)
    then have "d \<in> set (runq P lo)" using find_m_mem [of _ "runq P lo" d] f(1) by simp
    then obtain D where D: "sy_ctx y d = Some D" "c_rq D \<noteq> None" using rq_wf_at(2) [OF wf] by auto
    then show ?thesis using f(2) Some spu_del_from_rq_eq [OF wf P D(1)] by auto
  qed (use f(2) Suc.IH in simp)
qed simp

lemma grab_inv:
  assumes i: "spu_inv_but X e y" and r: "grab_runnable_context e prio node y = Some (new, y')"
  shows "spu_inv_but X e y'" and "\<exists>P. sy_prio y = Some P \<and>
     (new = None \<and> y' = y \<or> (\<exists>d D. new = Some d \<and> sy_ctx y d = Some D \<and> c_rq D \<noteq> None \<and> y' = dequeued d D P y))"
proof -
  obtain P where P: "sy_prio y = Some P" "rq_wf e y P" using i by (rule spu_inv_prio)
  from r have "grab_from e node (find_first_bit (bitmap P) prio) (prio - find_first_bit (bitmap P) prio) y = Some (new, y')"
    by (simp add: grab_runnable_context_def P(1) Let_def)
  from grab_from_cases [OF P(2,1) this] P(1) show "\<exists>P. sy_prio y = Some P \<and>
     (new = None \<and> y' = y \<or> (\<exists>d D. new = Some d \<and> sy_ctx y d = Some D \<and> c_rq D \<noteq> None \<and> y' = dequeued d D P y))" by simp
  then show "spu_inv_but X e y'" using i dequeued_inv [OF i] by auto
qed

end
