(* ===== verification/Spu_Choice.thy ===== *)
theory Spu_Choice
  imports Spu_Correct
begin

text \<open>
  The choices of the SPU scheduler: the order in which the nodes are visited, the idle SPU that
  \<^verbatim>\<open>spu_get_idle\<close> finds and the context that \<^verbatim>\<open>find_victim\<close> preempts.
\<close>

section \<open>Nodes\<close>

primrec visits :: "spu_env \<Rightarrow> nat \<Rightarrow> nat \<Rightarrow> nat list" where
  "visits e 0 k = []"
| "visits e (Suc n) k = wrap_node e k # visits e n (Suc (wrap_node e k))"

lemma visits_eq:
  assumes M: "0 < MAX_NUMNODES e"
  shows "k \<le> MAX_NUMNODES e \<Longrightarrow> visits e n k = map (\<lambda>i. (k + i) mod MAX_NUMNODES e) [0..<n]"
proof (induction n arbitrary: k)
  case (Suc n)
  have w: "wrap_node e k = k mod MAX_NUMNODES e" using Suc.prems M by (simp add: wrap_node_def le_mod_geq)
  then have lt: "wrap_node e k < MAX_NUMNODES e" using M by simp
  have "visits e (Suc n) k = wrap_node e k # map (\<lambda>i. (Suc (wrap_node e k) + i) mod MAX_NUMNODES e) [0..<n]"
    using Suc.IH [of "Suc (wrap_node e k)"] lt by simp
  also have "\<dots> = map (\<lambda>i. (k + i) mod MAX_NUMNODES e) (0 # map Suc [0..<n])"
    using w by (auto simp: mod_Suc_eq mod_add_left_eq) (metis mod_Suc_eq mod_add_left_eq)+
  also have "0 # map Suc [0..<n] = [0..<Suc n]" by (simp add: map_Suc_upt upt_conv_Cons del: upt_Suc)
  finally show ?case .
qed simp

lemma visits_all:
  assumes "cpu_node e < MAX_NUMNODES e"
  shows "set (visits e (MAX_NUMNODES e) (cpu_node e)) = {..<MAX_NUMNODES e}"
proof -
  let ?M = "MAX_NUMNODES e"
  have "j \<in> (\<lambda>i. (cpu_node e + i) mod ?M) ` {0..<?M}" if "j < ?M" for j
  proof
    let ?i = "(j + (?M - cpu_node e)) mod ?M"
    have "(cpu_node e + ?i) mod ?M = (cpu_node e + (j + (?M - cpu_node e))) mod ?M" by (simp add: mod_add_right_eq)
    also have "\<dots> = j" using assms that by simp
    finally show "j = (cpu_node e + ?i) mod ?M" ..
    show "?i \<in> {0..<?M}" using assms by simp
  qed
  then show ?thesis using visits_eq [of e "cpu_node e" ?M] assms by auto
qed

section \<open>Idle SPUs\<close>

definition is_free :: "spu_sys \<Rightarrow> saddr \<Rightarrow> bool" where
  "is_free y s \<longleftrightarrow> (\<exists>S. sy_spu y s = Some S \<and> alloc_state S = SPU_FREE)"

text \<open>The SPUs that a context may use, in the order of the search.\<close>

definition usable :: "spu_env \<Rightarrow> spu_context \<Rightarrow> nat list \<Rightarrow> spu_sys \<Rightarrow> saddr list" where
  "usable e C ns y = concat (map (\<lambda>node. if node_allowed e C node then n_spus (sy_node y node) else []) ns)"

lemma node_wf_spu: "node_wf e y \<Longrightarrow> s \<in> set (n_spus (sy_node y n)) \<Longrightarrow> \<exists>S. sy_spu y s = Some S \<and> s_node S = n"
  by (simp add: node_wf_def)

lemma find_append: "find Q (xs @ ys) = (case find Q xs of Some x \<Rightarrow> Some x | None \<Rightarrow> find Q ys)"
  by (induction xs) auto

lemma idle_nodes_eq:
  assumes nw: "node_wf e y" and C: "sy_ctx y c = Some C"
  shows "idle_nodes e c n k y = Some (find (is_free y) (usable e C (visits e n k) y))"
proof (induction n arbitrary: k)
  case (Suc n)
  let ?l = "n_spus (sy_node y (wrap_node e k))"
  have "Option.bind (sy_spu y s) (\<lambda>S. Some (alloc_state S = SPU_FREE)) = Some (is_free y s)" if "s \<in> set ?l" for s
    using node_wf_spu [OF nw that] by (auto simp: is_free_def)
  then have "find_m (\<lambda>s. Option.bind (sy_spu y s) (\<lambda>S. Some (alloc_state S = SPU_FREE))) ?l = Some (find (is_free y) ?l)"
    by (rule find_m_pure)
  then show ?case using Suc C by (simp add: usable_def find_append Let_def split: option.splits)
qed (simp add: usable_def)

lemma idle_found_inv:
  assumes i: "spu_inv e y" and r: "idle_found s y = Some (r', y')"
  shows "spu_inv e y'"
proof -
  obtain S where S: "sy_spu y s = Some S" and y': "y' = spu_log (InitChannels s) (y\<lparr>sy_spu := (sy_spu y)(s \<mapsto> S\<lparr>alloc_state := SPU_USED\<rparr>)\<rparr>)"
    using r by (auto simp: idle_found_def spu_upd_def bind_eq_Some_conv split: option.splits)
  let ?z = "y\<lparr>sy_spu := (sy_spu y)(s \<mapsto> S\<lparr>alloc_state := SPU_USED\<rparr>)\<rparr>"
  obtain P where P: "sy_prio y = Some P" "rq_wf e y P" using i by (rule spu_inv_prio)
  note b = spu_invD(1) [OF i] and nw = spu_invD(2) [OF i] and cw = spu_invD(3) [OF i]
  have "holds ?z Q t = holds y Q t" for Q t using S by (auto simp: holds_def split: option.splits)
  then have "holds ?z Q = holds y Q" for Q by blast
  then have "count_wf ?z" using cw by (simp add: count_wf_def spu_count_def)
  moreover have "rq_wf e ?z P" by (rule rq_wf_cong [OF P(2)]) simp_all
  moreover have "node_wf e ?z"
  proof -
    have "(\<exists>T. sy_spu ?z t = Some T \<and> s_node T = m) \<longleftrightarrow> (\<exists>T. sy_spu y t = Some T \<and> s_node T = m)" for t m using S by auto
    then show ?thesis using nw S unfolding node_wf_def by (auto split: if_splits)
  qed
  moreover have "bind_wf {} ?z" unfolding bind_wf_def
  proof (intro conjI allI impI)
    fix t T d assume "sy_spu ?z t = Some T" "s_ctx T = Some d"
    then obtain T' where "sy_spu y t = Some T'" "s_ctx T' = Some d" "alloc_state T = SPU_USED \<or> T = T'" using S by (auto split: if_splits)
    with bind_wfD(1,2) [OF b this(1,2)] show "alloc_state T = SPU_USED" "\<exists>D. sy_ctx ?z d = Some D \<and> c_spu D = Some t" by auto
  next
    fix d D t assume "sy_ctx ?z d = Some D" "c_spu D = Some t"
    with bind_wfD(3) [OF b, of d D t] S show "\<exists>T. sy_spu ?z t = Some T \<and> s_ctx T = Some d" by auto
  qed (use bind_wfD(4,5) [OF b] in simp_all)
  ultimately have "spu_inv e ?z" using P(1) by (intro spu_invI) auto
  then show ?thesis unfolding y' by (rule quiet_inv [OF quiet_log])
qed

section \<open>Preemption\<close>

definition candidate :: "nat \<Rightarrow> spu_sys \<Rightarrow> saddr \<Rightarrow> caddr \<Rightarrow> spu_context \<Rightarrow> bool" where
  "candidate prio y s t T \<longleftrightarrow> (\<exists>S. sy_spu y s = Some S \<and> s_ctx S = Some t) \<and> sy_ctx y t = Some T \<and> prio < c_prio T \<and>
     SPU_CREATE_NOSCHED \<notin> c_flags T"

text \<open>The result of the search for a victim, from the candidate \<open>v0\<close> on.\<close>

definition picked :: "nat \<Rightarrow> spu_sys \<Rightarrow> caddr option \<Rightarrow> saddr list \<Rightarrow> caddr option \<Rightarrow> bool" where
  "picked prio y v0 ss v \<longleftrightarrow> (case v of
       None \<Rightarrow> v0 = None \<and> (\<forall>s \<in> set ss. \<forall>t T. \<not> candidate prio y s t T)
     | Some t \<Rightarrow> (\<exists>T. sy_ctx y t = Some T \<and> (v0 = Some t \<or> (\<exists>s \<in> set ss. candidate prio y s t T)) \<and>
        (\<forall>w W. v0 = Some w \<longrightarrow> sy_ctx y w = Some W \<longrightarrow> c_prio W \<le> c_prio T) \<and>
        (\<forall>s \<in> set ss. \<forall>u U. candidate prio y s u U \<longrightarrow> c_prio U \<le> c_prio T)))"

lemma pick_victim_ok:
  assumes "\<And>s. s \<in> set ss \<Longrightarrow> \<exists>S. sy_spu y s = Some S \<and> (\<forall>t. s_ctx S = Some t \<longrightarrow> sy_ctx y t \<noteq> None)"
    and "\<And>w. v0 = Some w \<Longrightarrow> sy_ctx y w \<noteq> None"
  shows "\<exists>v. pick_victim prio y v0 ss = Some v \<and> picked prio y v0 ss v"
  using assms
proof (induction ss arbitrary: v0)
  case (Cons s ss)
  obtain S where S: "sy_spu y s = Some S" "\<And>t. s_ctx S = Some t \<Longrightarrow> sy_ctx y t \<noteq> None" using Cons.prems(1) by force
  have only: "candidate prio y s t T \<longleftrightarrow> s_ctx S = Some t \<and> sy_ctx y t = Some T \<and> prio < c_prio T \<and> SPU_CREATE_NOSCHED \<notin> c_flags T" for t T
    using S(1) by (simp add: candidate_def)
  have rest: "\<And>s. s \<in> set ss \<Longrightarrow> \<exists>S. sy_spu y s = Some S \<and> (\<forall>t. s_ctx S = Some t \<longrightarrow> sy_ctx y t \<noteq> None)" using Cons.prems(1) by simp
  show ?case
  proof (cases "\<exists>t T. candidate prio y s t T")
    case False
    have "pick_victim prio y v0 (s # ss) = pick_victim prio y v0 ss"
      using S False only by (cases "s_ctx S") auto
    moreover have "picked prio y v0 (s # ss) v = picked prio y v0 ss v" for v
      using False by (simp add: picked_def split: option.splits)
    ultimately show ?thesis using Cons.IH [OF rest Cons.prems(2)] by simp
  next
    case True
    then obtain t T where t: "candidate prio y s t T" by blast
    then have st: "s_ctx S = Some t" "sy_ctx y t = Some T" "prio < c_prio T" "SPU_CREATE_NOSCHED \<notin> c_flags T" using only by auto
    have uniq: "u = t \<and> U = T" if "candidate prio y s u U" for u U using that t only by auto
    define v1 where "v1 = (case v0 of None \<Rightarrow> Some t | Some w \<Rightarrow> if c_prio (the (sy_ctx y w)) < c_prio T then Some t else Some w)"
    have p: "pick_victim prio y v0 (s # ss) = pick_victim prio y v1 ss"
      using S(1) st Cons.prems(2) by (auto simp: v1_def split: option.splits)
    have v1: "\<And>w. v1 = Some w \<Longrightarrow> sy_ctx y w \<noteq> None" using st Cons.prems(2) by (auto simp: v1_def split: option.splits if_splits)
    have ne: "v1 \<noteq> None" by (simp add: v1_def split: option.splits)
    then obtain w W where w: "v1 = Some w" "sy_ctx y w = Some W" using v1 by blast
    have ge: "c_prio T \<le> c_prio W" "\<And>x X. v0 = Some x \<Longrightarrow> sy_ctx y x = Some X \<Longrightarrow> c_prio X \<le> c_prio W" "v0 = Some w \<or> w = t"
      using w st Cons.prems(2) by (auto simp: v1_def split: option.splits if_splits)
    obtain v where v: "pick_victim prio y v1 ss = Some v" "picked prio y v1 ss v" using Cons.IH [OF rest v1] by blast
    obtain a A where a: "v = Some a" "sy_ctx y a = Some A" "w = a \<or> (\<exists>s \<in> set ss. candidate prio y s a A)" "c_prio W \<le> c_prio A"
      "\<forall>s \<in> set ss. \<forall>u U. candidate prio y s u U \<longrightarrow> c_prio U \<le> c_prio A"
      using v(2) w by (cases v) (auto simp: picked_def)
    have "v0 = Some a \<or> (\<exists>x \<in> set (s # ss). candidate prio y x a A)" using a(2,3) ge(3) t st(2) by auto
    moreover have "c_prio X \<le> c_prio A" if "v0 = Some x" "sy_ctx y x = Some X" for x X using ge(2) [OF that] a(4) by simp
    moreover have "\<forall>x \<in> set (s # ss). \<forall>u U. candidate prio y x u U \<longrightarrow> c_prio U \<le> c_prio A"
      using a(4,5) ge(1) uniq by (auto dest: uniq)
    ultimately show ?thesis using p v(1) a(1,2) by (auto simp: picked_def)
  qed
next
  case Nil
  then show ?case by (cases v0) (auto simp: picked_def)
qed

definition sane_ctxs :: "spu_env \<Rightarrow> spu_sys \<Rightarrow> bool" where
  "sane_ctxs e y \<longleftrightarrow> (\<forall>c C. sy_ctx y c = Some C \<longrightarrow> 0 < c_kref C \<and> c_prio C < MAX_PRIO e)"

text \<open>
  The context \<open>v\<close> has been taken off the SPU \<open>s\<close> and waits in the run queue if its thread is in \<^verbatim>\<open>spu_run\<close>; all
  other contexts and SPUs are as before.
\<close>

definition preempted :: "spu_sys \<Rightarrow> saddr \<Rightarrow> caddr \<Rightarrow> spu_context \<Rightarrow> spu_sys \<Rightarrow> bool" where
  "preempted y s v V y' \<longleftrightarrow>
     (\<exists>S'. sy_spu y' s = Some S' \<and> s_ctx S' = None \<and> alloc_state S' = SPU_USED) \<and>
     (\<exists>V'. sy_ctx y' v = Some V' \<and> c_spu V' = None \<and> c_state V' = SPU_STATE_SAVED \<and> c_prio V' = c_prio V \<and>
       (c_rq V' \<noteq> None \<longleftrightarrow> c_rq V \<noteq> None \<or> SPU_SCHED_SPU_RUN \<in> sched_flags V)) \<and>
     (\<forall>d. d \<noteq> v \<longrightarrow> sy_ctx y' d = sy_ctx y d) \<and> (\<forall>t. t \<noteq> s \<longrightarrow> sy_spu y' t = sy_spu y t)"

lemma put_spu_context_eq:
  assumes "sy_ctx y c = Some C" and "0 < c_kref C"
  shows "\<exists>ev. put_spu_context c y = Some (y\<lparr>sy_ctx := (sy_ctx y)(c \<mapsto> C\<lparr>c_kref := c_kref C - 1\<rparr>), sy_events := ev\<rparr>)"
  using assms by (cases y) (auto simp: put_spu_context_def ctx_upd_def spu_log_def intro!: exI)

lemma preempt_unschedule:
  assumes C: "sy_ctx y c = Some C" and V: "sy_ctx y v = Some V" "c_spu V = Some s" and S: "sy_spu y s = Some S"
    and p: "c_prio C < c_prio V" and l: "mutex_trylock e (sy_tick y) v"
  shows "preempt e c v (s_node S) y = Option.bind (spu_unschedule e s v False (spu_tick y)) (\<lambda>y4.
     Option.bind (sy_ctx y4 v) (\<lambda>W. Option.bind (if SPU_SCHED_SPU_RUN \<in> sched_flags W then spu_add_to_rq e v y4 else Some y4) (\<lambda>y5.
       Option.bind (put_spu_context v y5) (\<lambda>y6. Some (Found s, y6)))))"
  using assms by (simp add: preempt_def spu_unschedule_def spu_tick_def Let_def not_le [symmetric] bind_assoc)

lemma preempt_ok:
  assumes i: "spu_inv e y" and C: "sy_ctx y c = Some C" and V: "sy_ctx y v = Some V" "c_spu V = Some s" "0 < c_kref V" "c_prio V < MAX_PRIO e"
    and S: "sy_spu y s = Some S" and p: "c_prio C < c_prio V" and l: "mutex_trylock e (sy_tick y) v"
  shows "\<exists>y'. preempt e c v (s_node S) y = Some (Found s, y') \<and> spu_inv e y' \<and> preempted y s v V y'"
proof -
  have "spu_inv e (spu_tick y)" by (rule quiet_inv [OF quiet_tick i])
  from unschedule_ok [OF this _ V(2), of v False] V(1) obtain y4 V' S' where
    u: "spu_unschedule e s v False (spu_tick y) = Some y4" "spu_inv e y4" "sy_ctx y4 = (sy_ctx y)(v \<mapsto> V')"
      "sy_spu y4 = (sy_spu y)(s \<mapsto> S')" "off_spu V V'" "s_ctx S' = None" "alloc_state S' = SPU_USED"
    by (auto simp: spu_tick_def)
  obtain P where P: "sy_prio y4 = Some P" using u(2) by (rule spu_inv_prio)
  have k: "ctx_keep V V'" "c_spu V' = None" "c_state V' = SPU_STATE_SAVED" using u(5) by (auto simp: off_spu_def)
  have v4: "sy_ctx y4 v = Some V'" "c_prio V' < MAX_PRIO e" using u(3) V(4) k(1) by (simp_all add: ctx_keep_def)
  define y5 where "y5 = (if SPU_SCHED_SPU_RUN \<in> sched_flags V \<and> c_rq V = None then queued e v V' P y4 else y4)"
  have add: "(if SPU_SCHED_SPU_RUN \<in> sched_flags V' then spu_add_to_rq e v y4 else Some y4) = Some y5"
    using spu_add_to_rq_eq [OF v4(1) P v4(2)] k(1) by (simp add: spu_add_to_rq_def y5_def ctx_keep_def)
  have i5: "spu_inv e y5" using u(2) queued_inv [OF u(2) v4(1) _ v4(2) P] k(1) by (simp add: y5_def ctx_keep_def)
  obtain V5 where V5: "sy_ctx y5 = (sy_ctx y)(v \<mapsto> V5)" "c_spu V5 = None" "c_state V5 = SPU_STATE_SAVED" "c_prio V5 = c_prio V" "c_kref V5 = c_kref V"
    "c_rq V5 \<noteq> None \<longleftrightarrow> c_rq V \<noteq> None \<or> SPU_SCHED_SPU_RUN \<in> sched_flags V" "sy_spu y5 = sy_spu y4"
  proof (cases "SPU_SCHED_SPU_RUN \<in> sched_flags V \<and> c_rq V = None")
    case True
    then show ?thesis
      using that [of "V'\<lparr>c_rq := Some (c_prio V')\<rparr>"] u(3) k by (simp add: y5_def queued_def ctx_keep_def)
  next
    case False
    then show ?thesis using that [of V'] u(3) k by (auto simp: y5_def ctx_keep_def)
  qed
  obtain ev where put: "put_spu_context v y5 = Some (y5\<lparr>sy_ctx := (sy_ctx y5)(v \<mapsto> V5\<lparr>c_kref := c_kref V5 - 1\<rparr>), sy_events := ev\<rparr>)"
    (is "_ = Some ?y6") using put_spu_context_eq [of y5 v V5] V5(1,5) V(3) by auto
  have "preempt e c v (s_node S) y = Some (Found s, ?y6)"
    unfolding preempt_unschedule [OF C V(1,2) S p l] u(1) using v4(1) add put by simp
  moreover have "spu_inv e ?y6" by (rule quiet_inv [OF put_spu_context_quiet [OF put] i5])
  moreover have "preempted y s v V ?y6" using V5 u(4,6,7) by (simp add: preempted_def)
  ultimately show ?thesis by blast
qed

definition no_victim :: "spu_env \<Rightarrow> spu_context \<Rightarrow> spu_sys \<Rightarrow> nat list \<Rightarrow> bool" where
  "no_victim e C y ns \<longleftrightarrow> (\<forall>node \<in> set ns. node_allowed e C node \<longrightarrow>
     (\<forall>s \<in> set (n_spus (sy_node y node)). \<forall>v V. \<not> candidate (c_prio C) y s v V))"

definition best_victim :: "spu_env \<Rightarrow> spu_context \<Rightarrow> spu_sys \<Rightarrow> nat list \<Rightarrow> nat \<Rightarrow> saddr \<Rightarrow> caddr \<Rightarrow> spu_context \<Rightarrow> bool" where
  "best_victim e C y ns node s v V \<longleftrightarrow> node \<in> set ns \<and> node_allowed e C node \<and> s \<in> set (n_spus (sy_node y node)) \<and>
     candidate (c_prio C) y s v V \<and> (\<forall>t \<in> set (n_spus (sy_node y node)). \<forall>u U. candidate (c_prio C) y t u U \<longrightarrow> c_prio U \<le> c_prio V)"

lemma victim_nodes_eq:
  assumes i: "spu_inv e y" and C: "sy_ctx y c = Some C"
  shows "no_victim e C y (visits e n k) \<and> victim_nodes e c n k y = Some (Exhausted, y)
   \<or> (\<exists>node s v V. best_victim e C y (visits e n k) node s v V \<and>
       victim_nodes e c n k y = Option.bind (get_spu_context v y) (preempt e c v node))"
proof (induction n arbitrary: k)
  case (Suc n)
  let ?m = "wrap_node e k"
  let ?l = "n_spus (sy_node y ?m)"
  note b = spu_invD(1) [OF i] and nw = spu_invD(2) [OF i]
  show ?case
  proof (cases "node_allowed e C ?m")
    case al: True
    have "\<exists>S. sy_spu y s = Some S \<and> (\<forall>t. s_ctx S = Some t \<longrightarrow> sy_ctx y t \<noteq> None)" if "s \<in> set ?l" for s
      using node_wf_spu [OF nw that] bind_wfD(2) [OF b] by fastforce
    then obtain r where r: "pick_victim (c_prio C) y None ?l = Some r" "picked (c_prio C) y None ?l r"
      using pick_victim_ok [of ?l y None "c_prio C"] by auto
    show ?thesis
    proof (cases r)
      case None
      then have "victim_nodes e c (Suc n) k y = victim_nodes e c n (Suc ?m) y" using al C r(1) by (simp add: Let_def)
      moreover have "no_victim e C y (?m # ns) = no_victim e C y ns" "best_victim e C y ns nd s v V \<Longrightarrow> best_victim e C y (?m # ns) nd s v V"
        for ns nd s v V using r(2) None by (auto simp: picked_def no_victim_def best_victim_def)
      ultimately show ?thesis using Suc.IH [of "Suc ?m"] unfolding visits.simps by metis
    next
      case (Some v)
      then have "victim_nodes e c (Suc n) k y = Option.bind (get_spu_context v y) (preempt e c v ?m)" using al C r(1) by (simp add: Let_def)
      moreover obtain V s where "best_victim e C y (visits e (Suc n) k) ?m s v V"
        using r(2) Some al by (auto simp: picked_def best_victim_def)
      ultimately show ?thesis by blast
    qed
  next
    case False
    then have "victim_nodes e c (Suc n) k y = victim_nodes e c n (Suc ?m) y" using C by (simp add: Let_def)
    moreover have "no_victim e C y (?m # ns) = no_victim e C y ns" "best_victim e C y ns nd s v V \<Longrightarrow> best_victim e C y (?m # ns) nd s v V"
      for ns nd s v V using False by (auto simp: no_victim_def best_victim_def)
    ultimately show ?thesis using Suc.IH [of "Suc ?m"] unfolding visits.simps by metis
  qed
qed (simp add: no_victim_def)

section \<open>The search until it succeeds\<close>

text \<open>From some moment on every lock of a victim is free.\<close>

definition locks_free :: "spu_env \<Rightarrow> nat \<Rightarrow> bool" where
  "locks_free e n \<longleftrightarrow> (\<forall>t v. n \<le> t \<longrightarrow> mutex_trylock e t v)"

lemma get_spu_context_eq:
  assumes "sy_ctx y c = Some C" and "0 < c_kref C"
  shows "get_spu_context c y = Some (y\<lparr>sy_ctx := (sy_ctx y)(c \<mapsto> C\<lparr>c_kref := Suc (c_kref C)\<rparr>)\<rparr>)"
  using assms by (simp add: get_spu_context_def ctx_upd_def)

lemma preempt_restart:
  assumes V: "sy_ctx y v = Some V" "0 < c_kref V" and l: "\<not> mutex_trylock e (sy_tick y) v"
  shows "Option.bind (get_spu_context v y) (preempt e c v node) = Some (Restart, spu_tick y)"
  using l V by (cases y) (simp add: get_spu_context_def preempt_def put_spu_context_def ctx_upd_def spu_tick_def fun_upd_idem)

text \<open>
  The preempted context is the one of least urgency on the first node that has a candidate; it is less
  urgent than the context that gets the SPU.
\<close>

definition victim_result :: "spu_env \<Rightarrow> spu_context \<Rightarrow> spu_sys \<Rightarrow> saddr option \<Rightarrow> spu_sys \<Rightarrow> bool" where
  "victim_result e C y r y' \<longleftrightarrow> (let ns = visits e (MAX_NUMNODES e) (cpu_node e) in case r of
       None \<Rightarrow> no_victim e C y ns \<and> (\<exists>t. y' = y\<lparr>sy_tick := t\<rparr>)
     | Some s \<Rightarrow> (\<exists>node v V. best_victim e C y ns node s v V \<and> preempted y s v V y'))"

lemma views_tick [simp]:
  "no_victim e C (spu_tick y) ns = no_victim e C y ns" "best_victim e C (spu_tick y) ns node s v V = best_victim e C y ns node s v V"
  "preempted (spu_tick y) s v V y' = preempted y s v V y'" "sane_ctxs e (spu_tick y) = sane_ctxs e y"
  by (simp_all add: no_victim_def best_victim_def candidate_def preempted_def sane_ctxs_def spu_tick_def)

lemma best_victim_preempt:
  assumes i: "spu_inv e y" and C: "sy_ctx y c = Some C" and sane: "sane_ctxs e y" and b: "best_victim e C y ns node s v V"
    and l: "mutex_trylock e (sy_tick y) v"
  shows "\<exists>y'. Option.bind (get_spu_context v y) (preempt e c v node) = Some (Found s, y') \<and> spu_inv e y' \<and> preempted y s v V y'"
proof -
  obtain S where S: "sy_spu y s = Some S" "s_ctx S = Some v" and V: "sy_ctx y v = Some V" "c_prio C < c_prio V"
    using b by (auto simp: best_victim_def candidate_def)
  have Vs: "c_spu V = Some s" using bind_wfD(2) [OF spu_invD(1) [OF i] S] V(1) by auto
  have node: "s_node S = node" using b S(1) node_wf_spu [OF spu_invD(2) [OF i], of s node] by (auto simp: best_victim_def)
  have k: "0 < c_kref V" "c_prio V < MAX_PRIO e" using sane V(1) by (auto simp: sane_ctxs_def)
  let ?V = "V\<lparr>c_kref := Suc (c_kref V)\<rparr>"
  let ?y = "y\<lparr>sy_ctx := (sy_ctx y)(v \<mapsto> ?V)\<rparr>"
  have g: "get_spu_context v y = Some ?y" by (rule get_spu_context_eq [OF V(1) k(1)])
  have iy: "spu_inv e ?y" by (rule quiet_inv [OF get_spu_context_quiet [OF g] i])
  have "c \<noteq> v" using C V by auto
  then have "sy_ctx ?y c = Some C" using C by simp
  from preempt_ok [OF iy this, of v ?V s S] Vs k S(1) V(2) l obtain y' where
    "preempt e c v (s_node S) ?y = Some (Found s, y')" "spu_inv e y'" "preempted ?y s v ?V y'" by auto
  then show ?thesis using g node by (auto simp: preempted_def)
qed

theorem find_victim_ok:
  assumes i: "spu_inv e y" and C: "sy_ctx y c = Some C" and sane: "sane_ctxs e y" and l: "locks_free e n"
  shows "\<exists>r y'. find_victim e c y = Some (r, y') \<and> spu_inv e y' \<and> victim_result e C y r y'"
  using i C sane
proof (induction "n - sy_tick y" arbitrary: y rule: less_induct)
  case less
  let ?ns = "visits e (MAX_NUMNODES e) (cpu_node e)"
  consider "no_victim e C y ?ns" "victim_nodes e c (MAX_NUMNODES e) (cpu_node e) y = Some (Exhausted, y)"
    | node s v V where "best_victim e C y ?ns node s v V"
      "victim_nodes e c (MAX_NUMNODES e) (cpu_node e) y = Option.bind (get_spu_context v y) (preempt e c v node)"
    using victim_nodes_eq [OF less.prems(1,2), of "MAX_NUMNODES e" "cpu_node e"] by blast
  then show ?case
  proof cases
    case 1
    then have "find_victim e c y = Some (None, y)" by (subst find_victim.simps) simp
    moreover have "victim_result e C y None y" using 1(1) by (auto simp: victim_result_def Let_def intro!: exI [of _ "sy_tick y"])
    ultimately show ?thesis using less.prems(1) by blast
  next
    case (2 node s v V)
    show ?thesis
    proof (cases "mutex_trylock e (sy_tick y) v")
      case True
      from best_victim_preempt [OF less.prems 2(1) True] 2(2) obtain y' where
        "victim_nodes e c (MAX_NUMNODES e) (cpu_node e) y = Some (Found s, y')" "spu_inv e y'" "preempted y s v V y'" by auto
      moreover from this(1) have "find_victim e c y = Some (Some s, y')" by (subst find_victim.simps) simp
      ultimately show ?thesis using 2(1) by (auto simp: victim_result_def Let_def)
    next
      case False
      have V: "sy_ctx y v = Some V" using 2(1) by (simp add: best_victim_def candidate_def)
      then have "0 < c_kref V" using less.prems(3) by (simp add: sane_ctxs_def)
      then have "find_victim e c y = find_victim e c (spu_tick y)"
        using preempt_restart [OF V _ False] 2(2) by (subst find_victim.simps) simp
      moreover have "n - sy_tick (spu_tick y) < n - sy_tick y"
        using False l by (auto simp: locks_free_def spu_tick_def not_le [symmetric])
      from less.hyps [OF this quiet_inv [OF quiet_tick less.prems(1)]] less.prems(2,3) obtain r y' where
        "find_victim e c (spu_tick y) = Some (r, y')" "spu_inv e y'" "victim_result e C (spu_tick y) r y'"
        by (auto simp: spu_tick_def [of y] sane_ctxs_def)
      moreover from this(3) have "victim_result e C y r y'"
        by (auto simp: victim_result_def Let_def spu_tick_def [of y, symmetric] split: option.splits) (auto simp: spu_tick_def)
      ultimately show ?thesis by auto
    qed
  qed
qed

end
