(* ===== verification/Spu_Search.thy ===== *)
theory Spu_Search
  imports Spu_Choice
begin

text \<open>
  Affinity, the search for an idle SPU and the search for a victim keep the invariant of the SPU scheduler and
  leave the context that looks for an SPU unbound.
\<close>

section \<open>Operations that change no field of the invariant\<close>

lemma bind_SomeE:
  assumes "Option.bind m f = Some r"
  obtains v where "m = Some v" "f v = Some r"
  using assms by (auto simp: bind_eq_Some_conv)

lemma set_offsets_quiet: "set_offsets d k cs y = Some y' \<Longrightarrow> quiet y y'"
proof (induction cs arbitrary: k y)
  case (Cons c cs)
  then obtain y1 where y1: "ctx_upd y c (\<lambda>C. C\<lparr>aff_offset := k\<rparr>) = Some y1" "set_offsets d (k + d) cs y1 = Some y'"
    by (auto simp: bind_eq_Some_conv)
  have "quiet y y1" by (rule quiet_ctx_upd [OF y1(1)]) (simp add: view_defs)
  also have "quiet y1 y'" by (rule Cons.IH [OF y1(2)])
  finally show ?case .
qed simp

lemma aff_set_offsets_quiet:
  assumes "aff_set_offsets g y = Some y'"
  shows "quiet y y'"
proof -
  obtain l l' y1 y2 f where 1: "set_offsets (-1) (-1) l y = Some y1" and 2: "set_offsets 1 0 l' y1 = Some y2" and 3: "gang_upd y2 g f = Some y'"
    using assms unfolding aff_set_offsets_def by (elim bind_SomeE) blast
  show ?thesis by (rule quiet_trans [OF set_offsets_quiet [OF 1] quiet_trans [OF set_offsets_quiet [OF 2] quiet_gang_upd [OF 3]]])
qed

lemma aff_set_ref_quiet: "aff_set_ref_point_location e g y = Some y' \<Longrightarrow> quiet y y'"
  by (auto simp: aff_set_ref_point_location_def bind_eq_Some_conv intro: quiet_gang_upd)

lemma aff_setup_quiet:
  assumes "aff_setup e g y1 = Some y4"
  shows "quiet y1 y4"
proof -
  obtain G1 G2 :: spu_gang and y2 y3 where 1: "(if AFF_MERGED \<notin> aff_flags G1 then aff_merge_remaining_ctxs g y1 else Some y1) = Some y2"
    and 2: "(if AFF_OFFSETS_SET \<notin> aff_flags G2 then aff_set_offsets g y2 else Some y2) = Some y3"
    and 3: "aff_set_ref_point_location e g y3 = Some y4"
    using assms unfolding aff_setup_def by (elim bind_SomeE) blast
  have "quiet y1 y2" using 1 quiet_gang_upd by (auto simp: aff_merge_remaining_ctxs_def split: if_splits)
  also have "quiet y2 y3" using 2 aff_set_offsets_quiet by (auto split: if_splits)
  also have "quiet y3 y4" by (rule aff_set_ref_quiet [OF 3])
  finally show ?thesis .
qed

lemma has_affinity_quiet:
  assumes "has_affinity e c y = Some (b, y')"
  shows "quiet y y'"
proof -
  obtain g and G :: spu_gang where r: "(if c \<notin> set (aff_list G) then Some (False, y)
     else do {
       y1 \<leftarrow> (if aff_sched_count G = 0 then gang_upd y g (\<lambda>G. G\<lparr>aff_ref_spu := None\<rparr>) else Some y);
       G1 \<leftarrow> sy_gang y1 g;
       y4 \<leftarrow> (if aff_ref_spu G1 = None then aff_setup e g y1 else Some y1);
       G4 \<leftarrow> sy_gang y4 g;
       Some (aff_ref_spu G4 \<noteq> None, y4) }) = Some (b, y')"
    using assms unfolding has_affinity_def by (elim bind_SomeE) blast
  show ?thesis
  proof (cases "c \<in> set (aff_list G)")
    case True
    with r obtain y1 and G1 :: spu_gang where 1: "(if aff_sched_count G = 0 then gang_upd y g (\<lambda>G. G\<lparr>aff_ref_spu := None\<rparr>) else Some y) = Some y1"
      and 2: "(if aff_ref_spu G1 = None then aff_setup e g y1 else Some y1) = Some y'" by (auto simp: bind_eq_Some_conv)
    have "quiet y y1" using 1 quiet_gang_upd by (auto split: if_splits)
    also have "quiet y1 y'" using 2 aff_setup_quiet by (auto split: if_splits)
    finally show ?thesis .
  qed (use r in simp)
qed

lemma notify_spus_quiet: "notify_spus ss y = Some y' \<Longrightarrow> quiet y y'"
proof (induction ss arbitrary: y)
  case (Cons s ss)
  then obtain S y1 where y1: "sy_spu y s = Some S" "(if alloc_state S \<noteq> SPU_FREE then do {
              c \<leftarrow> s_ctx S;
              y' \<leftarrow> ctx_upd y c (\<lambda>C. C\<lparr>sched_flags := insert SPU_SCHED_NOTIFY_ACTIVE (sched_flags C)\<rparr>);
              Some (spu_log (WakeStopAll c) y') }
            else Some y) = Some y1" "notify_spus ss y1 = Some y'" by (auto simp: bind_eq_Some_conv)
  have "quiet y y1" using y1(2)
    by (auto simp: bind_eq_Some_conv view_defs split: if_splits intro!: quiet_trans [OF quiet_ctx_upd quiet_log])
  also have "quiet y1 y'" by (rule Cons.IH [OF y1(3)])
  finally show ?case .
qed simp

lemma notify_nodes_quiet: "notify_nodes ns y = Some y' \<Longrightarrow> quiet y y'"
  by (induction ns arbitrary: y) (auto simp: bind_eq_Some_conv intro: quiet_trans notify_spus_quiet)

section \<open>Contexts that are not bound\<close>

definition unbound_ctx :: "caddr \<Rightarrow> spu_sys \<Rightarrow> bool" where
  "unbound_ctx c y \<longleftrightarrow> (\<exists>C. sy_ctx y c = Some C \<and> c_spu C = None)"

lemma unbound_same: "same_by bind_view (sy_ctx y) (sy_ctx y') \<Longrightarrow> unbound_ctx c y \<Longrightarrow> unbound_ctx c y'"
  unfolding unbound_ctx_def by (auto dest!: same_byD simp: bind_view_def)

lemma unbound_quiet: "quiet y y' \<Longrightarrow> unbound_ctx c y \<Longrightarrow> unbound_ctx c y'"
  by (rule unbound_same) (auto simp: quiet_def full_view_weak)

lemma idle_found_unbound: "idle_found s y = Some (r, y') \<Longrightarrow> sy_ctx y' = sy_ctx y"
  by (auto simp: idle_found_def spu_upd_def spu_log_def bind_eq_Some_conv split: option.splits)

lemma spu_get_idle_inv:
  assumes i: "spu_inv e y" and r: "spu_get_idle e c y = Some (r, y')" and u: "unbound_ctx c y"
  shows "spu_inv e y' \<and> unbound_ctx c y'"
proof -
  have any: "spu_inv e z' \<and> unbound_ctx c z'" if "idle_any e c z = Some (r, z')" "spu_inv e z" "unbound_ctx c z" for z z'
    using that idle_found_inv [of e z] idle_found_unbound [of _ z]
    by (auto simp: idle_any_def bind_eq_Some_conv unbound_ctx_def split: option.splits)
  obtain C where C: "sy_ctx y c = Some C" using u by (auto simp: unbound_ctx_def)
  show ?thesis
  proof (cases "c_gang C")
    case None
    then show ?thesis using any [of y y'] r i u C by (simp add: spu_get_idle_def)
  next
    case (Some g)
    then obtain aff y1 where a: "has_affinity e c y = Some (aff, y1)" using r C by (auto simp: spu_get_idle_def bind_eq_Some_conv)
    have q1: "quiet y y1" by (rule has_affinity_quiet [OF a])
    show ?thesis
    proof (cases aff)
      case False
      then show ?thesis
        using any [of y1 y'] quiet_inv [OF q1 i] unbound_quiet [OF q1 u] r C Some a by (simp add: spu_get_idle_def)
    next
      case True
      then obtain y2 where y2: "gang_upd y1 g (\<lambda>G. G\<lparr>aff_sched_count := aff_sched_count G + 1\<rparr>) = Some y2"
        "(\<exists>s. idle_found s y2 = Some (r, y')) \<or> (\<exists>f. gang_upd y2 g f = Some y')"
        using r C Some a by (auto simp: spu_get_idle_def bind_eq_Some_conv split: if_splits)
      have q2: "quiet y y2" by (rule quiet_trans [OF q1 quiet_gang_upd [OF y2(1)]])
      have i2: "spu_inv e y2" "unbound_ctx c y2" using quiet_inv [OF q2 i] unbound_quiet [OF q2 u] by auto
      from y2(2) show ?thesis
      proof (elim disjE exE)
        fix s assume s: "idle_found s y2 = Some (r, y')"
        with idle_found_inv [OF i2(1) s] idle_found_unbound [OF s] i2(2) show ?thesis by (simp add: unbound_ctx_def)
      next
        fix f assume "gang_upd y2 g f = Some y'"
        then have "quiet y2 y'" by (rule quiet_gang_upd)
        with quiet_inv [OF this i2(1)] unbound_quiet [OF this i2(2)] show ?thesis by simp
      qed
    qed
  qed
qed

section \<open>Preemption\<close>

lemma spu_add_unbound: "spu_add_to_rq_locked e v y = Some y' \<Longrightarrow> unbound_ctx c y \<Longrightarrow> unbound_ctx c y'"
  by (auto simp: spu_add_to_rq_locked_def ctx_upd_def Let_def bind_eq_Some_conv unbound_ctx_def split: if_splits option.splits)

lemma preempt_inv:
  assumes i: "spu_inv e y" and u: "unbound_ctx c y" and S: "sy_spu y s = Some S" "s_ctx S = Some v" "s_node S = node"
    and r: "preempt e c v node y = Some (r, y')"
  shows "spu_inv e y' \<and> unbound_ctx c y'"
proof -
  obtain V where V: "sy_ctx y v = Some V" "c_spu V = Some s" using bind_wfD(2) [OF spu_invD(1) [OF i] S(1,2)] by blast
  obtain C where C: "sy_ctx y c = Some C" using u by (auto simp: unbound_ctx_def)
  have qt: "spu_inv e (spu_tick y)" "unbound_ctx c (spu_tick y)" using quiet_inv [OF quiet_tick i] unbound_quiet [OF quiet_tick u] .
  show ?thesis
  proof (cases "mutex_trylock e (sy_tick y) v \<and> c_prio C < c_prio V")
    case True
    from unschedule_ok [OF qt(1) _ V(2), of v False] V(1) obtain y4 V' where
      y4: "spu_unschedule e s v False (spu_tick y) = Some y4" "spu_inv e y4" "sy_ctx y4 = (sy_ctx y)(v \<mapsto> V')" "off_spu V V'"
      by (auto simp: spu_tick_def)
    have u4: "unbound_ctx c y4" using u y4(3,4) by (auto simp: unbound_ctx_def off_spu_def)
    from r [folded S(3), unfolded preempt_unschedule [OF C V S(1) conjunct2 [OF True] conjunct1 [OF True]] y4(1)] obtain y5 where
      y5: "(if SPU_SCHED_SPU_RUN \<in> sched_flags V' then spu_add_to_rq e v y4 else Some y4) = Some y5" "put_spu_context v y5 = Some y'"
      using y4(3) by (auto simp: bind_eq_Some_conv)
    have "spu_inv e y5" "unbound_ctx c y5"
      using y5(1) spu_add_to_rq_inv [OF y4(2)] spu_add_unbound [OF _ u4] y4(2) u4 by (auto simp: spu_add_to_rq_def split: if_splits)
    with quiet_inv [OF put_spu_context_quiet [OF y5(2)]] unbound_quiet [OF put_spu_context_quiet [OF y5(2)]] show ?thesis by blast
  next
    case False
    then have "put_spu_context v (spu_tick y) = Some y'"
      using r V C by (auto simp: preempt_def bind_eq_Some_conv split: if_splits option.splits)
    with quiet_inv [OF put_spu_context_quiet qt(1)] unbound_quiet [OF put_spu_context_quiet qt(2)] show ?thesis by blast
  qed
qed

lemma victim_nodes_inv:
  assumes i: "spu_inv e y" and u: "unbound_ctx c y" and r: "victim_nodes e c n k y = Some (r, y')"
  shows "spu_inv e y' \<and> unbound_ctx c y'"
proof -
  obtain C where C: "sy_ctx y c = Some C" using u by (auto simp: unbound_ctx_def)
  from victim_nodes_eq [OF i C, of n k] r consider "y' = y"
    | node s v V where "best_victim e C y (visits e n k) node s v V" "Option.bind (get_spu_context v y) (preempt e c v node) = Some (r, y')"
    by auto
  then show ?thesis
  proof cases
    case 2
    then obtain y1 where y1: "get_spu_context v y = Some y1" "preempt e c v node y1 = Some (r, y')" by (auto simp: bind_eq_Some_conv)
    have q: "quiet y y1" by (rule get_spu_context_quiet [OF y1(1)])
    obtain S where S: "sy_spu y s = Some S" "s_ctx S = Some v" "s_node S = node"
      using 2(1) node_wf_spu [OF spu_invD(2) [OF i], of s node] by (auto simp: best_victim_def candidate_def)
    have "sy_spu y1 = sy_spu y" using y1(1) by (auto simp: get_spu_context_def ctx_upd_def bind_eq_Some_conv split: if_splits option.splits)
    with preempt_inv [OF quiet_inv [OF q i] unbound_quiet [OF q u] _ S(2,3) y1(2)] S(1) show ?thesis by simp
  qed (use i u in simp)
qed

lemma find_victim_inv:
  assumes "find_victim e c y = Some r"
  shows "spu_inv e y \<longrightarrow> unbound_ctx c y \<longrightarrow> spu_inv e (snd r) \<and> unbound_ctx c (snd r)"
proof (rule find_victim.raw_induct [OF _ assms, where P = "\<lambda>e c y r. spu_inv e y \<longrightarrow> unbound_ctx c y \<longrightarrow> spu_inv e (snd r) \<and> unbound_ctx c (snd r)"])
  fix f :: "spu_env \<Rightarrow> caddr \<Rightarrow> spu_sys \<Rightarrow> (saddr option \<times> spu_sys) option" and e c y r
  assume IH: "\<And>e c y r. f e c y = Some r \<Longrightarrow> spu_inv e y \<longrightarrow> unbound_ctx c y \<longrightarrow> spu_inv e (snd r) \<and> unbound_ctx c (snd r)"
    and body: "(case victim_nodes e c (MAX_NUMNODES e) (cpu_node e) y of None \<Rightarrow> None
      | Some r \<Rightarrow> (case fst r of Found s \<Rightarrow> Some (Some s, snd r) | Restart \<Rightarrow> f e c (snd r) | Exhausted \<Rightarrow> Some (None, snd r))) = Some r"
  show "spu_inv e y \<longrightarrow> unbound_ctx c y \<longrightarrow> spu_inv e (snd r) \<and> unbound_ctx c (snd r)"
  proof (intro impI)
    assume i: "spu_inv e y" "unbound_ctx c y"
    obtain v y1 where v: "victim_nodes e c (MAX_NUMNODES e) (cpu_node e) y = Some (v, y1)" using body by (auto split: option.splits)
    note k = victim_nodes_inv [OF i v]
    show "spu_inv e (snd r) \<and> unbound_ctx c (snd r)" using body v k IH by (cases v) auto
  qed
qed

end
