(* ===== verification/Spu_Reach.thy ===== *)
theory Spu_Reach
  imports Spu_Search
begin

text \<open>
  The SPU scheduler as a transition system: every operation of \<^verbatim>\<open>sched.c\<close> keeps the invariant, so that it
  holds in every state that the operations reach from the initialisation.
\<close>

section \<open>Activation\<close>

text \<open>
  What the other tasks do while a context waits for its turn: they keep the invariant, and none of them
  binds the waiting context.
\<close>

definition others_ok :: "spu_env \<Rightarrow> caddr \<Rightarrow> (spu_sys \<Rightarrow> spu_sys option) \<Rightarrow> bool" where
  "others_ok e c schedule \<longleftrightarrow> (\<forall>y y'. schedule y = Some y' \<longrightarrow> spu_inv e y \<longrightarrow> unbound_ctx c y \<longrightarrow> spu_inv e y' \<and> unbound_ctx c y')"

lemma tick_inv: "spu_inv_but X e (spu_tick y) = spu_inv_but X e y" "unbound_ctx c (spu_tick y) = unbound_ctx c y"
proof -
  have "quiet (spu_tick y) y" by (simp add: quiet_def spu_tick_def)
  then show "spu_inv_but X e (spu_tick y) = spu_inv_but X e y" using quiet_inv quiet_tick by blast
qed (simp add: spu_tick_def unbound_ctx_def)

lemma spu_del_unbound:
  assumes r: "spu_del_from_rq_locked e d y = Some y'" and u: "unbound_ctx c y"
  shows "unbound_ctx c y'"
proof -
  obtain D where D: "sy_ctx y d = Some D" using r by (auto simp: spu_del_from_rq_locked_def bind_eq_Some_conv)
  have "sy_ctx y' = sy_ctx y \<or> sy_ctx y' = (sy_ctx y)(d \<mapsto> D\<lparr>c_rq := None\<rparr>)"
  proof (cases "c_rq D")
    case None
    then show ?thesis using r D by (simp add: spu_del_from_rq_locked_def)
  next
    case (Some q)
    obtain P where P: "sy_prio y = Some P" using r D Some by (auto simp: spu_del_from_rq_locked_def bind_eq_Some_conv)
    have "c_prio D < MAX_PRIO e"
      by (rule ccontr) (use r D Some P in \<open>simp add: spu_del_from_rq_locked_def ctx_upd_def Let_def not_less\<close>)
    then have "sy_ctx y' = (sy_ctx y)(d \<mapsto> D\<lparr>c_rq := None\<rparr>)"
      using r D Some P by (auto simp: spu_del_from_rq_locked_def ctx_upd_def Let_def)
    then show ?thesis ..
  qed
  then show ?thesis using u D by (auto simp: unbound_ctx_def)
qed

lemma spu_prio_wait_inv:
  assumes i: "spu_inv e y" "unbound_ctx c y" and o: "others_ok e c schedule" and r: "spu_prio_wait e schedule c y = Some y'"
  shows "spu_inv e y' \<and> unbound_ctx c y'"
proof (cases "signal_pending e (sy_tick y)")
  case False
  then obtain y1 y2 where y: "spu_add_to_rq_locked e c (spu_tick y) = Some y1" "schedule y1 = Some y2" "spu_del_from_rq_locked e c y2 = Some y'"
    using r by (auto simp: spu_prio_wait_def bind_eq_Some_conv split: if_splits)
  have "spu_inv e y1" "unbound_ctx c y1" using spu_add_to_rq_inv [OF _ y(1)] spu_add_unbound [OF y(1)] i by (simp_all add: tick_inv)
  then have "spu_inv e y2" "unbound_ctx c y2" using o y(2) by (auto simp: others_ok_def)
  then show ?thesis using spu_del_from_rq_inv [OF _ y(3)] spu_del_unbound [OF y(3)] by blast
qed (use r i in \<open>auto simp: spu_prio_wait_def bind_eq_Some_conv tick_inv split: if_splits\<close>)

lemma switch_inv:
  assumes i: "spu_inv_but X e y" and r: "spuctx_switch_state e c new y = Some y'"
  shows "spu_inv_but X e y'"
proof -
  obtain C where C: "sy_ctx y c = Some C" using r by (auto simp: spuctx_switch_state_def bind_eq_Some_conv)
  obtain P where P: "sy_prio y = Some P" "rq_wf e y P" using i by (rule spu_inv_prio)
  note b = spu_invD(1) [OF i] and nw = spu_invD(2) [OF i] and cw = spu_invD(3) [OF i]
  show ?thesis
  proof (cases "c_spu C")
    case None
    from switch_unbound [OF C None, of e new] r obtain t ev st where
      y': "y' = y\<lparr>sy_ctx := (sy_ctx y)(c \<mapsto> C\<lparr>c_stats := st\<rparr>), sy_tick := t, sy_events := ev\<rparr>" by auto
    have hs: "holds y' Q = holds y Q" for Q
    proof
      fix s
      show "holds y' Q s = holds y Q s"
      proof (cases "sy_spu y s")
        case (Some S)
        have "s_ctx S \<noteq> Some c" using bind_wfD(2) [OF b Some] C None by fastforce
        then show ?thesis using Some by (auto simp: holds_def y' split: option.splits)
      qed (simp add: holds_def y')
    qed
    have "rq_wf e y' P" by (rule rq_wf_cong [OF P(2)]) (use C in \<open>auto simp: y' view_defs intro: same_by_upd\<close>)
    moreover have "bind_wf X y'" by (rule bind_wf_cong [OF b]) (use C in \<open>auto simp: y' view_defs intro: same_by_upd\<close>)
    moreover have "node_wf e y'" using nw C by (auto simp: node_wf_def y' split: if_splits)
    moreover have "count_wf y'" using cw unfolding count_wf_def spu_count_def hs by (simp add: y')
    ultimately show ?thesis using P(1) by (intro spu_invI) (simp_all add: y')
  next
    case (Some s)
    obtain S where S: "sy_spu y s = Some S" "s_ctx S = Some c" using bind_wfD(3) [OF b C Some] by blast
    let ?n = "s_node S"
    from switch_bound [OF C Some S(1), of e new] r obtain t ev st st' where
      y': "y' = y\<lparr>sy_ctx := (sy_ctx y)(c \<mapsto> C\<lparr>c_stats := st\<rparr>), sy_spu := (sy_spu y)(s \<mapsto> S\<lparr>s_stats := st'\<rparr>),
        sy_node := (sy_node y)(?n := (sy_node y ?n)\<lparr>busy_spus := busy_spus (sy_node y ?n) - num (is_user C) + num (new = SPU_UTIL_USER)\<rparr>),
        sy_tick := t, sy_events := ev\<rparr>" and st: "st_util st = new" by auto
    have cnt: "spu_count y' Q m = spu_count y Q m + (if m = ?n then num (Q (C\<lparr>c_stats := st\<rparr>)) - num (Q C) else 0)" for Q m
      using count_change [of y' y c "C\<lparr>c_stats := st\<rparr>" s "S\<lparr>s_stats := st'\<rparr>" X e C S Q m] b nw C S Some
      by (simp add: y' holds_def)
    have "rq_wf e y' P" by (rule rq_wf_cong [OF P(2)]) (use C in \<open>auto simp: y' view_defs intro: same_by_upd\<close>)
    moreover have "bind_wf X y'" by (rule bind_wf_cong [OF b]) (use C S in \<open>auto simp: y' view_defs intro: same_by_upd\<close>)
    moreover have "node_wf e y'"
      by (rule node_wf_place [OF nw, where c = c and s = s and C' = "C\<lparr>c_stats := st\<rparr>" and S' = "S\<lparr>s_stats := st'\<rparr>"]) (use C S in \<open>auto simp: y'\<close>)
    moreover have "count_wf y'" unfolding count_wf_def cnt
      using cw st by (auto simp: count_wf_def y' is_nosched_def is_user_def)
    ultimately show ?thesis using P(1) by (intro spu_invI) (simp_all add: y')
  qed
qed

lemma choose_spu_inv:
  assumes i: "spu_inv e y" "unbound_ctx c y" and r: "choose_spu e c y = Some (s, y')"
  shows "spu_inv e y' \<and> unbound_ctx c y'"
proof -
  obtain s1 y1 and C :: spu_context where g: "spu_get_idle e c y = Some (s1, y1)"
    and v: "(if s1 = None \<and> rt_prio e (c_prio C) then find_victim e c y1 else Some (s1, y1)) = Some (s, y')"
    using r by (auto simp: choose_spu_def bind_eq_Some_conv)
  have "spu_inv e y1 \<and> unbound_ctx c y1" using spu_get_idle_inv [OF i(1) g i(2)] .
  with v find_victim_inv [of e c y1 "(s, y')"] show ?thesis by (auto split: if_splits)
qed

lemma activate_on_inv:
  assumes i: "spu_inv e y" "unbound_ctx c y" and pc: "prio_consts e" and r: "activate_on e s c y = Some (v, y')"
  shows "spu_inv e y'"
proof -
  obtain y1 where y1: "spu_schedule_locked e s c (spu_tick y) = Some y1"
    "(if runcntl_runnable e (sy_tick y) c then spuctx_switch_state e c SPU_UTIL_USER y1 else Some y1) = Some y'"
    using r by (auto simp: activate_on_def bind_eq_Some_conv)
  obtain C where "sy_ctx (spu_tick y) c = Some C" "c_spu C = None" using i(2) by (auto simp: unbound_ctx_def spu_tick_def)
  from spu_schedule_inv [OF _ pc y1(1) this] i(1) have "spu_inv e y1" by (simp add: tick_inv)
  with y1(2) switch_inv show ?thesis by (auto split: if_splits)
qed

lemma spu_activate_top_inv:
  assumes "spu_activate_top e schedule c y = Some r"
  shows "prio_consts e \<longrightarrow> others_ok e c schedule \<longrightarrow> spu_inv e y \<longrightarrow> unbound_ctx c y \<longrightarrow> spu_inv e (snd r)"
proof (rule spu_activate_top.raw_induct [OF _ assms, where P = "\<lambda>e schedule c y r.
    prio_consts e \<longrightarrow> others_ok e c schedule \<longrightarrow> spu_inv e y \<longrightarrow> unbound_ctx c y \<longrightarrow> spu_inv e (snd r)"], intro impI)
  fix f :: "spu_env \<Rightarrow> (spu_sys \<Rightarrow> spu_sys option) \<Rightarrow> caddr \<Rightarrow> spu_sys \<Rightarrow> (int \<times> spu_sys) option" and e schedule c y r
  assume IH: "\<And>e schedule c y r. f e schedule c y = Some r \<Longrightarrow>
      prio_consts e \<longrightarrow> others_ok e c schedule \<longrightarrow> spu_inv e y \<longrightarrow> unbound_ctx c y \<longrightarrow> spu_inv e (snd r)"
    and body: "(if signal_pending e (sy_tick y) then Some (- ERESTARTSYS, spu_tick y)
      else (case choose_spu e c (spu_tick y) of None \<Rightarrow> None
        | Some r \<Rightarrow> (case fst r of Some s \<Rightarrow> activate_on e s c (snd r)
          | None \<Rightarrow> (case sy_ctx (snd r) c of None \<Rightarrow> None
            | Some C \<Rightarrow>
                if SPU_CREATE_NOSCHED \<in> c_flags C
                then (case spu_prio_wait e schedule c (snd r) of None \<Rightarrow> None | Some y1 \<Rightarrow> f e schedule c y1)
                else map_option (\<lambda>y1. (0, y1)) (spu_add_to_rq e c (snd r)))))) = Some r"
    and pc: "prio_consts e" and o: "others_ok e c schedule" and i: "spu_inv e y" "unbound_ctx c y"
  show "spu_inv e (snd r)"
  proof (cases "signal_pending e (sy_tick y)")
    case False
    then obtain s y1 where ch: "choose_spu e c (spu_tick y) = Some (s, y1)" using body by (auto split: option.splits)
    have i1: "spu_inv e y1" "unbound_ctx c y1" using choose_spu_inv [OF _ _ ch] i by (simp_all add: tick_inv)
    consider t where "activate_on e t c y1 = Some r" | y2 where "spu_prio_wait e schedule c y1 = Some y2" "f e schedule c y2 = Some r"
      | "spu_add_to_rq e c y1 = Some (snd r)"
      using body False ch by (auto split: option.splits if_splits)
    then show ?thesis
    proof cases
      case 1
      then show ?thesis using activate_on_inv [OF i1 pc] by (cases r) auto
    next
      case 2
      with spu_prio_wait_inv [OF i1 o 2(1)] IH o pc show ?thesis by blast
    next
      case 3
      with spu_add_to_rq_inv [OF i1(1)] show ?thesis by (simp add: spu_add_to_rq_def)
    qed
  qed (use body i in \<open>auto simp: tick_inv\<close>)
qed

lemma spu_activate_inv:
  assumes "spu_inv e y" "prio_consts e" "others_ok e c schedule" "spu_activate e schedule c y = Some (r, y')"
  shows "spu_inv e y'"
  using assms spu_activate_top_inv [of e schedule c y "(r, y')"]
  by (auto simp: spu_activate_def bind_eq_Some_conv unbound_ctx_def split: if_splits)

section \<open>Deactivation\<close>

lemma dequeued_at: "sy_ctx y d = Some D \<Longrightarrow> sy_ctx y c = Some C \<Longrightarrow> \<exists>q. sy_ctx (dequeued d D P y) c = Some (C\<lparr>c_rq := q\<rparr>)"
  by (cases "d = c"; cases C) (auto simp: dequeued_def Let_def)

lemma grab_bound:
  assumes "spu_inv_but X e y" and "grab_runnable_context e prio node y = Some (new, y')" and "sy_ctx y c = Some C"
  shows "spu_inv_but X e y' \<and> (\<exists>q. sy_ctx y' c = Some (C\<lparr>c_rq := q\<rparr>))"
proof -
  have "\<exists>q. C = C\<lparr>c_rq := q\<rparr>" by (rule exI [of _ "c_rq C"]) simp
  then show ?thesis using grab_inv [OF assms(1,2)] dequeued_at assms(3) by metis
qed

lemma spu_deactivate_locked_inv:
  assumes i: "spu_inv e y" and pc: "prio_consts e" and r: "spu_deactivate_locked e c force mx y = Some (b, y')"
  shows "spu_inv e y'"
proof -
  obtain C where C: "sy_ctx y c = Some C" using r by (auto simp: spu_deactivate_locked_def bind_eq_Some_conv)
  show ?thesis
  proof (cases "c_spu C")
    case (Some s)
    with r C obtain S :: spu and new y1 where S: "sy_spu y s = Some S" and g: "grab_runnable_context e mx (s_node S) y = Some (new, y1)"
      by (auto simp: spu_deactivate_locked_def bind_eq_Some_conv)
    from grab_bound [OF i g C] obtain q where y1: "spu_inv e y1" "sy_ctx y1 c = Some (C\<lparr>c_rq := q\<rparr>)" by blast
    from unschedule_ok [OF y1, of s "new = None"] Some obtain y2 where
      y2: "spu_unschedule e s c (new = None) y1 = Some y2" "spu_inv e y2" by auto
    have "y' = y1 \<or> y' = y2 \<or> (\<exists>d. y' = spu_log (WakeStop d) y2) \<or> (\<exists>d. spu_schedule e s d y2 = Some y')"
    proof -
      have "(if new = None \<and> \<not> force then Some (False, y1)
          else do {
            y3 \<leftarrow> (case new of None \<Rightarrow> Some y2
              | Some d \<Rightarrow> do {
                  D \<leftarrow> sy_ctx y2 d;
                  if SPU_CREATE_NOSCHED \<in> c_flags D then Some (spu_log (WakeStop d) y2)
                  else spu_schedule e s d y2 });
            Some (new \<noteq> None, y3) }) = Some (b, y')"
        using r C Some g S y2(1) by (simp add: spu_deactivate_locked_def cong: if_cong)
      then show ?thesis by (auto simp: bind_eq_Some_conv split: if_splits option.splits)
    qed
    then show ?thesis using y1(1) y2(2) quiet_inv [OF quiet_log y2(2)] spu_schedule_saved_inv [OF y2(2) pc] by blast
  qed (use r i C in \<open>simp add: spu_deactivate_locked_def\<close>)
qed

section \<open>Ticks\<close>

lemma spusched_tick_inv:
  assumes i: "spu_inv e y0" and pc: "prio_consts e" and r: "spusched_tick e c y0 = Some y'"
  shows "spu_inv e y'"
proof -
  let ?y = "spu_tick y0"
  have iy: "spu_inv e ?y" using i by (simp add: tick_inv)
  obtain C where C: "sy_ctx ?y c = Some C" using r by (auto simp: spusched_tick_def Let_def bind_eq_Some_conv split: if_splits)
  let ?C = "C\<lparr>time_slice := time_slice C - 1\<rparr>"
  define y1 where "y1 = ?y\<lparr>sy_ctx := (sy_ctx ?y)(c \<mapsto> ?C)\<rparr>"
  have u: "ctx_upd ?y c (\<lambda>C. C\<lparr>time_slice := time_slice C - 1\<rparr>) = Some y1" using C by (simp add: ctx_upd_def y1_def)
  have C1: "sy_ctx y1 c = Some ?C" by (simp add: y1_def)
  have i1: "spu_inv_but {c} e y1" unfolding y1_def by (rule slice_change_inv [OF iy C]) auto
  consider "y' = ?y" | "time_slice ?C \<noteq> 0" "y' = y1"
    | s S new y2 where "c_spu C = Some s" "sy_spu y1 s = Some S" "grab_runnable_context e (c_prio C + 1) (s_node S) y1 = Some (new, y2)"
      "(case new of
               Some d \<Rightarrow> do {
                 y3 \<leftarrow> spu_unschedule e s c False y2;
                 C3 \<leftarrow> sy_ctx y3 c;
                 y4 \<leftarrow> (if SPU_SCHED_SPU_RUN \<in> sched_flags C3 then spu_add_to_rq e c y3 else Some y3);
                 spu_schedule e s d y4 }
             | None \<Rightarrow> ctx_upd y2 c (\<lambda>C. if time_slice C = 0 then C\<lparr>time_slice := time_slice C + 1\<rparr> else C)) = Some y'"
    using r C u C1 by (auto simp: spusched_tick_def Let_def bind_eq_Some_conv split: if_splits)
  then show ?thesis
  proof cases
    case 2
    then show ?thesis using slice_inv [OF iy C, of "time_slice C - 1"] by (simp add: y1_def)
  next
    case 3
    from grab_bound [OF i1 3(3) C1] obtain q where y2: "spu_inv_but {c} e y2" "sy_ctx y2 c = Some (?C\<lparr>c_rq := q\<rparr>)" by blast
    show ?thesis
    proof (cases new)
      case None
      let ?t = "if time_slice C - 1 = 0 then 1 else time_slice C - 1"
      have "y' = y2\<lparr>sy_ctx := (sy_ctx y2)(c \<mapsto> ?C\<lparr>c_rq := q, time_slice := ?t\<rparr>)\<rparr>"
        using 3(4) None y2(2) by (cases C) (auto simp: ctx_upd_def)
      then show ?thesis using slice_inv [OF y2, of ?t] by simp
    next
      case (Some d)
      from unschedule_ok [OF y2, of s False] 3(1) obtain y3 where y3: "spu_unschedule e s c False y2 = Some y3" "spu_inv e y3" by auto
      with 3(4) Some obtain C3 :: spu_context and y4 where y4: "(if SPU_SCHED_SPU_RUN \<in> sched_flags C3 then spu_add_to_rq e c y3 else Some y3) = Some y4"
        "spu_schedule e s d y4 = Some y'" by (auto simp: bind_eq_Some_conv)
      have "spu_inv e y4" using y4(1) y3(2) spu_add_to_rq_inv by (auto simp: spu_add_to_rq_def split: if_splits)
      then show ?thesis by (rule spu_schedule_saved_inv [OF _ pc y4(2)])
    qed
  qed (use iy in simp)
qed

lemma tick_spus_inv: "tick_spus e ss y = Some y' \<Longrightarrow> prio_consts e \<Longrightarrow> spu_inv e y \<Longrightarrow> spu_inv e y'"
proof (induction ss arbitrary: y)
  case (Cons s ss)
  then obtain S :: spu and y1 where y1: "(case s_ctx S of None \<Rightarrow> Some y
       | Some c \<Rightarrow> do { ya \<leftarrow> get_spu_context c y; yb \<leftarrow> spusched_tick e c ya; put_spu_context c yb }) = Some y1"
    and r: "tick_spus e ss y1 = Some y'" by (auto simp: bind_eq_Some_conv)
  have "spu_inv e y1"
  proof (cases "s_ctx S")
    case (Some c)
    with y1 obtain ya yb where y: "get_spu_context c y = Some ya" "spusched_tick e c ya = Some yb" "put_spu_context c yb = Some y1"
      by (auto simp: bind_eq_Some_conv)
    have "spu_inv e ya" by (rule quiet_inv [OF get_spu_context_quiet [OF y(1)] Cons.prems(3)])
    then have "spu_inv e yb" by (rule spusched_tick_inv [OF _ Cons.prems(2) y(2)])
    then show ?thesis by (rule quiet_inv [OF put_spu_context_quiet [OF y(3)]])
  qed (use y1 Cons.prems in simp)
  then show ?case by (rule Cons.IH [OF r Cons.prems(2)])
qed simp

lemma tick_nodes_inv: "tick_nodes e ns y = Some y' \<Longrightarrow> prio_consts e \<Longrightarrow> spu_inv e y \<Longrightarrow> spu_inv e y'"
  by (induction ns arbitrary: y) (auto simp: bind_eq_Some_conv intro: tick_spus_inv)

section \<open>Parameters and timers\<close>

lemma spu_set_timeslice_inv: "spu_inv e y \<Longrightarrow> prio_consts e \<Longrightarrow> spu_set_timeslice e c y = Some y' \<Longrightarrow> spu_inv e y'"
  using slice_inv [of "{}" e y c _ "word_of_int (slice e (c_prio (the (sy_ctx y c))))"] slice_word(1)
  by (cases "sy_ctx y c") (auto simp: spu_set_timeslice_eq, auto simp: spu_set_timeslice_def ctx_upd_def)

text \<open>The priority of a context that is on no queue may change.\<close>

lemma off_queue_inv:
  assumes i: "spu_inv e y" and C: "sy_ctx y c = Some C" "c_rq C = None"
    and C': "c_rq C' = None" "bind_view C' = bind_view C" "count_view C' = count_view C"
  shows "spu_inv e (y\<lparr>sy_ctx := (sy_ctx y)(c \<mapsto> C')\<rparr>)"
proof -
  let ?y = "y\<lparr>sy_ctx := (sy_ctx y)(c \<mapsto> C')\<rparr>"
  obtain P where P: "sy_prio y = Some P" "rq_wf e y P" using i by (rule spu_inv_prio)
  have "rq_wf e ?y P" using P(2) C C' unfolding rq_wf_def by simp
  then show ?thesis
    by (rule rq_inv_change [OF i, rotated]) (use P(1) C(1) C' in \<open>auto intro: same_by_upd\<close>)
qed

lemma spu_update_sched_info_inv:
  assumes "spu_inv e y" and "spu_update_sched_info e' c y = Some y'"
  shows "spu_inv e y'"
proof -
  obtain C where C: "sy_ctx y c = Some C" "spu_update_sched_info_locked e' c y = Some y'"
    using assms(2) by (auto simp: spu_update_sched_info_def bind_eq_Some_conv split: if_splits)
  then have rq: "c_rq C = None" by (auto simp: spu_update_sched_info_locked_def split: if_splits)
  show ?thesis using C rq off_queue_inv [OF assms(1) C(1) rq]
    by (auto simp: spu_update_sched_info_locked_def ctx_upd_def bind_view_def count_view_def is_user_def)
qed

lemma spusched_wake_inv:
  assumes i: "spu_inv e y" and t: "spusched_timer y \<noteq> None"
  shows "spu_inv e (spusched_wake e' y)"
proof -
  let ?y = "y\<lparr>spusched_timer := Some (jiffies e' (sy_tick y) + of_int SPUSCHED_TICK)\<rparr>"
  obtain P where P: "sy_prio y = Some P" "rq_wf e y P" using i by (rule spu_inv_prio)
  have "rq_wf e ?y P" using P(2) t unfolding rq_wf_def by simp
  then have "spu_inv e ?y" by (rule rq_inv_change [OF i, rotated]) (use P(1) in auto)
  then show ?thesis unfolding spusched_wake_def by (rule quiet_inv [OF quiet_log])
qed

lemma spuloadavg_wake_inv: "spu_inv e y \<Longrightarrow> spuloadavg_wake e' y = Some y' \<Longrightarrow> spu_inv e y'"
  by (rule quiet_inv [of y]; cases "spu_avenrun y")
    (auto simp: spuloadavg_wake_def spu_calc_load_def bind_eq_Some_conv Let_def quiet_def)

section \<open>Initialisation and new contexts\<close>

text \<open>The machine before the initialisation: SPUs without contexts, and no context yet.\<close>

definition spu_boot :: "spu_env \<Rightarrow> spu_sys \<Rightarrow> bool" where
  "spu_boot e y \<longleftrightarrow> node_wf e y \<and> sy_ctx y = Map.empty \<and> (\<forall>s S. sy_spu y s = Some S \<longrightarrow> s_ctx S = None) \<and>
     (\<forall>n. nr_active (sy_node y n) = 0 \<and> reserved_spus (sy_node y n) = 0 \<and> busy_spus (sy_node y n) = 0)"

lemma spu_sched_init_inv:
  assumes b: "spu_boot e y" and r: "spu_sched_init mem kt proc_ok y = (0, y')"
  shows "spu_inv e y'"
proof -
  have y': "y' = y\<lparr>sy_prio := Some empty_prio, spusched_timer := None, spuloadavg_timer := Some 0\<rparr>"
    using r by (auto simp: spu_sched_init_def Let_def split: if_splits)
  have h: "\<not> holds y' Q s" for Q s using b by (auto simp: holds_def y' spu_boot_def split: option.splits)
  show ?thesis
  proof (rule spu_invI [where P = empty_prio])
    show "rq_wf e y' empty_prio" using b by (simp add: rq_wf_def empty_prio_def y' spu_boot_def)
    show "bind_wf {} y'" using b by (auto simp: bind_wf_def y' spu_boot_def)
    show "node_wf e y'" using b by (simp add: node_wf_def y' spu_boot_def)
    show "count_wf y'" using b h by (simp add: count_wf_def spu_count_def spu_boot_def) (simp add: y')
  qed (simp add: y')
qed

text \<open>A context as \<^verbatim>\<open>spufs\<close> creates it: saved, on no SPU and on no run queue.\<close>

definition fresh_ctx :: "spu_sys \<Rightarrow> spu_context \<Rightarrow> bool" where
  "fresh_ctx y C \<longleftrightarrow> c_spu C = None \<and> c_state C = SPU_STATE_SAVED \<and> c_rq C = None \<and> (\<forall>g. c_gang C = Some g \<longrightarrow> sy_gang y g \<noteq> None)"

lemma create_inv:
  assumes i: "spu_inv e y" and c: "sy_ctx y c = None" and C: "fresh_ctx y C"
  shows "spu_inv e (y\<lparr>sy_ctx := (sy_ctx y)(c \<mapsto> C)\<rparr>)"
proof -
  let ?y = "y\<lparr>sy_ctx := (sy_ctx y)(c \<mapsto> C)\<rparr>"
  obtain P where P: "sy_prio y = Some P" "rq_wf e y P" using i by (rule spu_inv_prio)
  note b = spu_invD(1) [OF i]
  have nc: "s_ctx S \<noteq> Some c" if "sy_spu y s = Some S" for s S using bind_wfD(2) [OF b that] c by auto
  have h: "holds ?y Q = holds y Q" for Q by (rule ext) (use nc in \<open>auto simp: holds_def split: option.splits\<close>)
  show ?thesis
  proof (rule spu_invI [where P = P])
    show "rq_wf e ?y P" using P(2) c C unfolding rq_wf_def fresh_ctx_def by simp
    show "bind_wf {} ?y" using b nc c C unfolding bind_wf_def fresh_ctx_def by auto
    show "node_wf e ?y" using spu_invD(2) [OF i] C unfolding node_wf_def fresh_ctx_def by auto
    show "count_wf ?y" using spu_invD(3) [OF i] unfolding count_wf_def spu_count_def h by simp
  qed (use P(1) in simp)
qed

section \<open>Transitions\<close>

text \<open>
  Environments of the same machine: the constants of the priorities and the number of nodes are fixed, all else
  (the current task, the locks that can be taken, the pending signals) may differ from step to step.
\<close>

definition same_machine :: "spu_env \<Rightarrow> spu_env \<Rightarrow> bool" where
  "same_machine e e' \<longleftrightarrow> prio_consts e' \<and> MAX_PRIO e' = MAX_PRIO e \<and> MAX_NUMNODES e' = MAX_NUMNODES e"

lemma machine_inv: "same_machine e e' \<Longrightarrow> spu_inv_but X e' y = spu_inv_but X e y"
  by (simp add: same_machine_def spu_inv_but_def rq_wf_def node_wf_def)

inductive spu_step :: "spu_env \<Rightarrow> spu_sys \<Rightarrow> spu_sys \<Rightarrow> bool" for e where
  Create: "sy_ctx y c = None \<Longrightarrow> fresh_ctx y C \<Longrightarrow> spu_step e y (y\<lparr>sy_ctx := (sy_ctx y)(c \<mapsto> C)\<rparr>)"
| Activate: "same_machine e e' \<Longrightarrow> others_ok e' c schedule \<Longrightarrow> spu_activate e' schedule c y = Some (r, y') \<Longrightarrow> spu_step e y y'"
| Deactivate: "same_machine e e' \<Longrightarrow> spu_deactivate e' c y = Some y' \<Longrightarrow> spu_step e y y'"
| Yield: "same_machine e e' \<Longrightarrow> spu_yield e' c y = Some y' \<Longrightarrow> spu_step e y y'"
| DelRq: "same_machine e e' \<Longrightarrow> spu_del_from_rq e' c y = Some y' \<Longrightarrow> spu_step e y y'"
| Update: "same_machine e e' \<Longrightarrow> spu_update_sched_info e' c y = Some y' \<Longrightarrow> spu_step e y y'"
| Timeslice: "same_machine e e' \<Longrightarrow> spu_set_timeslice e' c y = Some y' \<Longrightarrow> spu_step e y y'"
| Switch: "same_machine e e' \<Longrightarrow> spuctx_switch_state e' c new y = Some y' \<Longrightarrow> spu_step e y y'"
| Notify: "same_machine e e' \<Longrightarrow> do_notify_spus_active e' y = Some y' \<Longrightarrow> spu_step e y y'"
| Tick: "same_machine e e' \<Longrightarrow> tick_nodes e' ns y = Some y' \<Longrightarrow> spu_step e y y'"
| Timer: "same_machine e e' \<Longrightarrow> spusched_timer y \<noteq> None \<Longrightarrow> spu_step e y (spusched_wake e' y)"
| Load: "same_machine e e' \<Longrightarrow> spuloadavg_wake e' y = Some y' \<Longrightarrow> spu_step e y y'"

inductive_simps spu_step_iff: "spu_step e y y'"

lemma spu_step_inv:
  assumes "spu_step e y y'" and i: "spu_inv e y"
  shows "spu_inv e y'"
  using assms(1)
proof cases
  case (Create c C)
  then show ?thesis using create_inv [OF i] by simp
next
  case (Activate e' c schedule r)
  then show ?thesis using spu_activate_inv [of e' y c schedule r y'] i machine_inv [OF Activate(1)] by (simp add: same_machine_def)
next
  case (Deactivate e' c)
  then show ?thesis using spu_deactivate_locked_inv [of e' y c True "MAX_PRIO e'"] i machine_inv [OF Deactivate(1)]
    by (auto simp: same_machine_def spu_deactivate_def)
next
  case (Yield e' c)
  then show ?thesis using spu_deactivate_locked_inv [of e' y c False "MAX_PRIO e'"] i machine_inv [OF Yield(1)]
    by (auto simp: same_machine_def spu_yield_def bind_eq_Some_conv split: if_splits)
next
  case (DelRq e' c)
  then show ?thesis using spu_del_from_rq_inv [of "{}" e' y c y'] i machine_inv [OF DelRq(1)] by (simp add: spu_del_from_rq_def)
next
  case (Update e' c)
  then show ?thesis using spu_update_sched_info_inv [OF i] by simp
next
  case (Timeslice e' c)
  then show ?thesis using spu_set_timeslice_inv [of e' y c y'] i machine_inv [OF Timeslice(1)] by (simp add: same_machine_def)
next
  case (Switch e' c new)
  then show ?thesis using switch_inv [of "{}" e' y c new y'] i machine_inv [OF Switch(1)] by simp
next
  case (Notify e')
  then show ?thesis using quiet_inv [OF notify_nodes_quiet i] by (simp add: do_notify_spus_active_def)
next
  case (Tick e' ns)
  then show ?thesis using tick_nodes_inv [of e' ns y y'] i machine_inv [OF Tick(1)] by (simp add: same_machine_def)
next
  case (Timer e')
  then show ?thesis using spusched_wake_inv [OF i] by simp
next
  case (Load e')
  then show ?thesis using spuloadavg_wake_inv [OF i] by simp
qed

inductive spu_reach :: "spu_env \<Rightarrow> spu_sys \<Rightarrow> bool" for e where
  Init: "spu_boot e y \<Longrightarrow> spu_sched_init mem kt proc_ok y = (0, y') \<Longrightarrow> spu_reach e y'"
| Step: "spu_reach e y \<Longrightarrow> spu_step e y y' \<Longrightarrow> spu_reach e y'"

lemma spu_reach_inv: "spu_reach e y \<Longrightarrow> spu_inv e y"
  by (induction rule: spu_reach.induct) (blast intro: spu_sched_init_inv spu_step_inv)+

end
