(* ===== verification/Spu_Result.thy ===== *)
theory Spu_Result
  imports Spu_Reach
begin

text \<open>
  What becomes of an SPU whose context gives it up: which waiting context gets it, and in which state both
  contexts and the SPU are left by \<^verbatim>\<open>__spu_deactivate\<close> and by \<^verbatim>\<open>spusched_tick\<close>.
\<close>

section \<open>The waiting contexts\<close>

text \<open>No context is on a run queue and bound to an SPU at the same time.\<close>

definition queued_unbound :: "spu_sys \<Rightarrow> bool" where
  "queued_unbound y \<longleftrightarrow> (\<forall>d D. sy_ctx y d = Some D \<longrightarrow> c_rq D \<noteq> None \<longrightarrow> c_spu D = None)"

text \<open>The first context in the order of priorities and, within a priority, of arrival.\<close>

definition next_waiting :: "spu_env \<Rightarrow> nat \<Rightarrow> nat \<Rightarrow> spu_sys \<Rightarrow> caddr option" where
  "next_waiting e node prio y = (case sy_prio y of None \<Rightarrow> None
     | Some P \<Rightarrow> (case waiting e node 0 prio P y of [] \<Rightarrow> None | d # _ \<Rightarrow> Some d))"

lemma next_waiting_queued:
  assumes i: "spu_inv_but X e y" and n: "next_waiting e node prio y = Some d"
  obtains D where "sy_ctx y d = Some D" "c_rq D \<noteq> None" "node_allowed e D node" "c_prio D < prio"
proof -
  obtain P where P: "sy_prio y = Some P" "rq_wf e y P" using i by (rule spu_inv_prio)
  have "d \<in> set (waiting e node 0 prio P y)" using n P(1) by (auto simp: next_waiting_def split: list.splits)
  then obtain p D where d: "p < prio" "d \<in> set (runq P p)" "sy_ctx y d = Some D" "node_allowed e D node" by (auto simp: waiting_def)
  have "c_rq D = Some p" using rq_wf_at(2) [OF P(2), of d p] d by auto
  with rq_wf_at(3) [OF P(2) d(3)] d that show thesis by auto
qed

lemma grab_next:
  assumes i: "spu_inv_but X e y" and prio: "prio \<le> MAX_PRIO e" and P: "sy_prio y = Some P"
  shows "grab_runnable_context e prio node y = Some (case next_waiting e node prio y of None \<Rightarrow> (None, y)
     | Some d \<Rightarrow> (Some d, dequeued d (the (sy_ctx y d)) P y))"
proof -
  have "rq_wf e y P" using i P by (auto simp: spu_inv_but_def)
  from grab_eq [OF this P prio, of node] show ?thesis by (simp add: next_waiting_def P split: list.splits)
qed

lemma dequeued_simps [simp]:
  "sy_ctx (dequeued d D P y) = (sy_ctx y)(d \<mapsto> D\<lparr>c_rq := None\<rparr>)" "sy_spu (dequeued d D P y) = sy_spu y" "sy_tick (dequeued d D P y) = sy_tick y"
  by (simp_all add: dequeued_def Let_def)

section \<open>Time slices\<close>

lemma slice_mono:
  assumes pc: "prio_consts e" and "p \<le> p'"
  shows "slice e p' \<le> slice e p"
proof -
  let ?D = "DEF_SPU_TIMESLICE e"
  have D: "0 \<le> ?D" using pc by (auto simp: prio_consts_def DEF_SPU_TIMESLICE_def SPUSCHED_TICK_def)
  have m: "x * (140 - int p') div 20 \<le> x * (140 - int p) div 20" if "0 \<le> x" for x
    using assms(2) that by (intro zdiv_mono1 mult_left_mono) auto
  have "?D * (140 - int p') div 20 \<le> ?D * 4 * (140 - int p) div 20" if "p < 120" "120 \<le> p'"
  proof (rule zdiv_mono1)
    have "?D * (140 - int p') \<le> ?D * 20" using that D by (intro mult_left_mono) auto
    also have "\<dots> \<le> ?D * (4 * (140 - int p))" using that D by (intro mult_left_mono) auto
    finally show "?D * (140 - int p') \<le> ?D * 4 * (140 - int p)" by (simp add: mult.assoc)
  qed simp
  with m [of ?D] m [of "?D * 4"] D pc assms(2) show ?thesis
    by (auto simp: slice_def SCALE_PRIO_def NORMAL_PRIO_def prio_consts_def)
qed

lemma slice_values:
  assumes pc: "prio_consts e"
  shows "slice e 0 = 28 * DEF_SPU_TIMESLICE e" and "slice e 100 = 8 * DEF_SPU_TIMESLICE e" and "slice e 120 = DEF_SPU_TIMESLICE e"
    and "slice e 139 = MIN_SPU_TIMESLICE e"
  using pc by (auto simp: slice_def SCALE_PRIO_def NORMAL_PRIO_def prio_consts_def DEF_SPU_TIMESLICE_def MIN_SPU_TIMESLICE_def
      SPUSCHED_TICK_def max_def)

section \<open>Leaked SPUs\<close>

text \<open>An SPU in use without a context makes \<^verbatim>\<open>do_notify_spus_active\<close> dereference a NULL pointer.\<close>

lemma notify_spus_Cons:
  assumes "notify_spus (s # ss) y = Some r"
  obtains y1 where "sy_spu y1 = sy_spu y" "sy_node y1 = sy_node y" "notify_spus ss y1 = Some r"
proof -
  obtain S :: spu and y1 where y1: "(if alloc_state S \<noteq> SPU_FREE then do {
              c \<leftarrow> s_ctx S;
              y' \<leftarrow> ctx_upd y c (\<lambda>C. C\<lparr>sched_flags := insert SPU_SCHED_NOTIFY_ACTIVE (sched_flags C)\<rparr>);
              Some (spu_log (WakeStopAll c) y') }
            else Some y) = Some y1" "notify_spus ss y1 = Some r" using assms by (auto simp: bind_eq_Some_conv)
  from y1(1) have "sy_spu y1 = sy_spu y" "sy_node y1 = sy_node y"
    by (auto simp: bind_eq_Some_conv ctx_upd_def spu_log_def split: if_splits option.splits)
  with y1(2) that show thesis by blast
qed

lemma notify_spus_vacant:
  assumes "s \<in> set ss" and "sy_spu y s = Some S" "s_ctx S = None" "alloc_state S = SPU_USED"
  shows "notify_spus ss y = None"
  using assms
proof (induction ss arbitrary: y)
  case (Cons t ss)
  show ?case
  proof (cases "t = s")
    case True
    then show ?thesis using Cons.prems by simp
  next
    case False
    have "notify_spus ss y' = None" if "sy_spu y' = sy_spu y" for y' using Cons False that by simp
    then show ?thesis by (metis notify_spus_Cons not_None_eq)
  qed
qed simp

lemma notify_spus_keeps: "notify_spus ss y = Some y' \<Longrightarrow> sy_spu y' = sy_spu y \<and> sy_node y' = sy_node y"
proof (induction ss arbitrary: y)
  case (Cons s ss)
  from Cons.prems obtain y1 where "sy_spu y1 = sy_spu y" "sy_node y1 = sy_node y" "notify_spus ss y1 = Some y'" by (rule notify_spus_Cons)
  with Cons.IH show ?case by metis
qed simp

lemma notify_nodes_vacant:
  assumes "n \<in> set ns" and "s \<in> set (n_spus (sy_node y n))" and "sy_spu y s = Some S" "s_ctx S = None" "alloc_state S = SPU_USED"
  shows "notify_nodes ns y = None"
  using assms
proof (induction ns arbitrary: y)
  case (Cons m ns)
  show ?case
  proof (cases "m = n")
    case True
    then show ?thesis using notify_spus_vacant [OF Cons.prems(2-5)] by simp
  next
    case False
    have "notify_nodes ns y' = None" if "notify_spus (n_spus (sy_node y m)) y = Some y'" for y'
      using Cons False notify_spus_keeps [OF that] by simp
    then show ?thesis by (cases "notify_spus (n_spus (sy_node y m)) y") auto
  qed
qed simp

section \<open>Hand-over\<close>

text \<open>
  The context \<open>c\<close> is saved and off the SPU \<open>s\<close>, on a run queue exactly if \<open>q\<close> holds; \<open>d\<close> has left the run
  queue and is bound to \<open>s\<close> with a full time slice; nothing else has changed.
\<close>

definition saved :: "caddr \<Rightarrow> bool \<Rightarrow> spu_sys \<Rightarrow> bool" where
  "saved c q y \<longleftrightarrow> (\<exists>C. sy_ctx y c = Some C \<and> c_spu C = None \<and> c_state C = SPU_STATE_SAVED \<and> (c_rq C \<noteq> None \<longleftrightarrow> q))"

definition runs_on :: "spu_env \<Rightarrow> caddr \<Rightarrow> saddr \<Rightarrow> spu_sys \<Rightarrow> bool" where
  "runs_on e d s y \<longleftrightarrow> (\<exists>D S. sy_ctx y d = Some D \<and> c_spu D = Some s \<and> c_state D = SPU_STATE_RUNNABLE \<and> c_rq D = None \<and>
     uint (time_slice D) = slice e (c_prio D) \<and> sy_spu y s = Some S \<and> s_ctx S = Some d \<and> alloc_state S = SPU_USED)"

definition vacant :: "saddr \<Rightarrow> alloc \<Rightarrow> spu_sys \<Rightarrow> spu_sys \<Rightarrow> bool" where
  "vacant s a y y' \<longleftrightarrow> (\<exists>S S'. sy_spu y s = Some S \<and> sy_spu y' s = Some S' \<and> s_ctx S' = None \<and> alloc_state S' = a \<and> s_node S' = s_node S)"

definition only :: "caddr set \<Rightarrow> saddr \<Rightarrow> spu_sys \<Rightarrow> spu_sys \<Rightarrow> bool" where
  "only cs s y y' \<longleftrightarrow> (\<forall>d. d \<notin> cs \<longrightarrow> sy_ctx y' d = sy_ctx y d) \<and> (\<forall>t. t \<noteq> s \<longrightarrow> sy_spu y' t = sy_spu y t)"

lemma unschedule_next:
  assumes i: "spu_inv_but X e y" and q: "queued_unbound y" and C: "sy_ctx y c = Some C" "c_spu C = Some s"
    and d: "sy_ctx y d = Some D" "c_rq D \<noteq> None" and P: "sy_prio y = Some P"
  shows "\<exists>y' C' S'. spu_unschedule e s c False (dequeued d D P y) = Some y' \<and> spu_inv_but (X - {c}) e y' \<and> d \<noteq> c \<and>
    sy_ctx y' = (sy_ctx y)(d \<mapsto> D\<lparr>c_rq := None\<rparr>, c \<mapsto> C') \<and> off_spu C C' \<and> c_rq C' = None \<and>
    sy_spu y' = (sy_spu y)(s \<mapsto> S') \<and> s_ctx S' = None \<and> alloc_state S' = SPU_USED \<and>
    map_option s_node (sy_spu y s) = Some (s_node S')"
proof -
  have c: "c_rq C = None" "d \<noteq> c" using q C d unfolding queued_unbound_def by fastforce+
  have "sy_ctx (dequeued d D P y) c = Some C" using C(1) c(2) by simp
  from unschedule_ok [OF dequeued_inv [OF i d P] this C(2), of False] obtain y' C' S S' where
    "sy_spu y s = Some S" "spu_unschedule e s c False (dequeued d D P y) = Some y'" "spu_inv_but (X - {c}) e y'"
    "sy_ctx y' = (sy_ctx y)(d \<mapsto> D\<lparr>c_rq := None\<rparr>, c \<mapsto> C')" "sy_spu y' = (sy_spu y)(s \<mapsto> S')" "off_spu C C'"
    "s_ctx S' = None" "s_node S' = s_node S" "alloc_state S' = SPU_USED" by auto
  with c show ?thesis by (intro exI [of _ y'] exI [of _ C'] exI [of _ S']) (auto simp: off_spu_def ctx_keep_def)
qed

lemma schedule_next:
  assumes i: "spu_inv_but X e y" and pc: "prio_consts e" and D: "sy_ctx y d = Some D" "c_spu D = None" "c_rq D = None"
    and S: "sy_spu y s = Some S" "s_ctx S = None"
  shows "\<exists>y'. spu_schedule e s d y = Some y' \<and> spu_inv_but (X - {d}) e y' \<and> runs_on e d s y' \<and> only {d} s y y'"
proof -
  have "c_state D \<noteq> SPU_STATE_RUNNABLE" using bind_wfD(4) [OF spu_invD(1) [OF i] D(1)] D(2) by simp
  then have "c_state D = SPU_STATE_SAVED" by (cases "c_state D") auto
  with schedule_ok [OF i pc D(1,2) S] D show ?thesis
    by (auto simp: spu_schedule_def runs_on_def only_def on_spu_def)
qed

section \<open>Deactivation\<close>

definition deactivated :: "spu_env \<Rightarrow> caddr \<Rightarrow> saddr \<Rightarrow> caddr option \<Rightarrow> spu_sys \<Rightarrow> spu_sys \<Rightarrow> bool" where
  "deactivated e c s new y y' \<longleftrightarrow> saved c False y' \<and> only ({c} \<union> set_option new) s y y' \<and> (case new of
       None \<Rightarrow> vacant s SPU_FREE y y'
     | Some d \<Rightarrow> (case sy_ctx y d of None \<Rightarrow> False
         | Some D \<Rightarrow> if is_nosched D then saved d False y' \<and> vacant s SPU_USED y y' else runs_on e d s y'))"

lemma off_spu_saved: "sy_ctx y c = Some C' \<Longrightarrow> off_spu C C' \<Longrightarrow> c_rq C' = None \<Longrightarrow> saved c False y"
  by (simp add: saved_def off_spu_def)

lemma deactivate_ok:
  assumes i: "spu_inv e y" and pc: "prio_consts e" and q: "queued_unbound y" and mx: "mx \<le> MAX_PRIO e"
    and C: "sy_ctx y c = Some C" "c_spu C = Some s" and S: "sy_spu y s = Some S"
    and new: "next_waiting e (s_node S) mx y = new" and f: "force \<or> new \<noteq> None"
  shows "\<exists>y'. spu_deactivate_locked e c force mx y = Some (new \<noteq> None, y') \<and> spu_inv e y' \<and> deactivated e c s new y y'"
proof -
  obtain P where P: "sy_prio y = Some P" using i by (rule spu_inv_prio)
  note g = grab_next [OF i mx P, of "s_node S", unfolded new]
  show ?thesis
  proof (cases new)
    case None
    have "c_rq C = None" using q C unfolding queued_unbound_def by fastforce
    with unschedule_ok [OF i C, of True] C S None f g show ?thesis
      by (auto simp: spu_deactivate_locked_def deactivated_def saved_def vacant_def only_def off_spu_def ctx_keep_def)
  next
    case (Some d)
    obtain D where d: "sy_ctx y d = Some D" "c_rq D \<noteq> None" using next_waiting_queued [OF i] new Some by metis
    have D: "c_spu D = None" using q d by (auto simp: queued_unbound_def)
    from unschedule_next [OF i q C d P] obtain y2 C' S' where y2: "spu_unschedule e s c False (dequeued d D P y) = Some y2"
      "spu_inv e y2" "d \<noteq> c" "sy_ctx y2 = (sy_ctx y)(d \<mapsto> D\<lparr>c_rq := None\<rparr>, c \<mapsto> C')" "off_spu C C'" "c_rq C' = None"
      "sy_spu y2 = (sy_spu y)(s \<mapsto> S')" "s_ctx S' = None" "alloc_state S' = SPU_USED" "map_option s_node (sy_spu y s) = Some (s_node S')" by auto
    have sv: "saved c False y2" by (rule off_spu_saved [OF _ y2(5,6)]) (simp add: y2(4))
    have o2: "only {c, d} s y y2" using y2(4,7) by (simp add: only_def)
    have d2: "sy_ctx y2 d = Some (D\<lparr>c_rq := None\<rparr>)" using y2(3,4) by simp
    have r: "spu_deactivate_locked e c force mx y = Option.bind (if is_nosched D then Some (spu_log (WakeStop d) y2)
        else spu_schedule e s d y2) (\<lambda>y3. Some (True, y3))"
      using C S g Some d y2(1) d2 by (simp add: spu_deactivate_locked_def is_nosched_def)
    show ?thesis
    proof (cases "is_nosched D")
      case True
      have "c_state D \<noteq> SPU_STATE_RUNNABLE" using bind_wfD(4) [OF spu_invD(1) [OF i] d(1)] D by simp
      then have "c_state D = SPU_STATE_SAVED" by (cases "c_state D") auto
      with True r Some d D d2 sv o2 y2 quiet_inv [OF quiet_log y2(2)] show ?thesis
        by (auto simp: deactivated_def saved_def vacant_def only_def spu_log_def)
    next
      case False
      from schedule_next [OF y2(2) pc d2, of s S'] D y2(7,8) obtain y3 where
        y3: "spu_schedule e s d y2 = Some y3" "spu_inv e y3" "runs_on e d s y3" "only {d} s y2 y3" by auto
      have "saved c False y3" "only {c, d} s y y3" using sv o2 y3(4) y2(3) by (auto simp: only_def saved_def)
      with False r Some d y3 show ?thesis by (auto simp: deactivated_def insert_commute)
    qed
  qed
qed

section \<open>The tick\<close>

text \<open>
  A tick of a context that is subject to round robin: the slice goes down by one, and a context that has used
  its slice up (or has left \<^verbatim>\<open>spu_run\<close>) makes room for a waiting context of the same or a more urgent priority.
\<close>

definition round_robin :: "spu_env \<Rightarrow> spu_context \<Rightarrow> bool" where
  "round_robin e C \<longleftrightarrow> SPU_CREATE_NOSCHED \<notin> c_flags C \<and> c_policy C \<noteq> SCHED_FIFO e"

definition set_slice :: "caddr \<Rightarrow> int \<Rightarrow> spu_sys \<Rightarrow> spu_sys" where
  "set_slice c n y = y\<lparr>sy_ctx := (sy_ctx y)(c := map_option (\<lambda>C. C\<lparr>time_slice := word_of_int n\<rparr>) (sy_ctx y c))\<rparr>"

definition ticked :: "spu_env \<Rightarrow> caddr \<Rightarrow> saddr \<Rightarrow> spu_context \<Rightarrow> caddr option \<Rightarrow> spu_sys \<Rightarrow> spu_sys \<Rightarrow> bool" where
  "ticked e c s C new y y' \<longleftrightarrow>
     (if 1 < uint (time_slice C) \<and> SPU_SCHED_SPU_RUN \<in> sched_flags C then y' = set_slice c (uint (time_slice C) - 1) (spu_tick y)
      else (case new of
          None \<Rightarrow> y' = set_slice c (max 1 (uint (time_slice C) - 1)) (spu_tick y)
        | Some d \<Rightarrow> saved c (SPU_SCHED_SPU_RUN \<in> sched_flags C) y' \<and> runs_on e d s y' \<and> only {c, d} s y y'))"

lemma word_pos:
  fixes w :: "32 word"
  assumes "w \<noteq> 0"
  shows "1 \<le> uint w" and "word_of_int (uint w - 1) = w - 1" and "w - 1 = 0 \<longleftrightarrow> uint w = 1"
proof -
  show 1: "1 \<le> uint w" using assms by (metis less_le_not_le unsigned_greater_eq int_one_le_iff_zero_less order_le_imp_less_or_eq uint_0_iff)
  show 2: "word_of_int (uint w - 1) = w - 1" by simp
  show "w - 1 = 0 \<longleftrightarrow> uint w = 1" by (metis eq_iff_diff_eq_0 unsigned_1 word_uint_eqI)
qed

lemma slice_next_waiting:
  assumes "sy_ctx y c = Some C" and "sy_ctx y' = (sy_ctx y)(c \<mapsto> C\<lparr>time_slice := w\<rparr>)" and "sy_prio y' = sy_prio y"
  shows "next_waiting e node prio y' = next_waiting e node prio y" and "queued_unbound y' = queued_unbound y"
proof -
  have "(\<exists>D. sy_ctx y' d = Some D \<and> node_allowed e D node) = (\<exists>D. sy_ctx y d = Some D \<and> node_allowed e D node)" for d
    using assms by (auto simp: node_allowed_def)
  then have "waiting e node lo hi P y' = waiting e node lo hi P y" for lo hi P unfolding waiting_def by presburger
  then show "next_waiting e node prio y' = next_waiting e node prio y" by (simp add: next_waiting_def assms(3) split: option.split)
  show "queued_unbound y' = queued_unbound y" using assms(1) unfolding queued_unbound_def assms(2)
    by (auto split: if_splits) (metis option.inject option.simps(3))
qed

lemma tick_requeue:
  assumes i: "spu_inv e y" and C: "sy_ctx y c = Some C" "c_rq C = None" "c_spu C = None" "c_state C = SPU_STATE_SAVED" "c_prio C < MAX_PRIO e"
  shows "\<exists>y'. (if b then spu_add_to_rq e c y else Some y) = Some y' \<and> spu_inv e y' \<and> saved c b y' \<and>
    sy_spu y' = sy_spu y \<and> (\<forall>d. d \<noteq> c \<longrightarrow> sy_ctx y' d = sy_ctx y d)"
proof -
  obtain P where P: "sy_prio y = Some P" using i by (rule spu_inv_prio)
  with i C queued_inv [OF i C(1,2,5) P] spu_add_to_rq_eq [OF C(1) P C(5)] show ?thesis
    by (auto simp: spu_add_to_rq_def saved_def queued_def)
qed

lemma tick_preempts:
  assumes i: "spu_inv_but {c} e y" and pc: "prio_consts e" and q: "queued_unbound y" and C: "sy_ctx y c = Some C" "c_spu C = Some s"
    and p: "c_prio C < MAX_PRIO e" and d: "sy_ctx y d = Some D" "c_rq D \<noteq> None" and P: "sy_prio y = Some P"
  shows "\<exists>y'. do {
       y3 \<leftarrow> spu_unschedule e s c False (dequeued d D P y);
       C3 \<leftarrow> sy_ctx y3 c;
       y4 \<leftarrow> (if SPU_SCHED_SPU_RUN \<in> sched_flags C3 then spu_add_to_rq e c y3 else Some y3);
       spu_schedule e s d y4 } = Some y' \<and> spu_inv e y' \<and>
     saved c (SPU_SCHED_SPU_RUN \<in> sched_flags C) y' \<and> runs_on e d s y' \<and> only {c, d} s y y'"
proof -
  have D: "c_spu D = None" using q d by (auto simp: queued_unbound_def)
  from unschedule_next [OF i q C d P] obtain y3 C' S' where y3: "spu_unschedule e s c False (dequeued d D P y) = Some y3"
    "spu_inv e y3" "d \<noteq> c" "sy_ctx y3 = (sy_ctx y)(d \<mapsto> D\<lparr>c_rq := None\<rparr>, c \<mapsto> C')" "off_spu C C'" "c_rq C' = None"
    "sy_spu y3 = (sy_spu y)(s \<mapsto> S')" "s_ctx S' = None" by auto
  have C3: "sy_ctx y3 c = Some C'" "sched_flags C' = sched_flags C" using y3(4,5) by (simp_all add: off_spu_def ctx_keep_def)
  from tick_requeue [OF y3(2) C3(1) y3(6), of "SPU_SCHED_SPU_RUN \<in> sched_flags C"] y3(5) p obtain y4 where
    y4: "(if SPU_SCHED_SPU_RUN \<in> sched_flags C then spu_add_to_rq e c y3 else Some y3) = Some y4" "spu_inv e y4"
      "saved c (SPU_SCHED_SPU_RUN \<in> sched_flags C) y4" "sy_spu y4 = sy_spu y3" "\<And>x. x \<noteq> c \<Longrightarrow> sy_ctx y4 x = sy_ctx y3 x"
    by (auto simp: off_spu_def ctx_keep_def)
  have d4: "sy_ctx y4 d = Some (D\<lparr>c_rq := None\<rparr>)" "sy_spu y4 s = Some S'" using y4(4,5) y3(3,4,7) by simp_all
  from schedule_next [OF y4(2) pc d4(1) _ _ d4(2)] D y3(8) obtain y' where
    y': "spu_schedule e s d y4 = Some y'" "spu_inv e y'" "runs_on e d s y'" "only {d} s y4 y'" by auto
  have "saved c (SPU_SCHED_SPU_RUN \<in> sched_flags C) y'" using y4(3) y'(4) y3(3) by (simp add: saved_def only_def)
  moreover have "only {c, d} s y y'" using y'(4) y4(4,5) y3(4,7) by (simp add: only_def)
  ultimately show ?thesis using y3(1) C3 y4(1) y'(1-3) by simp
qed

text \<open>The state in which the slice of \<open>c\<close> has gone down, and the rest of \<^verbatim>\<open>spusched_tick\<close>.\<close>

definition slice_down :: "caddr \<Rightarrow> spu_context \<Rightarrow> spu_sys \<Rightarrow> spu_sys" where
  "slice_down c C y = (spu_tick y)\<lparr>sy_ctx := (sy_ctx y)(c \<mapsto> C\<lparr>time_slice := time_slice C - 1\<rparr>)\<rparr>"

lemma tick_unfold:
  assumes i: "spu_inv e y" and a: "spu_acquire e (sy_tick y) c = 0" and C: "sy_ctx y c = Some C" "c_spu C = Some s"
    and rr: "round_robin e C" and S: "sy_spu y s = Some S"
  shows "spusched_tick e c y = (if time_slice C - 1 \<noteq> 0 \<and> SPU_SCHED_SPU_RUN \<in> sched_flags C then Some (slice_down c C y)
     else Option.bind (grab_runnable_context e (c_prio C + 1) (s_node S) (slice_down c C y)) (\<lambda>(new, y2).
       case new of
         Some d \<Rightarrow> do {
           y3 \<leftarrow> spu_unschedule e s c False y2;
           C3 \<leftarrow> sy_ctx y3 c;
           y4 \<leftarrow> (if SPU_SCHED_SPU_RUN \<in> sched_flags C3 then spu_add_to_rq e c y3 else Some y3);
           spu_schedule e s d y4 }
       | None \<Rightarrow> ctx_upd y2 c (\<lambda>C. if time_slice C = 0 then C\<lparr>time_slice := time_slice C + 1\<rparr> else C)))"
proof -
  have "c_state C = SPU_STATE_RUNNABLE" using bind_wfD(4) [OF spu_invD(1) [OF i] C(1)] C(2) by auto
  with a rr C S show ?thesis by (simp add: spusched_tick_def round_robin_def Let_def ctx_upd_def slice_down_def spu_tick_def)
qed

lemma slice_down_inv:
  assumes i: "spu_inv e y" and C: "sy_ctx y c = Some C"
  shows "spu_inv_but {c} e (slice_down c C y)" and "time_slice C - 1 \<noteq> 0 \<Longrightarrow> spu_inv e (slice_down c C y)"
proof -
  have "spu_inv e (spu_tick y)" "sy_ctx (spu_tick y) c = Some C" using i C by (simp_all add: tick_inv) (simp add: spu_tick_def)
  from slice_change_inv [OF this, of "{c}"] slice_change_inv [OF this, of "{}"] show "spu_inv_but {c} e (slice_down c C y)"
    "time_slice C - 1 \<noteq> 0 \<Longrightarrow> spu_inv e (slice_down c C y)" by (auto simp: slice_down_def spu_tick_def)
qed

lemma tick_ok:
  assumes i: "spu_inv e y" and pc: "prio_consts e" and q: "queued_unbound y" and a: "spu_acquire e (sy_tick y) c = 0"
    and C: "sy_ctx y c = Some C" "c_spu C = Some s" and rr: "round_robin e C" and p: "c_prio C < MAX_PRIO e"
    and S: "sy_spu y s = Some S" and new: "next_waiting e (s_node S) (c_prio C + 1) y = new"
  shows "\<exists>y'. spusched_tick e c y = Some y' \<and> spu_inv e y' \<and> ticked e c s C new y y'"
proof -
  let ?w = "time_slice C" and ?y = "spu_tick y"
  let ?C = "C\<lparr>time_slice := ?w - 1\<rparr>" and ?y1 = "slice_down c C y"
  note r = tick_unfold [OF i a C rr S] and i1 = slice_down_inv [OF i C(1)]
  have w0: "?w \<noteq> 0" using bind_wfD(5) [OF spu_invD(1) [OF i] C(1)] C(2) by auto
  note w = word_pos [OF w0]
  have C1: "sy_ctx ?y1 c = Some ?C" by (simp add: slice_down_def)
  obtain P where P: "sy_prio ?y1 = Some P" using i1(1) by (rule spu_inv_prio)
  have n1: "next_waiting e (s_node S) (c_prio C + 1) ?y1 = new" "queued_unbound ?y1"
    using slice_next_waiting [OF C(1), of ?y1 "?w - 1"] new q by (simp_all add: slice_down_def spu_tick_def)
  have g: "grab_runnable_context e (c_prio C + 1) (s_node S) ?y1 = Some (case new of None \<Rightarrow> (None, ?y1)
     | Some d \<Rightarrow> (Some d, dequeued d (the (sy_ctx ?y1 d)) P ?y1))"
    using grab_next [OF i1(1) _ P, of "c_prio C + 1" "s_node S"] p n1(1) by simp
  show ?thesis
  proof (cases "?w - 1 \<noteq> 0 \<and> SPU_SCHED_SPU_RUN \<in> sched_flags C")
    case True
    have "?y1 = set_slice c (uint ?w - 1) ?y" using C w(2) by (simp add: slice_down_def set_slice_def spu_tick_def)
    with True r w i1(2) show ?thesis by (auto simp: ticked_def)
  next
    case False
    show ?thesis
    proof (cases new)
      case None
      let ?t = "if ?w - 1 = 0 then 1 else ?w - 1"
      let ?z = "?y1\<lparr>sy_ctx := (sy_ctx ?y1)(c \<mapsto> ?C\<lparr>time_slice := ?t\<rparr>)\<rparr>"
      have "spu_inv e ?z" using slice_inv [OF i1(1) C1, of ?t] by simp
      moreover have "word_of_int (max 1 (uint ?w - 1)) = ?t" using w by (auto simp: max_def)
      then have "?z = set_slice c (max 1 (uint ?w - 1)) ?y" using C by (simp add: slice_down_def set_slice_def spu_tick_def)
      moreover have "spusched_tick e c y = Some ?z" using r g None False C1 by (auto simp: ctx_upd_def)
      ultimately show ?thesis using False None w by (auto simp: ticked_def)
    next
      case (Some d)
      obtain D where d: "sy_ctx ?y1 d = Some D" "c_rq D \<noteq> None" using next_waiting_queued [OF i1(1)] n1(1) Some by metis
      from tick_preempts [OF i1(1) pc n1(2) C1 _ _ d P, of s] C p r g Some False d obtain y' where
        y': "spusched_tick e c y = Some y'" "spu_inv e y'"
        "saved c (SPU_SCHED_SPU_RUN \<in> sched_flags C) y'" "runs_on e d s y'" "only {c, d} s ?y1 y'" by auto
      have "only {c, d} s y y'" using y'(5) by (simp add: only_def slice_down_def spu_tick_def)
      then show ?thesis using False Some w y'(1-4) by (auto simp: ticked_def)
    qed
  qed
qed

end
