(* ===== verification/Spu_Activate.thy ===== *)
theory Spu_Activate
  imports Spu_Result
begin

text \<open>
  What \<^verbatim>\<open>spu_activate\<close> does with a context that has no gang: it runs on the first idle SPU, on the SPU of a
  preempted context, or waits in a run queue.
\<close>

section \<open>Idle SPUs\<close>

text \<open>The first free SPU of the allowed nodes, which are tried once each from the node of the current processor on.\<close>

definition first_idle :: "spu_env \<Rightarrow> spu_context \<Rightarrow> spu_sys \<Rightarrow> saddr option" where
  "first_idle e C y = find (is_free y) (usable e C (map (\<lambda>i. (cpu_node e + i) mod MAX_NUMNODES e) [0..<MAX_NUMNODES e]) y)"

lemma usable_iff:
  assumes "node_wf e y" and "cpu_node e < MAX_NUMNODES e"
  shows "s \<in> set (usable e C (visits e (MAX_NUMNODES e) (cpu_node e)) y) \<longleftrightarrow> (\<exists>S. sy_spu y s = Some S \<and> node_allowed e C (s_node S))"
  using assms visits_all [OF assms(2)] unfolding usable_def node_wf_def by (fastforce split: if_splits)

lemma first_idle_visits:
  "cpu_node e < MAX_NUMNODES e \<Longrightarrow> first_idle e C y = find (is_free y) (usable e C (visits e (MAX_NUMNODES e) (cpu_node e)) y)"
  using visits_eq [of e "cpu_node e" "MAX_NUMNODES e"] by (simp add: first_idle_def)

lemma first_idle_None:
  assumes "node_wf e y" and "cpu_node e < MAX_NUMNODES e" and "first_idle e C y = None"
    and "sy_spu y s = Some S" and "node_allowed e C (s_node S)"
  shows "alloc_state S = SPU_USED"
  using assms(3-5) usable_iff [OF assms(1,2), of s C] unfolding first_idle_visits [OF assms(2)]
  by (cases "alloc_state S") (auto simp: find_None_iff is_free_def)

lemma first_idle_Some:
  assumes "node_wf e y" and "cpu_node e < MAX_NUMNODES e" and "first_idle e C y = Some s"
  obtains S where "sy_spu y s = Some S" "alloc_state S = SPU_FREE" "node_allowed e C (s_node S)"
proof -
  have "s \<in> set (usable e C (visits e (MAX_NUMNODES e) (cpu_node e)) y)" "is_free y s"
    using assms(3) unfolding first_idle_visits [OF assms(2)] by (auto simp: find_Some_iff)
  then show thesis using that usable_iff [OF assms(1,2)] by (auto simp: is_free_def)
qed

lemma get_idle_eq:
  assumes "node_wf e y" and "cpu_node e < MAX_NUMNODES e" and "sy_ctx y c = Some C" and "c_gang C = None"
  shows "spu_get_idle e c y = (case first_idle e C y of None \<Rightarrow> Some (None, y) | Some s \<Rightarrow> idle_found s y)"
  using assms(3,4) idle_nodes_eq [OF assms(1,3)] first_idle_visits [OF assms(2)]
  by (simp add: spu_get_idle_def idle_any_def split: option.splits)

lemma first_idle_tick [simp]: "first_idle e C (spu_tick y) = first_idle e C y"
proof -
  have "is_free (spu_tick y) = is_free y" by (rule ext) (simp add: is_free_def spu_tick_def)
  then show ?thesis by (simp add: first_idle_def usable_def spu_tick_def cong: if_cong)
qed

section \<open>Binding to the SPU found\<close>

lemma runs_switch:
  assumes "runs_on e c s y" and "spuctx_switch_state e c new y = Some y'"
  shows "runs_on e c s y' \<and> only {c} s y y'"
proof -
  obtain C S where C: "sy_ctx y c = Some C" "c_spu C = Some s" and S: "sy_spu y s = Some S" using assms(1) by (auto simp: runs_on_def)
  from switch_bound [OF C S, of e new] assms C S show ?thesis by (auto simp: runs_on_def only_def)
qed

lemma activate_on_ok:
  assumes i: "spu_inv e y" and pc: "prio_consts e" and C: "sy_ctx y c = Some C" "c_spu C = None" "c_rq C = None"
    and S: "sy_spu y s = Some S" "s_ctx S = None"
  shows "\<exists>y'. activate_on e s c y = Some (0, y') \<and> spu_inv e y' \<and> runs_on e c s y' \<and> only {c} s y y'"
proof -
  have it: "spu_inv e (spu_tick y)" using i by (simp add: tick_inv)
  have "c_state C \<noteq> SPU_STATE_RUNNABLE" using bind_wfD(4) [OF spu_invD(1) [OF i] C(1)] C(2) by simp
  then have "c_state C = SPU_STATE_SAVED" by (cases "c_state C") auto
  with schedule_next [OF it pc, of c C s S] C S obtain y3 where
    y3: "spu_schedule_locked e s c (spu_tick y) = Some y3" "spu_inv e y3" "runs_on e c s y3" "only {c} s (spu_tick y) y3"
    by (auto simp: spu_schedule_def spu_tick_def)
  have o3: "only {c} s y y3" using y3(4) by (simp add: only_def spu_tick_def)
  obtain D T where D: "sy_ctx y3 c = Some D" "c_spu D = Some s" "sy_spu y3 s = Some T" using y3(3) by (auto simp: runs_on_def)
  obtain y4 where y4: "spuctx_switch_state e c SPU_UTIL_USER y3 = Some y4" using switch_bound [OF D] by blast
  have "spu_inv e y4" "runs_on e c s y4" "only {c} s y y4"
    using switch_inv [OF y3(2) y4] runs_switch [OF y3(3) y4] o3 by (auto simp: only_def)
  then show ?thesis using y3 o3 y4 by (auto simp: activate_on_def)
qed

section \<open>Activation\<close>

definition node_order :: "spu_env \<Rightarrow> nat list" where
  "node_order e = visits e (MAX_NUMNODES e) (cpu_node e)"

text \<open>
  The outcome without an idle SPU: a real-time context takes the SPU of a least urgent context, which is saved; any other
  context that may be scheduled waits.
\<close>

definition activated_without_idle :: "spu_env \<Rightarrow> caddr \<Rightarrow> spu_context \<Rightarrow> spu_sys \<Rightarrow> spu_sys \<Rightarrow> bool" where
  "activated_without_idle e c C y y' \<longleftrightarrow>
     (if rt_prio e (c_prio C) \<and> \<not> no_victim e C y (node_order e)
      then \<exists>node s v V. best_victim e C y (node_order e) node s v V \<and> runs_on e c s y' \<and> v \<noteq> c \<and>
        saved v (c_rq V \<noteq> None \<or> SPU_SCHED_SPU_RUN \<in> sched_flags V) y' \<and> only {c, v} s y y'
      else saved c True y' \<and> sy_spu y' = sy_spu y \<and> (\<forall>d. d \<noteq> c \<longrightarrow> sy_ctx y' d = sy_ctx y d))"

lemma activate_idle_ok:
  assumes i: "spu_inv e y" and pc: "prio_consts e" and C: "sy_ctx y c = Some C" "c_spu C = None" "c_rq C = None" "c_gang C = None"
    and n: "cpu_node e < MAX_NUMNODES e" and sg: "\<not> signal_pending e (sy_tick y)" and s: "first_idle e C y = Some s"
  shows "\<exists>y'. spu_activate e schedule c y = Some (0, y') \<and> spu_inv e y' \<and> runs_on e c s y' \<and> only {c} s y y'"
proof -
  let ?y = "spu_tick y"
  have it: "spu_inv e ?y" using i by (simp add: tick_inv)
  have Ct: "sy_ctx ?y c = Some C" using C(1) by (simp add: spu_tick_def)
  from first_idle_Some [OF spu_invD(2) [OF i] n s] obtain S where S: "sy_spu y s = Some S" "alloc_state S = SPU_FREE" by blast
  have Sc: "s_ctx S = None" using bind_wfD(1) [OF spu_invD(1) [OF i] S(1)] S(2) by (cases "s_ctx S") auto
  define y1 where "y1 = spu_log (InitChannels s) (?y\<lparr>sy_spu := (sy_spu ?y)(s \<mapsto> S\<lparr>alloc_state := SPU_USED\<rparr>)\<rparr>)"
  have f: "idle_found s ?y = Some (Some s, y1)" using S(1) by (simp add: idle_found_def spu_upd_def y1_def spu_tick_def)
  have g: "spu_get_idle e c ?y = Some (Some s, y1)" using get_idle_eq [OF spu_invD(2) [OF it] n Ct C(4)] s f by simp
  have y1: "spu_inv e y1" "sy_ctx y1 c = Some C" "sy_spu y1 s = Some (S\<lparr>alloc_state := SPU_USED\<rparr>)" "only {} s y y1"
    using idle_found_inv [OF it f] C(1) by (simp_all add: y1_def spu_log_def spu_tick_def only_def)
  from activate_on_ok [OF y1(1) pc y1(2) C(2,3) y1(3)] Sc obtain y' where
    y': "activate_on e s c y1 = Some (0, y')" "spu_inv e y'" "runs_on e c s y'" "only {c} s y1 y'" by auto
  have "choose_spu e c ?y = Some (Some s, y1)" using g y1(2) by (simp add: choose_spu_def)
  then have "spu_activate_top e schedule c y = activate_on e s c y1" using sg by (subst spu_activate_top.simps) simp
  moreover have "only {c} s y y'" using y'(4) y1(4) by (simp add: only_def)
  ultimately show ?thesis using y' C by (simp add: spu_activate_def)
qed

lemma activate_wait_ok:
  assumes i: "spu_inv e z" and z: "sy_ctx z = sy_ctx y" "sy_spu z = sy_spu y" and C: "sy_ctx y c = Some C" "c_spu C = None" "c_rq C = None"
    and p: "c_prio C < MAX_PRIO e" and fl: "SPU_CREATE_NOSCHED \<notin> c_flags C" and sg: "\<not> signal_pending e (sy_tick y)"
    and ch: "choose_spu e c (spu_tick y) = Some (None, z)"
    and nv: "\<not> rt_prio e (c_prio C) \<or> no_victim e C y (node_order e)"
  shows "\<exists>y'. spu_activate e schedule c y = Some (0, y') \<and> spu_inv e y' \<and> activated_without_idle e c C y y'"
proof -
  have "c_state C = SPU_STATE_SAVED" using bind_wfD(4) [OF spu_invD(1) [OF i], of c C] C z(1) by (cases "c_state C") auto
  with tick_requeue [OF i, of c C True] C z p obtain y' where y': "spu_add_to_rq e c z = Some y'" "spu_inv e y'" "saved c True y'"
    "sy_spu y' = sy_spu y" "\<And>d. d \<noteq> c \<Longrightarrow> sy_ctx y' d = sy_ctx y d" by auto
  have "spu_activate_top e schedule c y = Some (0, y')"
    using sg ch C z(1) fl y'(1) by (subst spu_activate_top.simps) simp
  then show ?thesis using C y'(2-5) nv by (auto simp: spu_activate_def activated_without_idle_def)
qed

lemma activate_preempt_ok:
  assumes i: "spu_inv e z" and pc: "prio_consts e" and C: "sy_ctx y c = Some C" "c_spu C = None" "c_rq C = None"
    and sg: "\<not> signal_pending e (sy_tick y)" and ch: "choose_spu e c (spu_tick y) = Some (Some s, z)" and rt: "rt_prio e (c_prio C)"
    and b: "best_victim e C y (node_order e) node s v V" and pr: "preempted y s v V z"
  shows "\<exists>y'. spu_activate e schedule c y = Some (0, y') \<and> spu_inv e y' \<and> activated_without_idle e c C y y'"
proof -
  have V: "sy_ctx y v = Some V" "c_prio C < c_prio V" using b by (auto simp: best_victim_def candidate_def)
  have nv: "\<not> no_victim e C y (node_order e)" using b unfolding best_victim_def no_victim_def by blast
  have vc: "v \<noteq> c" using V C(1) by auto
  have Cz: "sy_ctx z c = Some C" using pr vc C(1) by (simp add: preempted_def)
  obtain S where S: "sy_spu z s = Some S" "s_ctx S = None" using pr by (auto simp: preempted_def)
  from activate_on_ok [OF i pc Cz C(2,3) S] obtain y' where
    y': "activate_on e s c z = Some (0, y')" "spu_inv e y'" "runs_on e c s y'" "only {c} s z y'" by auto
  have "spu_activate_top e schedule c y = Some (0, y')" using sg ch y'(1) by (subst spu_activate_top.simps) simp
  moreover have "saved v (c_rq V \<noteq> None \<or> SPU_SCHED_SPU_RUN \<in> sched_flags V) y'" "only {c, v} s y y'"
    using pr y'(4) vc by (auto simp: preempted_def saved_def only_def)
  then have "activated_without_idle e c C y y'" unfolding activated_without_idle_def using rt nv b y'(3) vc by auto
  ultimately show ?thesis using y'(2) C by (simp add: spu_activate_def)
qed

lemma activate_busy_ok:
  assumes i: "spu_inv e y" and pc: "prio_consts e" and C: "sy_ctx y c = Some C" "c_spu C = None" "c_rq C = None" "c_gang C = None"
    and n: "cpu_node e < MAX_NUMNODES e" and sg: "\<not> signal_pending e (sy_tick y)" and s: "first_idle e C y = None"
    and sane: "sane_ctxs e y" and l: "locks_free e m" and fl: "SPU_CREATE_NOSCHED \<notin> c_flags C"
  shows "\<exists>y'. spu_activate e schedule c y = Some (0, y') \<and> spu_inv e y' \<and> activated_without_idle e c C y y'"
proof -
  let ?y = "spu_tick y"
  have it: "spu_inv e ?y" using i by (simp add: tick_inv)
  have Ct: "sy_ctx ?y c = Some C" using C(1) by (simp add: spu_tick_def)
  have g: "spu_get_idle e c ?y = Some (None, ?y)" using get_idle_eq [OF spu_invD(2) [OF it] n Ct C(4)] s by simp
  have p: "c_prio C < MAX_PRIO e" using sane C(1) by (auto simp: sane_ctxs_def)
  show ?thesis
  proof (cases "rt_prio e (c_prio C)")
    case False
    then have "choose_spu e c ?y = Some (None, ?y)" using g Ct by (simp add: choose_spu_def)
    then show ?thesis using activate_wait_ok [OF it _ _ C(1-3) p fl sg] False by (simp add: spu_tick_def)
  next
    case True
    from find_victim_ok [OF it Ct _ l] sane obtain r z where
      v: "find_victim e c ?y = Some (r, z)" "spu_inv e z" "victim_result e C ?y r z" by auto
    have ch: "choose_spu e c ?y = Some (r, z)" using g Ct True v(1) by (simp add: choose_spu_def)
    show ?thesis
    proof (cases r)
      case None
      then obtain t where "no_victim e C y (node_order e)" "z = ?y\<lparr>sy_tick := t\<rparr>"
        using v(3) by (auto simp: victim_result_def Let_def node_order_def)
      then have "no_victim e C y (node_order e)" "sy_ctx z = sy_ctx y" "sy_spu z = sy_spu y" by (simp_all add: spu_tick_def)
      then show ?thesis using activate_wait_ok [OF v(2) _ _ C(1-3) p fl sg] ch None by simp
    next
      case (Some t)
      then obtain node w W where "best_victim e C y (node_order e) node t w W" "preempted y t w W z"
        using v(3) by (auto simp: victim_result_def Let_def node_order_def)
      then show ?thesis using activate_preempt_ok [OF v(2) pc C(1-3) sg _ True] ch Some by simp
    qed
  qed
qed

end
