(* ===== verification/Spu_Demo.thy ===== *)
theory Spu_Demo
  imports Spu_Activate
begin

text \<open>
  A concrete state of the SPU scheduler: one node with the SPU 1, which runs the context 10, and the free
  SPU 2; the contexts 11 (priority 120) and 12 (priority 110, with the flags given) wait, and the real-time
  context 13 neither runs nor waits.
\<close>

definition demo_spu_env :: spu_env where
  "demo_spu_env = \<lparr>MAX_NUMNODES = 1, MAX_PRIO = 140, MAX_USER_PRIO = 40, MAX_RT_PRIO = 100, HZ = 1000, SCHED_FIFO = 1,
     LOAD_FREQ = 5001, FIXED_1 = 2048, EXP_1 = 1884, EXP_5 = 2014, EXP_15 = 2037, calc_load = (\<lambda>l x a. l * x + a), cpu_node = 0,
     this_cpu = 0, online_nodes = [0], nr_cpus_node = (\<lambda>n. if n = 0 then 1 else 0), cpumask_of_node = (\<lambda>_. {0}), cur_pid = 7,
     cur_tgid = 7, cur_prio = 120, cur_static_prio = 120, cur_policy = 0, cur_cpus = {0}, signal_pending = (\<lambda>_. False),
     ktime_get_ns = of_nat, jiffies = of_nat, spu_stopped = (\<lambda>_ _. False), runcntl_runnable = (\<lambda>_ _. True),
     mutex_trylock = (\<lambda>_ _. True), spu_acquire = (\<lambda>_ _. 0), kthread_should_stop = (\<lambda>_. False)\<rparr>"

definition demo_stats :: "util \<Rightarrow> spu_stats" where
  "demo_stats u = \<lparr>st_util = u, st_tstamp = 0, st_times = (\<lambda>_. 0), st_invol = 0, st_slb = 0, st_class2 = 0\<rparr>"

text \<open>A context that is saved and waits nowhere.\<close>

definition demo_ctx :: "nat \<Rightarrow> create_flag set \<Rightarrow> spu_context" where
  "demo_ctx p fl = \<lparr>c_spu = None, c_state = SPU_STATE_SAVED, c_flags = fl, c_ops = SpuBackingOps, c_gang = None, aff_offset = 0,
     c_rq = None, time_slice = 0, sched_flags = {SPU_SCHED_SPU_RUN}, cpus_allowed = {0}, c_policy = 0, c_prio = p, c_tid = 7,
     last_ran = 0, c_kref = 1, c_stats = demo_stats SPU_UTIL_IDLE_LOADED, slb_flt_base = 0, class2_intr_base = 0\<rparr>"

definition demo_running :: spu_context where
  "demo_running = (demo_ctx 120 {})\<lparr>c_spu := Some 1, c_state := SPU_STATE_RUNNABLE, c_ops := SpuHwOps, time_slice := 1,
     c_stats := demo_stats SPU_UTIL_USER\<rparr>"

definition demo_spu :: "caddr option \<Rightarrow> alloc \<Rightarrow> spu" where
  "demo_spu c a = \<lparr>s_node = 0, s_ctx = c, alloc_state = a, has_mem_affinity = False, s_pid = 0, s_tgid = 0, s_flags = 0,
     s_callbacks = False, s_timestamp = 0, s_stats = demo_stats SPU_UTIL_IDLE_LOADED\<rparr>"

definition demo_node :: "saddr list \<Rightarrow> int \<Rightarrow> cbe_info" where
  "demo_node ss n = \<lparr>n_spus = ss, aff_ring = ss, nr_active = n, busy_spus = n, reserved_spus = 0\<rparr>"

definition demo_prio :: spu_prio_array where
  "demo_prio = \<lparr>bitmap = (\<lambda>_. False)(120 := True, 110 := True), runq = (\<lambda>_. [])(120 := [11], 110 := [12]), nr_waiting = 2\<rparr>"

definition demo_spu_sys :: "create_flag set \<Rightarrow> spu_sys" where
  "demo_spu_sys fl = \<lparr>sy_ctx = [10 \<mapsto> demo_running, 11 \<mapsto> (demo_ctx 120 {})\<lparr>c_rq := Some 120\<rparr>,
       12 \<mapsto> (demo_ctx 110 fl)\<lparr>c_rq := Some 110\<rparr>, 13 \<mapsto> demo_ctx 50 {}],
     sy_spu = [1 \<mapsto> demo_spu (Some 10) SPU_USED, 2 \<mapsto> demo_spu None SPU_FREE], sy_gang = Map.empty,
     sy_node = (\<lambda>_. demo_node [] 0)(0 := demo_node [1, 2] 1), sy_prio = Some demo_prio, spusched_timer = Some 5,
     spuloadavg_timer = Some 0, spu_avenrun = (0, 0, 0), sy_tick = 0, sy_events = []\<rparr>"

text \<open>The machine before the initialisation.\<close>

definition demo_boot :: spu_sys where
  "demo_boot = \<lparr>sy_ctx = Map.empty, sy_spu = [1 \<mapsto> demo_spu None SPU_FREE], sy_gang = Map.empty,
     sy_node = (\<lambda>_. demo_node [] 0)(0 := demo_node [1] 0), sy_prio = None, spusched_timer = None, spuloadavg_timer = None,
     spu_avenrun = (0, 0, 0), sy_tick = 0, sy_events = []\<rparr>"

lemmas demo_spu_defs = demo_spu_env_def demo_stats_def demo_ctx_def demo_running_def demo_spu_def demo_node_def demo_prio_def
  demo_spu_sys_def

lemma demo_consts: "prio_consts demo_spu_env"
  by (simp add: prio_consts_def demo_spu_env_def)

lemma demo_ctx_at: "sy_ctx (demo_spu_sys fl) c = Some C \<longleftrightarrow> c = 10 \<and> C = demo_running \<or> c = 11 \<and> C = (demo_ctx 120 {})\<lparr>c_rq := Some 120\<rparr> \<or>
   c = 12 \<and> C = (demo_ctx 110 fl)\<lparr>c_rq := Some 110\<rparr> \<or> c = 13 \<and> C = demo_ctx 50 {}"
  by (auto simp: demo_spu_sys_def)

lemma demo_spu_at: "sy_spu (demo_spu_sys fl) s = Some S \<longleftrightarrow> s = 1 \<and> S = demo_spu (Some 10) SPU_USED \<or> s = 2 \<and> S = demo_spu None SPU_FREE"
  by (auto simp: demo_spu_sys_def)

lemma demo_fields [simp]:
  "c_rq (demo_ctx p fl) = None" "c_prio (demo_ctx p fl) = p" "c_spu (demo_ctx p fl) = None" "c_state (demo_ctx p fl) = SPU_STATE_SAVED"
  "c_gang (demo_ctx p fl) = None" "c_flags (demo_ctx p fl) = fl" "c_rq demo_running = None" "c_prio demo_running = 120"
  "c_spu demo_running = Some 1" "c_state demo_running = SPU_STATE_RUNNABLE" "c_gang demo_running = None" "time_slice demo_running = 1"
  "c_flags demo_running = {}" "c_kref (demo_ctx p fl) = 1" "c_kref demo_running = 1" "c_policy demo_running = 0"
  by (simp_all add: demo_running_def demo_ctx_def)

lemma demo_spu_fields [simp]:
  "s_node (demo_spu c a) = 0" "s_ctx (demo_spu c a) = c" "alloc_state (demo_spu c a) = a"
  "n_spus (sy_node (demo_spu_sys fl) n) = (if n = 0 then [1, 2] else [])" "MAX_PRIO demo_spu_env = 140" "MAX_NUMNODES demo_spu_env = 1"
  "runq demo_prio p = (if p = 110 then [12] else if p = 120 then [11] else [])"
  by (simp_all add: demo_spu_def demo_spu_sys_def demo_node_def demo_spu_env_def demo_prio_def)

lemma demo_spu_rq: "rq_wf demo_spu_env (demo_spu_sys fl) demo_prio"
proof -
  let ?q = "(\<lambda>_. [])(120 := [11], 110 := [12]) :: nat \<Rightarrow> caddr list"
  have "(\<Sum>p<140. int (length (?q p))) = 2"
    using sum_upd [of 110 140 "\<lambda>l. int (length l)" "(\<lambda>_. [])(120 := [11 :: caddr])" "[12]"]
      sum_upd [of 120 140 "\<lambda>l. int (length l)" "\<lambda>_. []" "[11 :: caddr]"] by simp
  then have s: "nr_waiting demo_prio = (\<Sum>p<MAX_PRIO demo_spu_env. int (length (runq demo_prio p)))"
    by (simp add: demo_prio_def fun_upd_def)
  have m: "c \<in> set (runq demo_prio p) \<longleftrightarrow> (\<exists>C. sy_ctx (demo_spu_sys fl) c = Some C \<and> c_rq C = Some p)" for c p
    unfolding demo_ctx_at by auto
  have p: "p = c_prio C \<and> p < MAX_PRIO demo_spu_env" if "sy_ctx (demo_spu_sys fl) c = Some C" "c_rq C = Some p" for c C p
    using that unfolding demo_ctx_at by auto
  have d: "distinct (runq demo_prio p)" and b: "bitmap demo_prio p \<longleftrightarrow> runq demo_prio p \<noteq> []" for p by (simp_all add: demo_prio_def)
  have t: "spusched_timer (demo_spu_sys fl) \<noteq> None \<longleftrightarrow> nr_waiting demo_prio \<noteq> 0" by (simp add: demo_spu_sys_def demo_prio_def)
  show ?thesis unfolding rq_wf_def using d b s t m p by blast
qed

lemma demo_spu_inv: "spu_inv demo_spu_env (demo_spu_sys fl)"
proof (rule spu_invI [OF _ demo_spu_rq])
  show "bind_wf {} (demo_spu_sys fl)" unfolding bind_wf_def demo_ctx_at demo_spu_at by auto
  show "node_wf demo_spu_env (demo_spu_sys fl)" unfolding node_wf_def demo_ctx_at demo_spu_at by auto
  have "spu_count (demo_spu_sys fl) Q n = (if n = 0 \<and> Q demo_running then 1 else 0)" for Q n
    by (simp add: spu_count_def holds_def demo_spu_sys_def demo_node_def demo_spu_def)
  moreover have "is_user demo_running" "\<not> is_nosched demo_running"
    by (simp_all add: is_user_def is_nosched_def demo_running_def demo_stats_def demo_ctx_def)
  ultimately show "count_wf (demo_spu_sys fl)" unfolding count_wf_def by (simp add: demo_spu_sys_def demo_node_def)
qed (simp add: demo_spu_sys_def)

lemma demo_queued: "queued_unbound (demo_spu_sys fl)"
  unfolding queued_unbound_def demo_ctx_at by auto

lemma demo_next: "110 < p \<Longrightarrow> next_waiting demo_spu_env 0 p (demo_spu_sys fl) = Some 12"
proof -
  assume p: "110 < p"
  have f: "filter Q (concat (map (runq demo_prio) [0..<p])) = 12 # filter Q (concat (map (runq demo_prio) [111..<p]))" if "Q 12" for Q
  proof -
    have u: "[0..<p] = [0..<110] @ 110 # [111..<p]" using p upt_add_eq_append [of 0 110 "p - 110"] upt_conv_Cons [of 110 p] by simp
    have "concat (map (runq demo_prio) [0..<110]) = []" by (auto simp: concat_eq_Nil_conv)
    then show ?thesis unfolding u using that by simp
  qed
  have "\<exists>C. sy_ctx (demo_spu_sys fl) 12 = Some C \<and> node_allowed demo_spu_env C 0"
    by (simp add: demo_spu_sys_def demo_ctx_def demo_spu_env_def node_allowed_def)
  from f [of "\<lambda>c. \<exists>C. sy_ctx (demo_spu_sys fl) c = Some C \<and> node_allowed demo_spu_env C 0", OF this]
  have "waiting demo_spu_env 0 0 p demo_prio (demo_spu_sys fl) = 12 # waiting demo_spu_env 0 111 p demo_prio (demo_spu_sys fl)"
    unfolding waiting_def .
  then show ?thesis by (simp add: next_waiting_def demo_spu_sys_def)
qed

end
