(* ===== verification/Idr_Properties.thy ===== *)
theory Idr_Properties
  imports Idr_Zap Kernel_Demo Spu_Demo
begin

text \<open>
  The skip list against the IDR that it replaces: the runs of \<^verbatim>\<open>pid.c\<close> that agree in the two configurations, the
  case in which they do not, and the number that \<^verbatim>\<open>/proc/loadavg\<close> prints.
\<close>

section \<open>An IDR\<close>











section \<open>States of the examples\<close>













section \<open>Agreement and difference\<close>






section \<open>Shutdown\<close>

text \<open>
  \<^verbatim>\<open>zap_pid_ns_processes\<close> in the two configurations: the IDR signals the tasks of all pids from number 2 on, the skip list those of
  the first of them, and of all if no number is reserved.
\<close>

theorem shutdown_signals_first:
  assumes "idr_ok api B" and "kinv sl_inv sl_abs k" and "idr_rel sl_inv sl_abs B api k k'" and "live k ns n"
  shows "\<exists>ps qs. zap_kill skiplist_ops e ns None k = Some (k\<lparr>k_events := k_events k @ kill_log e k ps\<rparr>) \<and>
     idr_zap_kill api e ns 2 k' = Some (k'\<lparr>k_events := k_events k' @ kill_log e k' (ps @ qs)\<rparr>) \<and>
     (no_null (sl_abs (pid_sl n)) \<longrightarrow> qs = [])"
proof -
  let ?m = "sl_abs (pid_sl n)"
  have na: "k_ns k ns = Some n" "0 < kref n" using assms(4) by (auto simp: live_def)
  obtain n' where n': "k_ns k' ns = Some n'" "ns_rel sl_inv sl_abs B api n n'" using idr_rel_ns [OF assms(3) na(1)] .
  have R: "sl_inv (pid_sl n)" "B (pid_sl n') = ?m" using ns_relD(6) [OF n'(2) na(2)] by simp_all
  have fin: "finite (dom ?m)" by (rule skip.finite_keys [OF R(1)])
  have pids: "k_pids k p \<noteq> None" if "p \<in> set (idx_all ?m 2)" for p
  proof -
    from that obtain j where "idx_get ?m j \<noteq> None" "p = the (idx_get ?m j)"
      using finite_idx_get [OF fin, of 2] by (auto simp: idx_all_def)
    then have "idx_get ?m j = Some p" by auto
    with assms(2,4) show ?thesis by (fastforce simp: kinv_def index_wf_def pid_has_def)
  qed
  obtain qs where qs: "idx_all ?m 2 = idx_iter ?m 2 @ qs" using idx_iter_prefix [OF fin] by blast
  have "zap_kill skiplist_ops e ns None k = Some (k\<lparr>k_events := k_events k @ kill_log e k (idx_iter ?m 2)\<rparr>)"
    by (rule zap_kill_collect [of _ n]) (use skip.iter [OF R(1)] na pids qs in auto)
  moreover have "idr_zap_kill api e ns 2 k' = Some (k'\<lparr>k_events := k_events k' @ kill_log e k' (idx_iter ?m 2 @ qs)\<rparr>)"
    using idr_zap_kill_ok [OF assms(1), where n = n' and k = k' and ns = ns and nr = 2 and e = e] fin R(2) n'(1) pids idr_rel_fields(1) [OF assms(3)]
    by (simp add: qs)
  moreover have "qs = []" if "no_null ?m" using qs idx_iter_no_null [OF fin that, of 2] by simp
  ultimately show ?thesis by blast
qed

section \<open>/proc/loadavg\<close>




end
