(* ===== verification/Run_Queue.thy ===== *)
theory Run_Queue
  imports Kernel_Prelude
begin

text \<open>
  The interface between the run queues of the SPU scheduler and the functions that wait on them and choose from them:
  three operations and what they promise against a priority queue with one list for each priority.  The locale
  \<open>run_queue\<close> holds what follows for any provider: runs refine the abstract queue, and repeated choices serve the
  waiting contexts in the order of priority and arrival.
\<close>

section \<open>The abstract queue\<close>

type_synonym pqueue = "nat \<Rightarrow> addr list"

datatype rq_cmd = RAdd addr | RDel addr | RGrab nat nat

text \<open>The waiting ones below the priority \<open>m\<close> in the order of service, of those that \<open>Q\<close> admits.\<close>

definition pq_order :: "(addr \<Rightarrow> bool) \<Rightarrow> nat \<Rightarrow> pqueue \<Rightarrow> addr list" where
  "pq_order Q m q = filter Q (concat (map q [0..<m]))"

definition pq_add :: "nat \<Rightarrow> addr \<Rightarrow> pqueue \<Rightarrow> pqueue" where
  "pq_add p c q = (if c \<in> set (q p) then q else q(p := q p @ [c]))"

definition pq_del :: "addr \<Rightarrow> pqueue \<Rightarrow> pqueue" where
  "pq_del c q = (\<lambda>p. remove1 c (q p))"

fun pq_step :: "(addr \<Rightarrow> nat) \<Rightarrow> (nat \<Rightarrow> addr \<Rightarrow> bool) \<Rightarrow> rq_cmd \<Rightarrow> pqueue \<Rightarrow> addr option \<times> pqueue" where
  "pq_step prio ok (RAdd c) q = (None, pq_add (prio c) c q)"
| "pq_step prio ok (RDel c) q = (None, pq_del c q)"
| "pq_step prio ok (RGrab m node) q = (case pq_order (ok node) m q of [] \<Rightarrow> (None, q) | c # _ \<Rightarrow> (Some c, pq_del c q))"

primrec pq_run :: "(addr \<Rightarrow> nat) \<Rightarrow> (nat \<Rightarrow> addr \<Rightarrow> bool) \<Rightarrow> rq_cmd list \<Rightarrow> pqueue \<Rightarrow> addr option list \<times> pqueue" where
  "pq_run prio ok [] q = ([], q)"
| "pq_run prio ok (c # cs) q = (let (r, q1) = pq_step prio ok c q; (rs, q2) = pq_run prio ok cs q1 in (r # rs, q2))"

text \<open>A run of the operations.\<close>

fun rq_step where
  "rq_step add del grab (RAdd c) y = map_option (Pair None) (add c y)"
| "rq_step add del grab (RDel c) y = map_option (Pair None) (del c y)"
| "rq_step add del grab (RGrab m node) y = grab m node y"

primrec rq_run where
  "rq_run add del grab [] y = Some ([], y)"
| "rq_run add del grab (c # cs) y = do {
     (r, y1) \<leftarrow> rq_step add del grab c y;
     (rs, y2) \<leftarrow> rq_run add del grab cs y1;
     Some (r # rs, y2) }"

text \<open>The contexts named exist and have a priority with a queue.\<close>

fun rq_cmd_ok :: "(addr \<Rightarrow> bool) \<Rightarrow> (addr \<Rightarrow> nat) \<Rightarrow> nat \<Rightarrow> rq_cmd \<Rightarrow> bool" where
  "rq_cmd_ok known prio M (RAdd c) = (known c \<and> prio c < M)"
| "rq_cmd_ok known prio M (RDel c) = known c"
| "rq_cmd_ok known prio M (RGrab m node) = (m \<le> M)"

lemma remove1_first: "xs \<noteq> [] \<Longrightarrow> distinct xs \<Longrightarrow> filter (\<lambda>x. x \<noteq> hd xs) xs = tl xs"
  by (cases xs) (auto simp: filter_id_conv)

text \<open>Serving the first one leaves the rest of the order.\<close>

lemma pq_order_serve:
  assumes o: "pq_order Q m q = c # cs" and d: "distinct (pq_order Q m q)" and dq: "\<And>p. distinct (q p)"
  shows "pq_order Q m (pq_del c q) = cs"
proof -
  have "pq_del c q p = filter (\<lambda>x. x \<noteq> c) (q p)" for p
    using dq [of p] by (simp add: pq_del_def distinct_remove1_removeAll removeAll_filter_not_eq eq_commute)
  then have "concat (map (pq_del c q) ps) = filter (\<lambda>x. x \<noteq> c) (concat (map q ps))" for ps
    by (induction ps) simp_all
  then have "pq_order Q m (pq_del c q) = filter (\<lambda>x. x \<noteq> c) (pq_order Q m q)"
    by (simp add: pq_order_def conj_commute)
  then show ?thesis using remove1_first [OF _ d] o by simp
qed

lemma pq_order_distinct:
  assumes "\<And>p. distinct (q p)" and "\<And>p c. c \<in> set (q p) \<Longrightarrow> prio c = p"
  shows "distinct (pq_order Q m q)"
proof -
  have "distinct (concat (map q [0..<m]))"
  proof (induction m)
    case (Suc m)
    have "c \<notin> set (q m)" if "p < m" "c \<in> set (q p)" for p c
      using that assms(2) [of c p] assms(2) [of c m] by auto
    then have "set (concat (map q [0..<m])) \<inter> set (q m) = {}" by auto
    with Suc assms(1) show ?case by simp
  qed simp
  then show ?thesis by (simp add: pq_order_def)
qed

section \<open>The contract\<close>

locale run_queue =
  fixes add del :: "addr \<Rightarrow> 's \<Rightarrow> 's option"
    and grab :: "nat \<Rightarrow> nat \<Rightarrow> 's \<Rightarrow> (addr option \<times> 's) option"
    and inv :: "'s \<Rightarrow> bool"
    and known :: "'s \<Rightarrow> addr \<Rightarrow> bool"
    and prio :: "'s \<Rightarrow> addr \<Rightarrow> nat"
    and ok :: "'s \<Rightarrow> nat \<Rightarrow> addr \<Rightarrow> bool"
    and queue :: "'s \<Rightarrow> pqueue"
    and M :: nat
  assumes distinct_queue: "inv y \<Longrightarrow> distinct (queue y p)"
    and queued_at: "inv y \<Longrightarrow> c \<in> set (queue y p) \<Longrightarrow> known y c \<and> prio y c = p \<and> p < M"
    and add: "inv y \<Longrightarrow> known y c \<Longrightarrow> prio y c < M \<Longrightarrow> \<exists>y'. add c y = Some y' \<and> inv y' \<and>
      known y' = known y \<and> prio y' = prio y \<and> ok y' = ok y \<and> queue y' = pq_add (prio y c) c (queue y)"
    and del: "inv y \<Longrightarrow> known y c \<Longrightarrow> \<exists>y'. del c y = Some y' \<and> inv y' \<and>
      known y' = known y \<and> prio y' = prio y \<and> ok y' = ok y \<and> queue y' = pq_del c (queue y)"
    and grab: "inv y \<Longrightarrow> m \<le> M \<Longrightarrow> \<exists>r y'. grab m node y = Some (r, y') \<and> inv y' \<and>
      known y' = known y \<and> prio y' = prio y \<and> ok y' = ok y \<and> (r, queue y') = pq_step (prio y) (ok y) (RGrab m node) (queue y)"

context run_queue
begin

lemma step_refines:
  assumes "inv y" and "rq_cmd_ok (known y) (prio y) M c"
  shows "\<exists>r y'. rq_step add del grab c y = Some (r, y') \<and> inv y' \<and> known y' = known y \<and> prio y' = prio y \<and> ok y' = ok y \<and>
     (r, queue y') = pq_step (prio y) (ok y) c (queue y)"
proof (cases c)
  case (RAdd c)
  with add [OF assms(1), of c] assms(2) show ?thesis by auto
next
  case (RDel c)
  with del [OF assms(1), of c] assms(2) show ?thesis by auto
next
  case (RGrab m node)
  then have "m \<le> M" using assms(2) by simp
  from grab [OF assms(1) this] RGrab show ?thesis by simp
qed

lemma run_refines:
  "inv y \<Longrightarrow> list_all (rq_cmd_ok (known y) (prio y) M) cs \<Longrightarrow>
   \<exists>rs y'. rq_run add del grab cs y = Some (rs, y') \<and> inv y' \<and> (rs, queue y') = pq_run (prio y) (ok y) cs (queue y)"
proof (induction cs arbitrary: y)
  case (Cons c cs)
  have c: "rq_cmd_ok (known y) (prio y) M c" using Cons.prems(2) by simp
  obtain r y1 where 1: "rq_step add del grab c y = Some (r, y1)" "inv y1" "known y1 = known y" "prio y1 = prio y" "ok y1 = ok y"
     "pq_step (prio y) (ok y) c (queue y) = (r, queue y1)" using step_refines [OF Cons.prems(1) c] by auto
  obtain rs y2 where "rq_run add del grab cs y1 = Some (rs, y2)" "inv y2" "(rs, queue y2) = pq_run (prio y) (ok y) cs (queue y1)"
    using Cons.IH [OF 1(2)] Cons.prems(2) 1(3-5) by auto
  with 1 show ?case by (auto simp: Let_def split: prod.splits)
qed simp

text \<open>Grabbing \<open>n\<close> times in a row serves the waiting contexts in order, each once, and then nothing.\<close>

lemma served_in_order:
  assumes "m \<le> M"
  shows "inv y \<Longrightarrow> \<exists>y'. rq_run add del grab (replicate n (RGrab m node)) y =
     Some (map Some (take n (pq_order (ok y node) m (queue y))) @
           replicate (n - length (pq_order (ok y node) m (queue y))) None, y') \<and> inv y' \<and>
     pq_order (ok y node) m (queue y') = drop n (pq_order (ok y node) m (queue y))"
proof (induction n arbitrary: y)
  case (Suc n)
  obtain r y1 where 1: "grab m node y = Some (r, y1)" "inv y1" "ok y1 = ok y"
     "(r, queue y1) = pq_step (prio y) (ok y) (RGrab m node) (queue y)" using grab [OF Suc.prems assms] by blast
  obtain y2 where 2: "rq_run add del grab (replicate n (RGrab m node)) y1 =
     Some (map Some (take n (pq_order (ok y node) m (queue y1))) @
           replicate (n - length (pq_order (ok y node) m (queue y1))) None, y2)" "inv y2"
     "pq_order (ok y node) m (queue y2) = drop n (pq_order (ok y node) m (queue y1))"
    using Suc.IH [OF 1(2)] 1(3) by auto
  show ?case
  proof (cases "pq_order (ok y node) m (queue y)")
    case Nil
    with 1(4) have "r = None" "queue y1 = queue y" by simp_all
    with 1(1) 2 Nil show ?thesis by simp
  next
    case (Cons c cs)
    with 1(4) have r: "r = Some c" "queue y1 = pq_del c (queue y)" by simp_all
    have "distinct (pq_order (ok y node) m (queue y))"
      by (rule pq_order_distinct [where prio = "prio y"]) (use distinct_queue queued_at Suc.prems in auto)
    then have "pq_order (ok y node) m (queue y1) = cs"
      unfolding r(2) by (rule pq_order_serve [OF Cons]) (use distinct_queue Suc.prems in auto)
    with 1(1) 2 Cons r(1) show ?thesis by simp
  qed
qed simp

end

end
