(* ===== verification/Spu_Run_Queue.thy ===== *)
theory Spu_Run_Queue
  imports Run_Queue Spu_Correct
begin

text \<open>
  The run queues of \<^verbatim>\<open>sched.c\<close> provide the interface \<open>run_queue\<close>: \<^verbatim>\<open>spu_add_to_rq\<close>, \<^verbatim>\<open>spu_del_from_rq\<close> and
  \<^verbatim>\<open>grab_runnable_context\<close>, with the bitmap, the counter of the waiting contexts and the timer, implement a priority
  queue.
\<close>

definition rq_lists :: "spu_sys \<Rightarrow> pqueue" where
  "rq_lists y = (case sy_prio y of None \<Rightarrow> (\<lambda>_. []) | Some P \<Rightarrow> runq P)"

definition ctx_known :: "spu_sys \<Rightarrow> caddr \<Rightarrow> bool" where
  "ctx_known y c \<longleftrightarrow> sy_ctx y c \<noteq> None"

definition ctx_prio :: "spu_sys \<Rightarrow> caddr \<Rightarrow> nat" where
  "ctx_prio y c = (case sy_ctx y c of None \<Rightarrow> 0 | Some C \<Rightarrow> c_prio C)"

definition ctx_allowed :: "spu_env \<Rightarrow> spu_sys \<Rightarrow> nat \<Rightarrow> caddr \<Rightarrow> bool" where
  "ctx_allowed e y node c = (case sy_ctx y c of None \<Rightarrow> False | Some C \<Rightarrow> node_allowed e C node)"

lemmas ctx_facts = ctx_known_def ctx_prio_def ctx_allowed_def

text \<open>Linking a context and taking it off.\<close>

lemma ctx_facts_rq:
  assumes "sy_ctx y' = (sy_ctx y)(c \<mapsto> C\<lparr>c_rq := r\<rparr>)" and "sy_ctx y c = Some C"
  shows "ctx_known y' = ctx_known y" "ctx_prio y' = ctx_prio y" "ctx_allowed e y' = ctx_allowed e y"
  using assms by (auto simp: ctx_facts node_allowed_def fun_eq_iff)

lemma queued_lists:
  assumes wf: "rq_wf e y P" and P: "sy_prio y = Some P" and C: "sy_ctx y c = Some C"
  shows "rq_lists (if c_rq C = None then queued e c C P y else y) = pq_add (c_prio C) c (rq_lists y)"
proof (cases "c_rq C")
  case None
  then have "c \<notin> set (runq P (c_prio C))" using rq_wf_at(2) [OF wf] C by auto
  with None P show ?thesis by (simp add: rq_lists_def queued_def pq_add_def)
next
  case (Some q)
  then have "c \<in> set (runq P (c_prio C))" using rq_wf_at(2) [OF wf, of c q] rq_wf_at(3) [OF wf C Some] C by simp
  with Some P show ?thesis by (simp add: rq_lists_def pq_add_def)
qed

lemma dequeued_lists:
  assumes wf: "rq_wf e y P" and P: "sy_prio y = Some P" and C: "sy_ctx y c = Some C"
  shows "rq_lists (if c_rq C = None then y else dequeued c C P y) = pq_del c (rq_lists y)"
proof -
  have off: "remove1 c (runq P p) = runq P p" if "c_rq C \<noteq> Some p" for p
    using that rq_wf_at(2) [OF wf, of c p] C by (auto intro: remove1_idem)
  show ?thesis
  proof (cases "c_rq C")
    case None
    with off P show ?thesis by (simp add: rq_lists_def pq_del_def)
  next
    case (Some q)
    with rq_wf_at(3) [OF wf C Some] off P show ?thesis by (auto simp: rq_lists_def dequeued_def pq_del_def Let_def fun_eq_iff)
  qed
qed

lemma waiting_order:
  assumes "sy_prio y = Some P"
  shows "waiting e node 0 m P y = pq_order (ctx_allowed e y node) m (rq_lists y)"
proof -
  have "(\<exists>C. sy_ctx y c = Some C \<and> node_allowed e C node) = ctx_allowed e y node c" for c
    by (simp add: ctx_allowed_def split: option.split)
  with assms show ?thesis by (simp add: waiting_def pq_order_def rq_lists_def)
qed

section \<open>The provider\<close>

interpretation spurq: run_queue "spu_add_to_rq e" "spu_del_from_rq e" "grab_runnable_context e" "spu_inv_but X e"
    ctx_known ctx_prio "ctx_allowed e" rq_lists "MAX_PRIO e" for e X
proof
  fix y p assume "spu_inv_but X e y"
  then obtain P where "sy_prio y = Some P" "rq_wf e y P" by (rule spu_inv_prio)
  then show "distinct (rq_lists y p)" using rq_wf_at(1) by (simp add: rq_lists_def)
next
  fix y c p assume i: "spu_inv_but X e y" and c: "c \<in> set (rq_lists y p)"
  obtain P where P: "sy_prio y = Some P" "rq_wf e y P" using i by (rule spu_inv_prio)
  then obtain C where C: "sy_ctx y c = Some C" "c_rq C = Some p" using c rq_wf_at(2) [OF P(2), of c p] by (auto simp: rq_lists_def)
  with rq_wf_at(3) [OF P(2) C] show "ctx_known y c \<and> ctx_prio y c = p \<and> p < MAX_PRIO e" by (simp add: ctx_facts)
next
  fix y c assume i: "spu_inv_but X e y" and c: "ctx_known y c" "ctx_prio y c < MAX_PRIO e"
  obtain P where P: "sy_prio y = Some P" "rq_wf e y P" using i by (rule spu_inv_prio)
  obtain C where C: "sy_ctx y c = Some C" using c by (auto simp: ctx_known_def)
  let ?y = "if c_rq C = None then queued e c C P y else y"
  have lt: "c_prio C < MAX_PRIO e" using c(2) C by (simp add: ctx_prio_def)
  have "spu_add_to_rq e c y = Some ?y" using spu_add_to_rq_eq [OF C P(1) lt] by (simp add: spu_add_to_rq_def)
  moreover have "spu_inv_but X e ?y" using i queued_inv [OF i C _ lt P(1)] by simp
  moreover have "ctx_known ?y = ctx_known y \<and> ctx_prio ?y = ctx_prio y \<and> ctx_allowed e ?y = ctx_allowed e y"
    using ctx_facts_rq [where y = y and c = c and C = C and r = "Some (c_prio C)" and y' = "queued e c C P y"] C by (simp add: queued_def)
  moreover have "rq_lists ?y = pq_add (ctx_prio y c) c (rq_lists y)" using queued_lists [OF P(2,1) C] C by (simp add: ctx_prio_def)
  ultimately show "\<exists>y'. spu_add_to_rq e c y = Some y' \<and> spu_inv_but X e y' \<and> ctx_known y' = ctx_known y \<and>
      ctx_prio y' = ctx_prio y \<and> ctx_allowed e y' = ctx_allowed e y \<and> rq_lists y' = pq_add (ctx_prio y c) c (rq_lists y)" by blast
next
  fix y c assume i: "spu_inv_but X e y" and c: "ctx_known y c"
  obtain P where P: "sy_prio y = Some P" "rq_wf e y P" using i by (rule spu_inv_prio)
  obtain C where C: "sy_ctx y c = Some C" using c by (auto simp: ctx_known_def)
  let ?y = "if c_rq C = None then y else dequeued c C P y"
  have "spu_del_from_rq e c y = Some ?y" using spu_del_from_rq_eq [OF P(2,1) C] by (simp add: spu_del_from_rq_def)
  moreover have "spu_inv_but X e ?y" using i dequeued_inv [OF i C _ P(1)] by simp
  moreover have "ctx_known ?y = ctx_known y \<and> ctx_prio ?y = ctx_prio y \<and> ctx_allowed e ?y = ctx_allowed e y"
    using ctx_facts_rq [where y = y and c = c and C = C and r = None and y' = "dequeued c C P y"] C by (simp add: dequeued_def Let_def)
  ultimately show "\<exists>y'. spu_del_from_rq e c y = Some y' \<and> spu_inv_but X e y' \<and> ctx_known y' = ctx_known y \<and>
      ctx_prio y' = ctx_prio y \<and> ctx_allowed e y' = ctx_allowed e y \<and> rq_lists y' = pq_del c (rq_lists y)"
    using dequeued_lists [OF P(2,1) C] by blast
next
  fix y m node assume i: "spu_inv_but X e y" and m: "m \<le> MAX_PRIO e"
  obtain P where P: "sy_prio y = Some P" "rq_wf e y P" using i by (rule spu_inv_prio)
  note g = grab_eq [OF P(2,1) m, of node, unfolded waiting_order [OF P(1)]]
  show "\<exists>r y'. grab_runnable_context e m node y = Some (r, y') \<and> spu_inv_but X e y' \<and> ctx_known y' = ctx_known y \<and>
      ctx_prio y' = ctx_prio y \<and> ctx_allowed e y' = ctx_allowed e y \<and>
      (r, rq_lists y') = pq_step (ctx_prio y) (ctx_allowed e y) (RGrab m node) (rq_lists y)"
  proof (cases "pq_order (ctx_allowed e y node) m (rq_lists y)")
    case Nil
    with g i show ?thesis by simp
  next
    case (Cons c cs)
    then have "c \<in> set (pq_order (ctx_allowed e y node) m (rq_lists y))" by simp
    then obtain p where "c \<in> set (runq P p)" using P(1) by (auto simp: pq_order_def rq_lists_def)
    then obtain C where C: "sy_ctx y c = Some C" "c_rq C \<noteq> None" using rq_wf_at(2) [OF P(2)] by auto
    have "spu_inv_but X e (dequeued c C P y)" by (rule dequeued_inv [OF i C P(1)])
    moreover have "ctx_known (dequeued c C P y) = ctx_known y \<and> ctx_prio (dequeued c C P y) = ctx_prio y \<and>
        ctx_allowed e (dequeued c C P y) = ctx_allowed e y"
      using ctx_facts_rq [where y = y and c = c and C = C and r = None and y' = "dequeued c C P y"] C by (simp add: dequeued_def Let_def)
    moreover have "rq_lists (dequeued c C P y) = pq_del c (rq_lists y)" using dequeued_lists [OF P(2,1) C(1)] C(2) by simp
    ultimately show ?thesis using g Cons C by simp
  qed
qed

end
