(* ===== verification/Spu_Properties.thy ===== *)
theory Spu_Properties
  imports Spu_Demo Spu_Run_Queue
begin

text \<open>
  The properties of the SPU scheduler of \<^verbatim>\<open>sched.c\<close>: its reachable states, the choice of an SPU, of a
  context to preempt and of a context to run, the time slices, and the SPU that is lost when a context that
  cannot be scheduled waits.
\<close>

section \<open>Reachable states\<close>



section \<open>Giving up an SPU\<close>

text \<open>
  C35. \<^verbatim>\<open>__spu_deactivate\<close> of a context that runs on an SPU never faults.  It takes the first
  waiting context in the order of priority and arrival among those with a priority below the limit that may run on the node.  If there is none, it does nothing unless it is forced to, and
  then saves the context and frees the SPU.  Otherwise the context is saved and the waiting context leaves its
  queue; it is bound to the SPU with a full time slice, unless it is one that is not scheduled, which is only woken
  up.  No other context and no other SPU changes.
\<close>

theorem spu_deactivate_correct:
  assumes "spu_inv e y" and "prio_consts e" and "queued_unbound y" and "mx \<le> MAX_PRIO e"
    and "sy_ctx y c = Some C" and "c_spu C = Some s" and "sy_spu y s = Some S"
  shows "if next_waiting e (s_node S) mx y = None \<and> \<not> force
     then spu_deactivate_locked e c force mx y = Some (False, y)
     else \<exists>y'. spu_deactivate_locked e c force mx y = Some (next_waiting e (s_node S) mx y \<noteq> None, y') \<and> spu_inv e y' \<and>
       deactivated e c s (next_waiting e (s_node S) mx y) y y'"
proof -
  obtain P where "sy_prio y = Some P" using assms(1) by (rule spu_inv_prio)
  with grab_next [OF assms(1,4) this, of "s_node S"] deactivate_ok [OF assms refl, of force] assms(5-7) show ?thesis
    by (auto simp: spu_deactivate_locked_def)
qed

theorem spu_deactivate_correct_witness:
  "\<exists>y'. spu_deactivate_locked demo_spu_env 10 True 140 (demo_spu_sys {}) = Some (True, y') \<and> runs_on demo_spu_env 12 1 y' \<and> saved 10 False y'"
  using spu_deactivate_correct [OF demo_spu_inv demo_consts demo_queued, of 140 "{}" 10 demo_running 1 "demo_spu (Some 10) SPU_USED" True]
    demo_next [of 140 "{}"] by (auto simp: demo_ctx_at demo_spu_at deactivated_def is_nosched_def demo_spu_sys_def)

section \<open>The tick\<close>

text \<open>
  C36. A tick of a bound context under round robin never faults and never wraps the time slice around: the slice
  goes down by one; when it is used up, or the thread has left \<^verbatim>\<open>spu_run\<close>, the first waiting context
  of the same or a more urgent priority gets the SPU with a full slice and the old one is saved, and queued
  again if its thread is in \<^verbatim>\<open>spu_run\<close>; with nobody waiting the context keeps the SPU and at least one tick.
\<close>

theorem spusched_tick_correct:
  assumes "spu_inv e y" and "prio_consts e" and "queued_unbound y" and "spu_acquire e (sy_tick y) c = 0"
    and "sy_ctx y c = Some C" and "c_spu C = Some s" and "round_robin e C" and "c_prio C < MAX_PRIO e" and "sy_spu y s = Some S"
  shows "\<exists>y'. spusched_tick e c y = Some y' \<and> spu_inv e y' \<and>
     ticked e c s C (next_waiting e (s_node S) (c_prio C + 1) y) y y'"
  using tick_ok [OF assms refl] .

theorem spusched_tick_correct_witness:
  "\<exists>y'. spusched_tick demo_spu_env 10 (demo_spu_sys {}) = Some y' \<and> runs_on demo_spu_env 12 1 y' \<and> saved 10 True y'"
  using spusched_tick_correct [OF demo_spu_inv demo_consts demo_queued, of "{}" 10 demo_running 1 "demo_spu (Some 10) SPU_USED"]
    demo_next [of 121 "{}"]
  by (auto simp: demo_ctx_at demo_spu_at ticked_def round_robin_def demo_running_def demo_ctx_def demo_spu_env_def demo_spu_sys_def)

section \<open>Choosing an SPU\<close>

text \<open>
  C37. \<^verbatim>\<open>find_victim\<close> ends as soon as the locks of the contexts can be taken, without a fault.  It returns no SPU exactly if no SPU of an allowed node runs a schedulable context of a less urgent
  priority; else it takes an SPU from a least urgent context of the first node that has one, which waits in a run queue if its thread is
  in \<^verbatim>\<open>spu_run\<close>, and leaves all other contexts and SPUs alone.
\<close>

theorem find_victim_correct:
  assumes "spu_inv e y" and "sy_ctx y c = Some C" and "sane_ctxs e y" and "locks_free e n"
  shows "\<exists>r y'. find_victim e c y = Some (r, y') \<and> spu_inv e y' \<and> victim_result e C y r y'"
  by (rule find_victim_ok [OF assms])

theorem find_victim_correct_witness:
  "\<exists>r y'. find_victim demo_spu_env 13 (demo_spu_sys {}) = Some (r, y') \<and> victim_result demo_spu_env (demo_ctx 50 {}) (demo_spu_sys {}) r y'"
proof -
  have "sane_ctxs demo_spu_env (demo_spu_sys {})" unfolding sane_ctxs_def demo_ctx_at by auto
  moreover have "locks_free demo_spu_env 0" by (simp add: locks_free_def demo_spu_env_def)
  ultimately show ?thesis using find_victim_correct [OF demo_spu_inv, of "{}" 13 "demo_ctx 50 {}" 0] by (auto simp: demo_ctx_at)
qed

text \<open>
  C38. \<^verbatim>\<open>spu_activate\<close> of a schedulable context without a gang, when no signal is pending, ends without a fault.  The
  context is bound with a full time slice to the first free SPU of the nodes it may run on, the nodes being
  tried once each from the one of the current processor on.  If all SPUs of these nodes are in use, a real-time
  context takes the SPU of a least urgent context of a less urgent priority, which is saved, and queued if
  its thread is in \<^verbatim>\<open>spu_run\<close>; in all other cases the context is queued.  No other context and no other
  SPU changes.
\<close>

theorem spu_activate_correct:
  assumes "spu_inv e y" and "prio_consts e" and "sy_ctx y c = Some C" and "c_spu C = None" and "c_rq C = None" and "c_gang C = None"
    and "cpu_node e < MAX_NUMNODES e" and "\<not> signal_pending e (sy_tick y)" and "sane_ctxs e y" and "locks_free e m"
    and "SPU_CREATE_NOSCHED \<notin> c_flags C"
  shows "\<exists>y'. spu_activate e schedule c y = Some (0, y') \<and> spu_inv e y' \<and> (case first_idle e C y of
       Some s \<Rightarrow> runs_on e c s y' \<and> only {c} s y y'
     | None \<Rightarrow> (\<forall>s S. sy_spu y s = Some S \<longrightarrow> node_allowed e C (s_node S) \<longrightarrow> alloc_state S = SPU_USED) \<and>
         activated_without_idle e c C y y')"
proof (cases "first_idle e C y")
  case None
  with activate_busy_ok [OF assms(1-8) None assms(9-11)] first_idle_None [OF spu_invD(2) [OF assms(1)] assms(7) None] show ?thesis
    by simp
next
  case (Some s)
  with activate_idle_ok [OF assms(1-8) Some] show ?thesis by simp
qed

theorem spu_activate_correct_witness:
  "\<exists>y'. spu_activate demo_spu_env Some 13 (demo_spu_sys {}) = Some (0, y') \<and> runs_on demo_spu_env 13 2 y'"
proof -
  let ?e = demo_spu_env and ?y = "demo_spu_sys {}" and ?C = "demo_ctx 50 {}"
  have "usable ?e ?C (map (\<lambda>i. (cpu_node ?e + i) mod MAX_NUMNODES ?e) [0..<MAX_NUMNODES ?e]) ?y = [1, 2]"
    by (simp add: usable_def node_allowed_def) (simp add: demo_spu_env_def demo_ctx_def)
  moreover have "\<not> is_free ?y 1" "is_free ?y 2" unfolding is_free_def demo_spu_at by auto
  ultimately have f: "first_idle ?e ?C ?y = Some 2" by (simp add: first_idle_def)
  have C: "sy_ctx ?y 13 = Some ?C" by (simp add: demo_ctx_at)
  have e: "cpu_node ?e < MAX_NUMNODES ?e" "\<not> signal_pending ?e (sy_tick ?y)" "locks_free ?e 0"
    by (simp_all add: demo_spu_env_def locks_free_def)
  have "sane_ctxs ?e ?y" unfolding sane_ctxs_def demo_ctx_at by auto
  from spu_activate_correct [OF demo_spu_inv demo_consts C _ _ _ e(1,2) this e(3), of Some] f show ?thesis by auto
qed

section \<open>Time slices\<close>

text \<open>
  C39. \<^verbatim>\<open>spu_set_timeslice\<close> gives a context a slice that fits its 32-bit field, is never shorter than the minimum, and is the longer the
  more urgent the context is: from the minimum at nice 19 over the default at nice 0 to eight times the default (800 ms) at nice
  -20, and, for real-time priorities, up to 28 times the default.
\<close>

theorem spu_set_timeslice_bounds:
  assumes pc: "prio_consts e" and C: "sy_ctx y c = Some C"
  shows "\<exists>t. spu_set_timeslice e c y = Some (y\<lparr>sy_ctx := (sy_ctx y)(c \<mapsto> C\<lparr>time_slice := word_of_int t\<rparr>)\<rparr>) \<and>
     uint (word_of_int t :: 32 word) = t \<and> 1 \<le> MIN_SPU_TIMESLICE e \<and>
     (c_prio C < 140 \<longrightarrow> MIN_SPU_TIMESLICE e \<le> t) \<and> t \<le> 28 * DEF_SPU_TIMESLICE e \<and> (100 \<le> c_prio C \<longrightarrow> t \<le> 8 * DEF_SPU_TIMESLICE e) \<and>
     (c_prio C = 139 \<longrightarrow> t = MIN_SPU_TIMESLICE e) \<and> (c_prio C = 120 \<longrightarrow> t = DEF_SPU_TIMESLICE e) \<and>
     (c_prio C = 100 \<longrightarrow> t = 8 * DEF_SPU_TIMESLICE e) \<and> (c_prio C = 0 \<longrightarrow> t = 28 * DEF_SPU_TIMESLICE e) \<and>
     (\<forall>d D y' D'. sy_ctx y d = Some D \<longrightarrow> c_prio C \<le> c_prio D \<longrightarrow> spu_set_timeslice e d y = Some y' \<longrightarrow> sy_ctx y' d = Some D' \<longrightarrow>
        uint (time_slice D') \<le> t)"
proof (intro exI [of _ "slice e (c_prio C)"] conjI allI impI)
  let ?t = "slice e (c_prio C)"
  note v = slice_values [OF pc] and m = slice_mono [OF pc]
  show "?t \<le> 28 * DEF_SPU_TIMESLICE e" using m [of 0 "c_prio C"] v(1) by simp
  show "?t \<le> 8 * DEF_SPU_TIMESLICE e" if "100 \<le> c_prio C" using m [OF that] v(2) by simp
  show "MIN_SPU_TIMESLICE e \<le> ?t" if "c_prio C < 140" using m [of "c_prio C" 139] that v(4) by simp
  show "1 \<le> MIN_SPU_TIMESLICE e" by (simp add: MIN_SPU_TIMESLICE_def)
  fix d D y' D'
  assume d: "sy_ctx y d = Some D" "c_prio C \<le> c_prio D" and y': "spu_set_timeslice e d y = Some y'" "sy_ctx y' d = Some D'"
  have "time_slice D' = word_of_int (slice e (c_prio D))" using y' spu_set_timeslice_eq [OF d(1), of e] by auto
  with slice_word(2) [OF pc, of "c_prio D"] m [OF d(2)] show "uint (time_slice D') \<le> ?t" by simp
qed (use spu_set_timeslice_eq [OF C] slice_word(2) [OF pc] slice_values [OF pc] in auto)

theorem spu_set_timeslice_bounds_witness:
  "\<exists>t. spu_set_timeslice demo_spu_env 11 (demo_spu_sys {}) = Some ((demo_spu_sys {})\<lparr>sy_ctx := (sy_ctx (demo_spu_sys {}))(11 \<mapsto>
      (demo_ctx 120 {})\<lparr>c_rq := Some 120, time_slice := word_of_int t\<rparr>)\<rparr>) \<and> t = 10"
proof -
  have "sy_ctx (demo_spu_sys {}) 11 = Some ((demo_ctx 120 {})\<lparr>c_rq := Some 120\<rparr>)" by (simp add: demo_spu_sys_def)
  from spu_set_timeslice_bounds [OF demo_consts this] obtain t where
    "spu_set_timeslice demo_spu_env 11 (demo_spu_sys {}) = Some ((demo_spu_sys {})\<lparr>sy_ctx := (sy_ctx (demo_spu_sys {}))(11 \<mapsto>
      (demo_ctx 120 {})\<lparr>c_rq := Some 120, time_slice := word_of_int t\<rparr>)\<rparr>)" "t = DEF_SPU_TIMESLICE demo_spu_env" by auto
  then show ?thesis by (simp add: DEF_SPU_TIMESLICE_def SPUSCHED_TICK_def) (simp add: demo_spu_env_def)
qed

section \<open>A lost SPU\<close>

text \<open>
  C40. If a context created with \<^verbatim>\<open>SPU_CREATE_NOSCHED\<close> is the first to wait when a context gives its SPU up, the SPU is lost:
  it stays in use without a context, the woken context is on no queue any more, no search for an idle SPU returns that SPU, and the next
  \<^verbatim>\<open>do_notify_spus_active\<close> dereferences a NULL pointer.
\<close>

theorem spu_deactivate_loses_spu:
  assumes "spu_inv e y" and "prio_consts e" and "queued_unbound y" and "sy_ctx y c = Some C" and "c_spu C = Some s" and "sy_spu y s = Some S"
    and "next_waiting e (s_node S) (MAX_PRIO e) y = Some d" and "sy_ctx y d = Some D" and "SPU_CREATE_NOSCHED \<in> c_flags D"
  shows "\<exists>y'. spu_deactivate e c y = Some y' \<and> spu_inv e y' \<and> vacant s SPU_USED y y' \<and> saved d False y' \<and>
     (\<forall>a A n k. sy_ctx y' a = Some A \<longrightarrow> idle_nodes e a n k y' \<noteq> Some (Some s)) \<and>
     (s_node S \<in> set (online_nodes e) \<longrightarrow> do_notify_spus_active e y' = None)"
proof -
  from deactivate_ok [OF assms(1-3) order_refl assms(4-6) refl, of True] assms(7-9) obtain y' where
    y': "spu_deactivate_locked e c True (MAX_PRIO e) y = Some (True, y')" "spu_inv e y'" "vacant s SPU_USED y y'" "saved d False y'"
    by (auto simp: deactivated_def is_nosched_def)
  have n: "idle_nodes e a n k y' \<noteq> Some (Some s)" if "sy_ctx y' a = Some A" for a A n k
    using idle_nodes_eq [OF spu_invD(2) [OF y'(2)] that, of n k] y'(3) by (auto simp: find_Some_iff is_free_def vacant_def)
  obtain S' where S': "sy_spu y' s = Some S'" "s_ctx S' = None" "alloc_state S' = SPU_USED" and nd: "s_node S' = s_node S" using y'(3) assms(6) by (auto simp: vacant_def)
  have "do_notify_spus_active e y' = None" if "s_node S' \<in> set (online_nodes e)"
    unfolding do_notify_spus_active_def
    by (rule notify_nodes_vacant [OF that _ S']) (use spu_invD(2) [OF y'(2)] S'(1) in \<open>auto simp: node_wf_def\<close>)
  then show ?thesis using y' n nd by (auto simp: spu_deactivate_def)
qed

theorem spu_deactivate_loses_spu_witness:
  "\<exists>y'. spu_deactivate demo_spu_env 10 (demo_spu_sys {SPU_CREATE_NOSCHED}) = Some y' \<and> saved 12 False y' \<and> do_notify_spus_active demo_spu_env y' = None"
  using spu_deactivate_loses_spu [OF demo_spu_inv demo_consts demo_queued, of "{SPU_CREATE_NOSCHED}" 10 demo_running 1 "demo_spu (Some 10) SPU_USED" 12]
    demo_next [of 140 "{SPU_CREATE_NOSCHED}"]
  by (auto simp: demo_ctx_at demo_spu_at demo_spu_env_def)

section \<open>Run queues\<close>

text \<open>
  C11. The run queues are a priority queue: from a state that satisfies the invariant, any sequence of
  \<^verbatim>\<open>spu_add_to_rq\<close>, \<^verbatim>\<open>spu_del_from_rq\<close> and \<^verbatim>\<open>grab_runnable_context\<close> on known contexts and priorities in range returns without a fault, keeps the
  invariant, and returns what the abstract queue \<open>pq_run\<close> returns: adding appends at the priority of the context unless it is queued already, and
  grabbing takes the first context allowed on the node in the order of priority and arrival.
\<close>

theorem run_queue_refines:
  assumes "spu_inv_but X e y" and "list_all (rq_cmd_ok (ctx_known y) (ctx_prio y) (MAX_PRIO e)) cs"
  shows "\<exists>rs y'. rq_run (spu_add_to_rq e) (spu_del_from_rq e) (grab_runnable_context e) cs y = Some (rs, y') \<and>
     spu_inv_but X e y' \<and> (rs, rq_lists y') = pq_run (ctx_prio y) (ctx_allowed e y) cs (rq_lists y)"
  by (rule spurq.run_refines [OF assms])

definition three :: "nat list \<Rightarrow> nat list \<Rightarrow> nat list \<Rightarrow> pqueue" where
  "three a b c = (\<lambda>_. [])(120 := a, 110 := b, 50 := c)"

lemma three_simps:
  "pq_order Q 140 (three a b c) = filter Q (c @ b @ a)"
  "pq_add 50 d (three a b c) = (if d \<in> set c then three a b c else three a b (c @ [d]))"
  "pq_del d (three a b c) = three (remove1 d a) (remove1 d b) (remove1 d c)"
proof -
  have z: "concat (map (three a b c) [i..<j]) = []" if "\<And>p. i \<le> p \<Longrightarrow> p < j \<Longrightarrow> three a b c p = []" for i j
    using that by (simp add: concat_eq_Nil_conv)
  have cut: "[i..<j] = [i..<k] @ k # [Suc k..<j]" if "i \<le> k" "k < j" for i j k :: nat
    using that upt_add_eq_append [of i k "j - k"] by (simp add: upt_conv_Cons)
  have "[0..<140] = [0..<50] @ 50 # [51..<110] @ 110 # [111..<120] @ 120 # [121..<140]"
    using cut [of 0 50 140] cut [of 51 110 140] cut [of 111 120 140] by (simp del: upt_rec_numeral)
  moreover have "concat (map (three a b c) [0..<50]) = []" by (rule z) (simp add: three_def)
  moreover have "concat (map (three a b c) [51..<110]) = []" by (rule z) (simp add: three_def)
  moreover have "concat (map (three a b c) [111..<120]) = []" by (rule z) (simp add: three_def)
  moreover have "concat (map (three a b c) [121..<140]) = []" by (rule z) (simp add: three_def)
  moreover have "three a b c 50 = c" "three a b c 110 = b" "three a b c 120 = a" by (simp_all add: three_def)
  ultimately show "pq_order Q 140 (three a b c) = filter Q (c @ b @ a)"
    by (simp add: pq_order_def del: upt_rec_numeral concat_eq_Nil_conv)
qed (auto simp: three_def pq_add_def pq_del_def)

theorem run_queue_refines_witness:
  "\<exists>y'. rq_run (spu_add_to_rq demo_spu_env) (spu_del_from_rq demo_spu_env) (grab_runnable_context demo_spu_env)
     [RAdd 13, RGrab 140 0, RGrab 140 0, RDel 11, RGrab 140 0] (demo_spu_sys {}) = Some ([None, Some 13, Some 12, None, None], y')"
proof -
  let ?cs = "[RAdd 13, RGrab 140 0, RGrab 140 0, RDel 11, RGrab 140 0]" and ?y = "demo_spu_sys {}"
  have at: "sy_ctx ?y 11 = Some ((demo_ctx 120 {})\<lparr>c_rq := Some 120\<rparr>)" "sy_ctx ?y 12 = Some ((demo_ctx 110 {})\<lparr>c_rq := Some 110\<rparr>)"
    "sy_ctx ?y 13 = Some (demo_ctx 50 {})" by (simp_all add: demo_spu_sys_def)
  have ok: "list_all (rq_cmd_ok (ctx_known ?y) (ctx_prio ?y) (MAX_PRIO demo_spu_env)) ?cs"
    using at by (simp add: ctx_facts demo_spu_env_def demo_ctx_def)
  have q: "rq_lists ?y = three [11] [12] []" by (auto simp: rq_lists_def demo_spu_sys_def demo_prio_def three_def)
  have al: "ctx_allowed demo_spu_env ?y 0 c" if "c \<in> {11, 12, 13}" for c
    using that at by (auto simp: ctx_allowed_def node_allowed_def demo_spu_env_def demo_ctx_def)
  have p: "ctx_prio ?y 13 = 50" using at by (simp add: ctx_prio_def demo_ctx_def)
  have "pq_run (ctx_prio ?y) (ctx_allowed demo_spu_env ?y) ?cs (rq_lists ?y) = ([None, Some 13, Some 12, None, None], three [] [] [])"
    using al by (simp add: q p three_simps)
  with run_queue_refines [OF demo_spu_inv ok] show ?thesis by auto
qed

end
