(* ===== verification/Spec2Isabelle.thy ===== *)
theory Spec2Isabelle
  imports Pid_Properties Ns_Properties Rb_Kernel Idr_Properties Spu_Properties
begin

text \<open>
  \<^bold>\<open>What is verified.\<close>  The repository replaces the radix tree (IDR) that maps the numbers of a PID namespace to
  \<^verbatim>\<open>struct pid\<close> by a skip list, in two source trees: \<^verbatim>\<open>src/skiplist\<close> with the plain list of
  \<^verbatim>\<open>pid_skiplist.c\<close>, and \<^verbatim>\<open>src/rb-skiplist\<close> with the list of \<^verbatim>\<open>pid_rb_skiplist.c\<close>, whose nodes of the highest level are
  also in a red-black tree.  Each tree has the callers of the index, \<^verbatim>\<open>pid.c\<close>, \<^verbatim>\<open>pid.h\<close>, \<^verbatim>\<open>pid_namespace.c\<close> and
  \<^verbatim>\<open>pid_namespace.h\<close>, and two files that print its cursor, \<^verbatim>\<open>loadavg.c\<close> and \<^verbatim>\<open>sched.c\<close>, the scheduler for the SPUs of
  the Cell processor.  The configuration modelled has \<^verbatim>\<open>CONFIG_PID_SKIPLIST\<close> (or \<^verbatim>\<open>CONFIG_PID_RB_SKIPLIST\<close>),
  \<^verbatim>\<open>CONFIG_PID_NS\<close> and \<^verbatim>\<open>CONFIG_CHECKPOINT_RESTORE\<close> set; the branches compiled without the first option, over the IDR, are modelled
  beside it and compared with it.

  \<^bold>\<open>Conventions.\<close>  A function that may fault (NULL or freed memory, an index out of range, a double free, \<^verbatim>\<open>BUG\<close>) or not
  return yields an option, and \<open>None\<close> is the fault; so \<open>f x = Some r\<close> says that \<open>f\<close> returns, touches live memory only and returns \<open>r\<close>.
  Pointers are \<open>addr option\<close>; heaps are maps from addresses to records that keep the C fields; addresses are not reused.
  Error codes are the negative integers of C.  Loops over a structure recurse over it or over a count that bounds them; \<^verbatim>\<open>while\<close>
  loops without such a count are \<open>partial_function (option)\<close>, and the theorems state that they return.  No fuel is used.
  A critical section under a lock is one step; RCU grace periods are explicit queues of memory that is
  freed later.  Code outside the repository is a parameter: the records \<open>draw\<close> (allocator and random numbers of one call), \<open>kenv\<close>,
  \<open>spu_env\<close>, \<open>load_env\<close>, \<open>rb_api\<close> for \<^verbatim>\<open>rb_insert_color\<close> and \<^verbatim>\<open>rb_erase\<close>, and \<open>idr_api\<close> for the IDR, with the documented behaviour as
  hypotheses (\<open>rb_api_ok\<close>, \<open>idr_ok\<close>, \<open>nofail_promise\<close>, \<open>mem_ok\<close>, \<open>env_steady\<close>, \<open>prio_consts\<close>, \<open>locks_free\<close>).

  \<^bold>\<open>Shared.\<close>  \<open>Kernel_Prelude\<close>: types, error numbers, generic lemmas.  \<open>Pid_Index\<close>: the record of index operations and the locale
  \<open>pid_index\<close>, what \<^verbatim>\<open>pid.c\<close> relies on, against a finite map from numbers to pid pointers; \<open>Index_Life\<close>: its extension
  \<open>pid_index_life\<close> by initialisation and destruction.  Both lists are interpretations of both locales.

  \<^bold>\<open>The skip list\<close> (\<^verbatim>\<open>pid_skiplist.c\<close>, \<^verbatim>\<open>pid_skiplist.h\<close>).  \<open>Pid_Skiplist\<close> has one definition per function, \<open>Skiplist_Chain\<close> the level chains
  and the search, \<open>Skiplist_Update\<close> linking and unlinking, \<open>Skiplist_Rep\<close> the invariant \<open>sl_inv\<close> and the abstraction \<open>sl_abs\<close>,
  \<open>Pid_Skiplist_Correct\<close> the operations.  \<open>Skiplist_Properties\<close> (C1 to C7): any run of operations with grace periods refines the map; insertion, lookup,
  successor, removal, iteration and destruction on every branch; the distribution of the levels.

  \<^bold>\<open>The red-black variant\<close> (\<^verbatim>\<open>pid_rb_skiplist.c\<close>, \<^verbatim>\<open>pid_rb_skiplist.h\<close>).  \<open>Pid_Rb_Skiplist\<close> and \<open>Pid_Rb_Correct\<close> reuse the loops over
  an extended node record.  \<open>Rb_Properties\<close> (C8 to C10): the operations refine the map as long as no node is in the tree; a number held by a node of the
  tree cannot be found or removed, because \<^verbatim>\<open>rb_find_le\<close> starts the search behind it; destruction frees everything.

  \<^bold>\<open>PIDs\<close> (\<^verbatim>\<open>pid.c\<close>, \<^verbatim>\<open>pid.h\<close>).  \<open>Kernel_State\<close>: the heaps of namespaces, pids and tasks as the record \<open>kernel\<close>.  \<open>Pid_Core\<close> models
  allocation and release, \<open>Pid_Tasks\<close> lookups, task lists, number translation, the tasks that the macros \<^verbatim>\<open>do_each_pid_task\<close> and
  \<^verbatim>\<open>do_each_pid_thread\<close> of \<^verbatim>\<open>pid.h\<close> visit, pid file descriptors and the initialisation, over the operations of any index.
  \<open>Kernel_Steps\<close>, \<open>Pid_Alloc\<close>, \<open>Pid_Invariant\<close>, \<open>Pid_Alloc_Correct\<close>, \<open>Pid_Free_Correct\<close> and \<open>Pid_Tasks_Correct\<close> hold the proofs, in the locale
  \<open>pid_kernel\<close>.  \<open>Pid_Properties\<close> (C13 to C20): allocation gives the cyclically next free numbers on all levels or an error and no
  change; release and its round trip; the three defects of the allocator.

  \<^bold>\<open>Namespaces\<close> (\<^verbatim>\<open>pid_namespace.c\<close>, \<^verbatim>\<open>pid_namespace.h\<close>).  \<open>Pid_Ns_Ref\<close> and \<open>Pid_Namespace\<close> are the models, \<open>Pid_Ns_Correct\<close> (locale \<open>ns_kernel\<close>),
  \<open>Pid_Ns_Guard\<close> and \<open>Kernel_Reach\<close> the proofs.  \<open>Ns_Properties\<close> (C21 to C31): lookups and task lists, reference counts up the hierarchy, creation, \<^verbatim>\<open>setns\<close>,
  shutdown, \<^verbatim>\<open>ns_last_pid\<close>; every state that boot and the operations \<open>kstep\<close> reach satisfies the invariant and no operation faults.
  \<open>Rb_Kernel\<close> (C32, C33): the same functions in \<^verbatim>\<open>src/rb-skiplist\<close>.  \<open>Kernel_Demo\<close> is the state of the examples.

  \<^bold>\<open>The IDR configuration\<close> (the branches under \<^verbatim>\<open>#ifndef CONFIG_PID_SKIPLIST\<close> of \<^verbatim>\<open>pid.c\<close>, \<^verbatim>\<open>pid_namespace.c\<close>, \<^verbatim>\<open>loadavg.c\<close> and
  \<^verbatim>\<open>sched.c\<close>).  \<open>Pid_Idr\<close> has the models and the documented behaviour of an IDR.  \<open>Idr_Choice\<close> compares the two rules for the next number and
  relates the states, \<open>Idr_Sim\<close> simulates the phases of allocation and release, \<open>Idr_Run\<close> sequences of calls, \<open>Idr_Zap\<close> the loop of the
  shutdown.  \<open>Idr_Properties\<close> (C24, C28, C12): the skip list replaces the IDR call for call, except that it reuses the numbers below
  \<^verbatim>\<open>RESERVED_PIDS\<close> after a wrap-around; the number that \<^verbatim>\<open>/proc/loadavg\<close> prints is one less; without a claim, the tasks that the shutdown signals.

  \<^bold>\<open>The SPU scheduler\<close> (\<^verbatim>\<open>sched.c\<close>; the two copies differ in one \<^verbatim>\<open>#ifdef\<close>).  \<open>Spu_State\<close>: contexts, SPUs, gangs, nodes and run queues as the
  record \<open>spu_sys\<close>.  \<open>Spu_Queue\<close> and \<open>Spu_Sched\<close>: every function of the file.  \<open>Spu_Invariant\<close> has the invariant \<open>spu_inv\<close>; \<open>Spu_Steps\<close>, \<open>Spu_Bind\<close>, \<open>Spu_Place\<close> and
  \<open>Spu_Correct\<close> show what queueing, binding and scheduling do to it, \<open>Spu_Choice\<close> and \<open>Spu_Search\<close> the searches for an SPU, \<open>Spu_Reach\<close> the transition
  system \<open>spu_step\<close>, \<open>Spu_Result\<close> and \<open>Spu_Activate\<close> the outcome of giving up and of obtaining an SPU, \<open>Spu_Demo\<close> the state of the examples.  \<open>Run_Queue\<close> is the
  interface of a priority queue as the locale \<open>run_queue\<close>, which \<open>Spu_Run_Queue\<close> interprets on the run queues.  \<open>Spu_Properties\<close> (C11, C34 to
  C40): the run queues as a priority queue, the reachable states, deactivation, the tick, preemption, activation, time slices, and the SPU lost to a context
  that is not scheduled.  What the other tasks do while a context sleeps in \<^verbatim>\<open>spu_prio_wait\<close> is the argument \<open>schedule\<close>, assumed to keep the invariant and to
  leave that context unbound (\<open>others_ok\<close>).  \<open>Loadavg\<close>: what \<^verbatim>\<open>/proc/loadavg\<close> and \<^verbatim>\<open>/proc/spu_loadavg\<close> print.

  \<^bold>\<open>Not modelled.\<close>  The orderings that lock-free readers observe while a writer runs (the model is sequentially consistent, and readers run between critical
  sections); the bodies of the loops over \<^verbatim>\<open>do_each_pid_task\<close>, which are in other files; registration of files, sysctl entries and caches;
  trace points; the contents of \<^verbatim>\<open>spufs.h\<close> and of the switch code, which are not in the repository (their calls are logged); the variants
  without \<^verbatim>\<open>CONFIG_PID_NS\<close> in \<^verbatim>\<open>pid_namespace.h\<close>; \<^verbatim>\<open>Kconfig\<close>, \<^verbatim>\<open>Makefile\<close> and the benchmark scripts.
\<close>

end
